(* ===== verification/Prelude.thy ===== *)
theory Prelude
  imports Complex_Main
begin

text \<open>
  Shared vocabulary of the development.

  \<^item> \<open>exn\<close> is the Python exception hierarchy as far as the repository's \<open>except\<close>
    clauses distinguish it; \<open>is_Exception\<close> and \<open>is_HTTPError\<close> are the class tests.
  \<^item> A Python call that may raise is a value of \<open>exn + 'a\<close>; \<open>and_then\<close> sequences two
    such calls, propagating the first exception.
  \<^item> \<open>results\<close> splits a list of outcomes the way \<open>asyncio.gather\<close> and
    \<open>executor.map\<close> consume one.
  \<^item> The named collection \<open>outcome_simps\<close> holds the facts with which the component
    proofs unfold such outcomes.
\<close>

named_theorems outcome_simps "equations of the outcome combinators"

subsection \<open>Exceptions\<close>

text \<open>
  Constructors carry what the repository's code reads from the exception: the text that
  \<open>str(exc)\<close> yields (for \<open>KeyError\<close> the key, which \<open>str\<close> quotes), and the status code of an HTTP error. \<open>HTTPStatusError\<close> and
  \<open>RequestError\<close> are httpx's two kinds of \<open>HTTPError\<close>; \<open>HTTPException\<close> is
  FastAPI's; \<open>DockerNotFound\<close> and \<open>DockerAPIError\<close> are the docker SDK's.
  \<open>CancelledError\<close> derives from \<open>BaseException\<close> only.
\<close>

datatype exn =
    ValueError string
  | JSONDecodeError string
  | KeyError string
  | TypeError string
  | OverflowError string
  | ZeroDivisionError
  | UnboundLocalError string
  | PermissionError string
  | HTTPStatusError nat string
  | RequestError string
  | HTTPException nat string
  | DockerNotFound string
  | DockerAPIError string
  | OtherException string
  | CancelledError

definition is_Exception :: "exn \<Rightarrow> bool" where
  "is_Exception e = (e \<noteq> CancelledError)"

fun is_HTTPError :: "exn \<Rightarrow> bool" where
  "is_HTTPError (HTTPStatusError _ _) = True"
| "is_HTTPError (RequestError _) = True"
| "is_HTTPError _ = False"

fun is_ValueError :: "exn \<Rightarrow> bool" where
  "is_ValueError (ValueError _) = True"
| "is_ValueError (JSONDecodeError _) = True"
| "is_ValueError _ = False"

lemma is_HTTPError_is_Exception: "is_HTTPError e \<Longrightarrow> is_Exception e"
  by (cases e) (auto simp: is_Exception_def)

subsection \<open>Outcomes\<close>

type_synonym 'a outcome = "exn + 'a"

fun and_then :: "'a outcome \<Rightarrow> ('a \<Rightarrow> 'b outcome) \<Rightarrow> 'b outcome" where
  "and_then (Inl e) f = Inl e"
| "and_then (Inr x) f = f x"

fun map_outcome :: "('a \<Rightarrow> 'b) \<Rightarrow> 'a outcome \<Rightarrow> 'b outcome" where
  "map_outcome f (Inl e) = Inl e"
| "map_outcome f (Inr x) = Inr (f x)"

lemma and_then_Inr [outcome_simps]:
  "and_then r f = Inr y \<longleftrightarrow> (\<exists>x. r = Inr x \<and> f x = Inr y)"
  by (cases r) auto

lemma and_then_Inl [outcome_simps]:
  "and_then r f = Inl e \<longleftrightarrow> r = Inl e \<or> (\<exists>x. r = Inr x \<and> f x = Inl e)"
  by (cases r) auto

lemma map_outcome_Inr [outcome_simps]:
  "map_outcome f r = Inr y \<longleftrightarrow> (\<exists>x. r = Inr x \<and> y = f x)"
  by (cases r) auto

lemma map_outcome_Inl [outcome_simps]: "map_outcome f r = Inl e \<longleftrightarrow> r = Inl e"
  by (cases r) auto

text \<open>
  The outcome of evaluating a list of calls in order: the values, or the exception of the
  first call that raised.
\<close>

fun results :: "'a outcome list \<Rightarrow> 'a list outcome" where
  "results [] = Inr []"
| "results (r # rs) = and_then r (\<lambda>x. map_outcome (Cons x) (results rs))"

lemma results_Inr_iff: "results rs = Inr xs \<longleftrightarrow> rs = map Inr xs"
  by (induction rs arbitrary: xs) (auto simp: outcome_simps)

lemma results_map_Inr [simp]: "results (map Inr xs) = Inr xs"
  by (simp add: results_Inr_iff)

lemma results_Inl_member: "results rs = Inl e \<Longrightarrow> Inl e \<in> set rs"
  by (induction rs) (auto simp: outcome_simps)

lemma results_first_failure:
  "p < length rs \<Longrightarrow> rs ! p = Inl e \<Longrightarrow> \<forall>i<p. \<exists>x. rs ! i = Inr x \<Longrightarrow> results rs = Inl e"
proof (induction rs arbitrary: p)
  case (Cons r rs)
  show ?case
  proof (cases p)
    case (Suc q)
    with Cons.prems obtain x where "r = Inr x" by force
    moreover have "results rs = Inl e" using Cons.prems Suc by (intro Cons.IH [of q]) auto
    ultimately show ?thesis by simp
  qed (use Cons.prems in simp)
qed simp

lemma results_length: "results rs = Inr xs \<Longrightarrow> length xs = length rs"
  by (auto simp: results_Inr_iff)

subsection \<open>Lists updated by index\<close>

lemma list_update_nth_outside [simp]: "j \<noteq> i \<Longrightarrow> xs[i := v] ! j = xs ! j"
  by simp

lemma map_update_eq: "i < length xs \<Longrightarrow> (map f xs)[i := f (xs ! i)] = map f xs"
  by (metis list_update_id map_update)

lemma filter_eq_drop_none: "\<forall>x\<in>set xs. P x \<Longrightarrow> filter P xs = xs"
  by (induction xs) auto

end
