(* ===== verification/PyFloat.thy ===== *)
theory PyFloat
  imports Prelude
begin

text \<open>
  Python's \<open>float\<close>: IEEE 754 binary64 with round-to-nearest-even, as CPython computes it.
  A finite non-zero value is kept as the rational it denotes (\<open>Fin q\<close>); \<open>Fin 0\<close> is
  \<open>+0.0\<close>, and \<open>-0.0\<close>, the infinities and NaN have constructors of their own.
  \<open>fl\<close> rounds an exact rational to the nearest double; every arithmetic operation is the
  exact one followed by \<open>fl\<close>. Everything is executable.

  The lemmas show that \<open>fl\<close> is the identity on doubles, monotone, and closed, which is what
  the latency, back-off and aggregation properties of the services rest on.
\<close>

subsection \<open>Rounding to nearest, ties to even\<close>

definition round_half_even :: "rat \<Rightarrow> int" where
  "round_half_even x =
     (let f = \<lfloor>x\<rfloor>; d = x - of_int f
      in if d < 1 / 2 then f
         else if 1 / 2 < d then f + 1
         else if even f then f else f + 1)"

lemma round_half_even_of_int [simp]: "round_half_even (of_int n) = n"
  by (simp add: round_half_even_def)

lemma round_half_even_bounds:
  "\<lfloor>x\<rfloor> \<le> round_half_even x \<and> round_half_even x \<le> \<lfloor>x\<rfloor> + 1"
  by (simp add: round_half_even_def Let_def)

lemma round_half_even_mono:
  assumes "x \<le> y"
  shows "round_half_even x \<le> round_half_even y"
proof (cases "\<lfloor>x\<rfloor> = \<lfloor>y\<rfloor>")
  case True
  with assms show ?thesis by (auto simp: round_half_even_def Let_def)
next
  case False
  with assms have "\<lfloor>x\<rfloor> + 1 \<le> \<lfloor>y\<rfloor>" using floor_mono [OF assms] by linarith
  then show ?thesis using round_half_even_bounds [of x] round_half_even_bounds [of y] by linarith
qed

lemma round_half_even_le_int: "x \<le> of_int n \<Longrightarrow> round_half_even x \<le> n"
  using round_half_even_mono [of x "of_int n"] by simp

lemma round_half_even_ge_int: "of_int n \<le> x \<Longrightarrow> n \<le> round_half_even x"
  using round_half_even_mono [of "of_int n" x] by simp

subsection \<open>The binary exponent of a positive rational\<close>

fun bit_length :: "int \<Rightarrow> int" where
  "bit_length n = (if n \<le> 0 then 0 else 1 + bit_length (n div 2))"

declare bit_length.simps [simp del]

definition ilog2 :: "rat \<Rightarrow> int" where
  "ilog2 a =
     (let (n, d) = quotient_of a; k = bit_length n - bit_length d
      in if 2 powi k \<le> a then k else k - 1)"

lemma bit_length_bounds:
  "0 < n \<Longrightarrow> 0 < bit_length n \<and> 2 ^ nat (bit_length n - 1) \<le> n \<and> n < 2 ^ nat (bit_length n)"
proof (induction n rule: bit_length.induct)
  case (1 n)
  show ?case
  proof (cases "n = 1")
    case True
    then show ?thesis by (simp add: bit_length.simps [of 1] bit_length.simps [of 0])
  next
    case False
    with "1.prems" have h: "0 < n div 2" by linarith
    let ?l = "bit_length (n div 2)"
    have b: "bit_length n = 1 + ?l" using "1.prems" by (simp add: bit_length.simps [of n])
    from h "1.IH" "1.prems" have IH: "0 < ?l" "2 ^ nat (?l - 1) \<le> n div 2" "n div 2 < 2 ^ nat ?l"
      by auto
    have e: "(2::int) ^ nat (1 + ?l) = 2 * 2 ^ nat ?l" "(2::int) ^ nat ?l = 2 * 2 ^ nat (?l - 1)"
      using IH(1) by (simp_all add: nat_add_distrib power_eq_if [of _ "nat ?l"] nat_diff_distrib)
    have "2 * (n div 2) \<le> n" "n < 2 * (n div 2) + 2" by linarith+
    then show ?thesis using IH by (simp add: b e)
  qed
qed

lemma bit_length_rat_bounds:
  assumes "0 < n"
  shows "(2::rat) powi (bit_length n - 1) \<le> of_int n"
    and "(of_int n :: rat) < 2 powi (bit_length n)"
proof -
  note b = bit_length_bounds [OF assms]
  have "(of_int (2 ^ nat (bit_length n - 1)) :: rat) \<le> of_int n" using b by (simp only: of_int_le_iff)
  then show "(2::rat) powi (bit_length n - 1) \<le> of_int n" using b by (simp add: power_int_def)
  have "(of_int n :: rat) < of_int (2 ^ nat (bit_length n))" using b by (simp only: of_int_less_iff)
  then show "(of_int n :: rat) < 2 powi (bit_length n)" using b by (simp add: power_int_def)
qed

lemma ilog2_bounds:
  assumes "0 < a"
  shows "2 powi ilog2 a \<le> a" and "a < 2 powi (ilog2 a + 1)"
proof -
  obtain n d where q: "quotient_of a = (n, d)" by fastforce
  have d: "0 < d" using quotient_of_denom_pos [OF q] .
  have a: "a = of_int n / of_int d" using quotient_of_div [OF q] .
  have n: "0 < n" using assms a d by (simp add: zero_less_divide_iff)
  let ?k = "bit_length n - bit_length d"
  note N = bit_length_rat_bounds [OF n] and D = bit_length_rat_bounds [OF d]
  have "2 powi (?k - 1) \<le> a"
  proof -
    have "(2::rat) powi (?k - 1) * of_int d
        \<le> 2 powi (?k - 1) * 2 powi bit_length d"
      using D(2) by (intro mult_left_mono) auto
    also have "\<dots> = 2 powi (bit_length n - 1)"
      by (simp add: power_int_add [symmetric] del: power_int_of_nat)
    also have "\<dots> \<le> of_int n" by (rule N(1))
    finally show ?thesis using d by (simp add: a pos_le_divide_eq)
  qed
  moreover have "a < 2 powi (?k + 1)"
  proof -
    have "(of_int n :: rat) < 2 powi (bit_length n)" by (rule N(2))
    also have "\<dots> = 2 powi (?k + 1) * 2 powi (bit_length d - 1)"
      by (simp add: power_int_add [symmetric] del: power_int_of_nat)
    also have "\<dots> \<le> 2 powi (?k + 1) * of_int d"
      using D(1) by (intro mult_left_mono) auto
    finally show ?thesis using d by (simp add: a pos_divide_less_eq)
  qed
  moreover have "ilog2 a = (if 2 powi ?k \<le> a then ?k else ?k - 1)"
    by (simp add: ilog2_def q)
  ultimately show "2 powi ilog2 a \<le> a" and "a < 2 powi (ilog2 a + 1)"
    by (auto simp: not_le)
qed

lemma powi2_less_cancel: "(2::rat) powi i < 2 powi j \<Longrightarrow> i < j"
  by (metis linorder_not_less one_le_numeral power_int_increasing)

lemma ilog2_mono:
  assumes "0 < a" and "a \<le> b"
  shows "ilog2 a \<le> ilog2 b"
proof -
  have "2 powi ilog2 a \<le> a" using assms ilog2_bounds by blast
  also have "a < 2 powi (ilog2 b + 1)" using assms ilog2_bounds [of b] by linarith
  finally show ?thesis using powi2_less_cancel by fastforce
qed

subsection \<open>Rounding the magnitude\<close>

text \<open>
  A double has a 53-bit significand and the exponent of its last bit is at least \<open>-1074\<close>;
  \<open>ulp_exp a\<close> is that exponent for a value of magnitude \<open>a\<close>.
\<close>

definition ulp_exp :: "rat \<Rightarrow> int" where
  "ulp_exp a = max (- 1074) (ilog2 a - 52)"

definition round_mag :: "rat \<Rightarrow> rat" where
  "round_mag a = of_int (round_half_even (a / 2 powi ulp_exp a)) * 2 powi ulp_exp a"

lemma powi2_of_int: "0 \<le> t \<Longrightarrow> (2::rat) powi t = of_int (2 ^ nat t)"
  by (simp add: power_int_def)

lemma powi2_split: "(2::rat) powi (i + j) = 2 powi i * 2 powi j"
  by (simp add: power_int_add)

text \<open>A dyadic number with at most 53 significant bits is its own rounding.\<close>

lemma round_mag_exact:
  assumes "0 < m" and "m < 2 ^ 53" and "- 1074 \<le> e"
  shows "round_mag (of_int m * 2 powi e) = of_int m * 2 powi e"
proof -
  let ?a = "(of_int m :: rat) * 2 powi e"
  have "2 powi ilog2 ?a \<le> ?a" using assms by (intro ilog2_bounds) simp
  also have "?a < 2 powi 53 * 2 powi e"
  proof (rule mult_strict_right_mono)
    have "(of_int m :: rat) < of_int (2 ^ 53)" using assms(2) by (simp only: of_int_less_iff)
    then show "(of_int m :: rat) < 2 powi 53" by (simp add: power_int_def)
  qed simp
  also have "\<dots> = 2 powi (53 + e)" by (simp only: powi2_split)
  finally have "ilog2 ?a < 53 + e" by (rule powi2_less_cancel)
  then have "ulp_exp ?a \<le> e" using assms(3) by (simp add: ulp_exp_def)
  then obtain t where t: "0 \<le> t" "e = t + ulp_exp ?a"
    by (metis add.commute diff_add_cancel diff_ge_0_iff_ge)
  have "(2::rat) powi e = of_int (2 ^ nat t) * 2 powi ulp_exp ?a"
    using t by (metis powi2_split powi2_of_int)
  then have "?a / 2 powi ulp_exp ?a = of_int (m * 2 ^ nat t)"
    by (simp add: field_simps)
  then have "round_mag ?a = of_int (m * 2 ^ nat t) * 2 powi ulp_exp ?a"
    by (simp only: round_mag_def round_half_even_of_int)
  also have "\<dots> = of_int m * (2 powi t * 2 powi ulp_exp ?a)"
    using t(1) by (simp add: powi2_of_int)
  also have "\<dots> = ?a" using t(2) by (metis powi2_split)
  finally show ?thesis .
qed

lemma round_mag_nonneg: "0 \<le> a \<Longrightarrow> 0 \<le> round_mag a"
  using round_half_even_ge_int [of 0 "a / 2 powi ulp_exp a"] by (simp add: round_mag_def)

text \<open>A power of two that bounds the value and is no smaller than one unit bounds the rounding.\<close>

lemma round_mag_le_powi:
  assumes "a \<le> 2 powi k" and "ulp_exp a \<le> k"
  shows "round_mag a \<le> 2 powi k"
proof -
  let ?e = "ulp_exp a"
  have k: "2 powi k = of_int (2 ^ nat (k - ?e)) * (2::rat) powi ?e"
    using assms(2) powi2_split [of "k - ?e" ?e] by (simp add: powi2_of_int)
  have "a / 2 powi ?e \<le> of_int (2 ^ nat (k - ?e))"
    using assms(1) k by (simp add: pos_divide_le_eq)
  then have "round_half_even (a / 2 powi ?e) \<le> 2 ^ nat (k - ?e)"
    by (rule round_half_even_le_int)
  then have "(of_int (round_half_even (a / 2 powi ?e)) :: rat) \<le> of_int (2 ^ nat (k - ?e))"
    by (simp only: of_int_le_iff)
  then show ?thesis by (simp add: round_mag_def k mult_right_mono)
qed

lemma round_mag_ge_powi:
  assumes "2 powi k \<le> a" and "ulp_exp a \<le> k"
  shows "2 powi k \<le> round_mag a"
proof -
  let ?e = "ulp_exp a"
  have k: "2 powi k = of_int (2 ^ nat (k - ?e)) * (2::rat) powi ?e"
    using assms(2) powi2_split [of "k - ?e" ?e] by (simp add: powi2_of_int)
  have "of_int (2 ^ nat (k - ?e)) \<le> a / 2 powi ?e"
    using assms(1) k by (simp add: pos_le_divide_eq)
  then have "2 ^ nat (k - ?e) \<le> round_half_even (a / 2 powi ?e)"
    by (rule round_half_even_ge_int)
  then have "of_int (2 ^ nat (k - ?e)) \<le> (of_int (round_half_even (a / 2 powi ?e)) :: rat)"
    by (simp only: of_int_le_iff)
  then show ?thesis by (simp add: round_mag_def k mult_right_mono)
qed

lemma round_mag_mono:
  assumes "0 < a" and "a \<le> b"
  shows "round_mag a \<le> round_mag b"
proof (cases "ulp_exp a = ulp_exp b")
  case True
  have "a / 2 powi ulp_exp b \<le> b / 2 powi ulp_exp b"
    using assms by (simp add: divide_right_mono)
  then have "(of_int (round_half_even (a / 2 powi ulp_exp b)) :: rat)
      \<le> of_int (round_half_even (b / 2 powi ulp_exp b))"
    by (simp add: round_half_even_mono)
  with True show ?thesis by (simp add: round_mag_def mult_right_mono)
next
  case False
  have le: "ilog2 a \<le> ilog2 b" using assms by (rule ilog2_mono)
  with False have k: "ilog2 a < ilog2 b" "ulp_exp a \<le> ilog2 b" "ulp_exp b \<le> ilog2 b"
    by (auto simp: ulp_exp_def max_def split: if_splits)
  have "a \<le> 2 powi ilog2 b"
    using ilog2_bounds(2) [OF assms(1)] k(1)
    by (meson le_less_trans less_imp_le one_le_numeral order.strict_trans2 power_int_increasing zless_imp_add1_zle)
  then have "round_mag a \<le> 2 powi ilog2 b" using k(2) by (rule round_mag_le_powi)
  also have "\<dots> \<le> round_mag b"
    using assms k(3) by (intro round_mag_ge_powi ilog2_bounds) auto
  finally show ?thesis .
qed

text \<open>The rounded magnitude is again a 53-bit dyadic number, or zero.\<close>

lemma round_mag_dyadic:
  assumes "0 < a"
  shows "\<exists>m e. 0 \<le> m \<and> m < 2 ^ 53 \<and> - 1074 \<le> e \<and> round_mag a = of_int m * 2 powi e"
proof -
  let ?e = "ulp_exp a" and ?m = "round_half_even (a / 2 powi ulp_exp a)"
  have e: "- 1074 \<le> ?e" by (simp add: ulp_exp_def)
  have m0: "0 \<le> ?m" using assms by (intro round_half_even_ge_int) simp
  have "a < 2 powi (ilog2 a + 1)" using assms by (rule ilog2_bounds)
  also have "(2::rat) powi (ilog2 a + 1) \<le> 2 powi (53 + ?e)"
    by (intro power_int_increasing) (auto simp: ulp_exp_def)
  also have "\<dots> = of_int (2 ^ 53) * 2 powi ?e"
    by (simp only: powi2_split powi2_of_int) (simp add: powi2_of_int)
  finally have "?m \<le> 2 ^ 53"
    by (intro round_half_even_le_int) (simp add: pos_divide_le_eq)
  then consider "?m < 2 ^ 53" | "?m = 2 ^ 53" by linarith
  then show ?thesis
  proof cases
    case 1
    then show ?thesis using e m0 by (auto simp: round_mag_def)
  next
    case 2
    then have "round_mag a = of_int (2 ^ 53) * 2 powi ?e" by (simp only: round_mag_def)
    also have "(of_int (2 ^ 53) :: rat) = of_int (2 ^ 52) * 2" by simp
    also have "of_int (2 ^ 52) * 2 * 2 powi ?e = of_int (2 ^ 52) * (2::rat) powi (1 + ?e)"
      by (simp only: powi2_split power_int_1_right mult.assoc)
    finally have *: "round_mag a = of_int (2 ^ 52) * 2 powi (1 + ?e)" .
    have "(0::int) \<le> 2 ^ 52" "(2::int) ^ 52 < 2 ^ 53" "- 1074 \<le> 1 + ?e" using e by simp_all
    with * show ?thesis by blast
  qed
qed

subsection \<open>Evaluation on integers\<close>

text \<open>
  Code equations that carry out the rounding on the numerator and denominator, so that
  \<open>code_simp\<close> evaluates float expressions without a detour through fractions.
\<close>

fun ipow2 :: "int \<Rightarrow> int" where
  "ipow2 n =
     (if n \<le> 0 then 1
      else let h = ipow2 (n div 2) in if even n then h * h else 2 * (h * h))"

declare ipow2.simps [simp del]

lemma ipow2_eq: "ipow2 n = 2 ^ nat n"
proof (induction n rule: ipow2.induct)
  case (1 n)
  show ?case
  proof (cases "n \<le> 0")
    case True
    then show ?thesis by (simp add: ipow2.simps [of n])
  next
    case False
    then have "nat n = nat (n div 2) + nat (n div 2) + (if even n then 0 else 1)"
      by (auto elim!: evenE oddE)
    then have "(2::int) ^ nat n = 2 ^ nat (n div 2) * 2 ^ nat (n div 2) * (if even n then 1 else 2)"
      by (simp add: power_add)
    then show ?thesis using 1 False by (simp add: ipow2.simps [of n] Let_def)
  qed
qed

lemma ipow2_frac: "(2::rat) powi k * of_int (ipow2 (- k)) = of_int (ipow2 k)"
proof (cases "0 \<le> k")
  case True
  then show ?thesis by (simp add: ipow2_eq power_int_def)
next
  case False
  then show ?thesis by (simp add: ipow2_eq power_int_def power_one_over)
qed

lemma ipow2_pos: "0 < ipow2 k"
  by (simp add: ipow2_eq)

definition rhe_div :: "int \<Rightarrow> int \<Rightarrow> int" where
  "rhe_div n d =
     (let f = n div d; r = 2 * (n mod d)
      in if r < d then f else if d < r then f + 1 else if even f then f else f + 1)"

lemma round_half_even_div:
  assumes "0 < d"
  shows "round_half_even (of_int n / of_int d) = rhe_div n d"
proof -
  have f: "\<lfloor>(of_int n :: rat) / of_int d\<rfloor> = n div d" by (rule floor_divide_of_int_eq)
  have "(of_int n :: rat) = of_int (n div d * d + n mod d)" by simp
  then have "(of_int n :: rat) / of_int d - of_int (n div d) = of_int (n mod d) / of_int d"
    using assms by (simp only: of_int_add of_int_mult) (simp add: field_simps)
  moreover have "(of_int (n mod d) :: rat) / of_int d < 1 / 2 \<longleftrightarrow> 2 * (n mod d) < d"
  proof -
    have "(of_int (n mod d) :: rat) / of_int d < 1 / 2 \<longleftrightarrow> of_int (2 * (n mod d)) < (of_int d :: rat)"
      using assms by (simp add: field_simps)
    then show ?thesis by (simp only: of_int_less_iff)
  qed
  moreover have "1 / 2 < (of_int (n mod d) :: rat) / of_int d \<longleftrightarrow> d < 2 * (n mod d)"
  proof -
    have "1 / 2 < (of_int (n mod d) :: rat) / of_int d \<longleftrightarrow> (of_int d :: rat) < of_int (2 * (n mod d))"
      using assms by (simp add: field_simps)
    then show ?thesis by (simp only: of_int_less_iff)
  qed
  ultimately show ?thesis by (simp only: round_half_even_def rhe_div_def f Let_def)
qed

lemma round_half_even_code [code]:
  "round_half_even x = (let (n, d) = quotient_of x in rhe_div n d)"
proof -
  obtain n d where q: "quotient_of x = (n, d)" by fastforce
  then show ?thesis
    using round_half_even_div [OF quotient_of_denom_pos [OF q], of n]
    by (simp add: quotient_of_div [OF q])
qed

lemma ilog2_code [code]:
  "ilog2 a =
     (let (n, d) = quotient_of a; k = bit_length n - bit_length d
      in if ipow2 k * d \<le> n * ipow2 (- k) then k else k - 1)"
proof -
  obtain n d where q: "quotient_of a = (n, d)" by fastforce
  have d: "0 < d" using quotient_of_denom_pos [OF q] .
  have "2 powi k \<le> a \<longleftrightarrow> ipow2 k * d \<le> n * ipow2 (- k)" for k
  proof -
    have p: "(0::rat) < of_int (ipow2 (- k)) * of_int d" using d ipow2_pos [of "- k"] by simp
    have "2 powi k \<le> a \<longleftrightarrow>
        2 powi k * (of_int (ipow2 (- k)) * of_int d) \<le> a * (of_int (ipow2 (- k)) * of_int d)"
      using p by (simp only: mult_le_cancel_right_pos)
    also have "2 powi k * (of_int (ipow2 (- k)) * of_int d) = (of_int (ipow2 k * d) :: rat)"
      using ipow2_frac [of k] by (simp add: mult.assoc [symmetric])
    also have "a * (of_int (ipow2 (- k)) * of_int d) = of_int (n * ipow2 (- k))"
      using d by (simp add: quotient_of_div [OF q])
    finally show ?thesis by (simp only: of_int_le_iff)
  qed
  then show ?thesis by (simp add: ilog2_def q)
qed

lemma round_mag_code [code]:
  "round_mag a =
     (let e = ulp_exp a; (n, d) = quotient_of a
      in if 0 \<le> e then of_int (rhe_div n (d * ipow2 e) * ipow2 e)
         else Fract (rhe_div (n * ipow2 (- e)) d) (ipow2 (- e)))"
proof -
  obtain n d where q: "quotient_of a = (n, d)" by fastforce
  have d: "0 < d" using quotient_of_denom_pos [OF q] .
  let ?e = "ulp_exp a"
  show ?thesis
  proof (cases "0 \<le> ?e")
    case True
    have p: "(2::rat) powi ?e = of_int (ipow2 ?e)"
      using True by (simp add: ipow2_eq power_int_def)
    have "a / 2 powi ?e = of_int n / of_int (d * ipow2 ?e)"
      unfolding p by (simp add: quotient_of_div [OF q])
    moreover have "0 < d * ipow2 ?e" using d ipow2_pos by simp
    ultimately have "round_half_even (a / 2 powi ?e) = rhe_div n (d * ipow2 ?e)"
      by (simp only: round_half_even_div)
    with True show ?thesis by (simp add: round_mag_def q p Let_def)
  next
    case False
    have p: "(2::rat) powi ?e = 1 / of_int (ipow2 (- ?e))"
      using False by (simp add: ipow2_eq power_int_def power_one_over)
    have "a / 2 powi ?e = of_int (n * ipow2 (- ?e)) / of_int d"
      unfolding p by (simp add: quotient_of_div [OF q])
    then have "round_half_even (a / 2 powi ?e) = rhe_div (n * ipow2 (- ?e)) d"
      by (simp only: round_half_even_div [OF d])
    with False show ?thesis by (simp add: round_mag_def q p Fract_of_int_quotient Let_def)
  qed
qed

subsection \<open>Doubles and their order\<close>

datatype pyfloat = Fin rat | NegZero | PosInf | NegInf | NaN

fun is_nan :: "pyfloat \<Rightarrow> bool" where
  "is_nan NaN = True"
| "is_nan _ = False"

fun is_inf :: "pyfloat \<Rightarrow> bool" where
  "is_inf PosInf = True"
| "is_inf NegInf = True"
| "is_inf _ = False"

fun is_zero :: "pyfloat \<Rightarrow> bool" where
  "is_zero (Fin q) = (q = 0)"
| "is_zero NegZero = True"
| "is_zero _ = False"

fun is_neg :: "pyfloat \<Rightarrow> bool" where
  "is_neg (Fin q) = (q < 0)"
| "is_neg NegZero = True"
| "is_neg NegInf = True"
| "is_neg _ = False"

definition is_finite :: "pyfloat \<Rightarrow> bool" where
  "is_finite x = (\<not> is_nan x \<and> \<not> is_inf x)"

fun fval :: "pyfloat \<Rightarrow> rat" where
  "fval (Fin q) = q"
| "fval _ = 0"

text \<open>
  The comparisons of Python: both zeros are equal, NaN compares false with everything. The
  key orders the infinities around the finite values.
\<close>

fun order_key :: "pyfloat \<Rightarrow> int \<times> rat" where
  "order_key NegInf = (- 1, 0)"
| "order_key PosInf = (1, 0)"
| "order_key x = (0, fval x)"

instantiation pyfloat :: ord
begin

definition less_pyfloat :: "pyfloat \<Rightarrow> pyfloat \<Rightarrow> bool" where
  "less_pyfloat x y =
     (\<not> is_nan x \<and> \<not> is_nan y \<and>
      (fst (order_key x) < fst (order_key y) \<or>
       fst (order_key x) = fst (order_key y) \<and> snd (order_key x) < snd (order_key y)))"

definition less_eq_pyfloat :: "pyfloat \<Rightarrow> pyfloat \<Rightarrow> bool" where
  "less_eq_pyfloat x y =
     (\<not> is_nan x \<and> \<not> is_nan y \<and>
      (fst (order_key x) < fst (order_key y) \<or>
       fst (order_key x) = fst (order_key y) \<and> snd (order_key x) \<le> snd (order_key y)))"

instance ..

end

lemma float_le_refl [simp]: "x \<noteq> NaN \<Longrightarrow> (x::pyfloat) \<le> x"
  by (cases x) (auto simp: less_eq_pyfloat_def)

lemma float_le_trans [trans]: "(x::pyfloat) \<le> y \<Longrightarrow> y \<le> z \<Longrightarrow> x \<le> z"
  by (auto simp: less_eq_pyfloat_def)

lemma float_less_imp_le: "(x::pyfloat) < y \<Longrightarrow> x \<le> y"
  by (auto simp: less_eq_pyfloat_def less_pyfloat_def)

lemma float_less_le_trans: "(x::pyfloat) < y \<Longrightarrow> y \<le> z \<Longrightarrow> x < z"
  by (auto simp: less_eq_pyfloat_def less_pyfloat_def)

lemma float_not_less_iff: "x \<noteq> NaN \<Longrightarrow> y \<noteq> NaN \<Longrightarrow> \<not> x < y \<longleftrightarrow> y \<le> (x::pyfloat)"
  by (cases x; cases y) (auto simp: less_eq_pyfloat_def less_pyfloat_def)

lemma float_le_not_nan: "(x::pyfloat) \<le> y \<Longrightarrow> x \<noteq> NaN \<and> y \<noteq> NaN"
  by (auto simp: less_eq_pyfloat_def)

lemma float_Fin_le [simp]: "Fin a \<le> Fin b \<longleftrightarrow> a \<le> b"
  by (simp add: less_eq_pyfloat_def)

lemma float_Fin_less [simp]: "Fin a < Fin b \<longleftrightarrow> a < b"
  by (simp add: less_pyfloat_def)

lemma float_inf_le [simp]: "x \<noteq> NaN \<Longrightarrow> x \<le> PosInf" "x \<noteq> NaN \<Longrightarrow> NegInf \<le> x"
  by (cases x; simp add: less_eq_pyfloat_def)+

subsection \<open>Rounding a rational to a double\<close>

fun fneg :: "pyfloat \<Rightarrow> pyfloat" where
  "fneg (Fin q) = (if q = 0 then NegZero else Fin (- q))"
| "fneg NegZero = Fin 0"
| "fneg PosInf = NegInf"
| "fneg NegInf = PosInf"
| "fneg NaN = NaN"

definition float_limit :: rat where
  "float_limit = 2 ^ 1024"

definition fl_pos :: "rat \<Rightarrow> pyfloat" where
  "fl_pos a = (let y = round_mag a in if float_limit \<le> y then PosInf else Fin y)"

text \<open>The overflow test reads off the exponent; this is the form that is evaluated.\<close>

lemma float_limit_le_iff: "0 < y \<Longrightarrow> float_limit \<le> y \<longleftrightarrow> 1024 \<le> ilog2 y"
proof
  assume y: "0 < y" and "1024 \<le> ilog2 y"
  then have "(2::rat) powi 1024 \<le> 2 powi ilog2 y" by (intro power_int_increasing) auto
  also have "\<dots> \<le> y" using y by (rule ilog2_bounds)
  finally show "float_limit \<le> y" by (simp add: float_limit_def power_int_def)
next
  assume y: "0 < y" and "float_limit \<le> y"
  then have "2 powi 1024 \<le> y" by (simp add: float_limit_def power_int_def)
  also have "y < 2 powi (ilog2 y + 1)" using y by (rule ilog2_bounds)
  finally show "1024 \<le> ilog2 y" using powi2_less_cancel by fastforce
qed

lemma fl_pos_code [code]:
  "fl_pos a = (let y = round_mag a in if y \<le> 0 \<or> ilog2 y < 1024 then Fin y else PosInf)"
proof (cases "0 < round_mag a")
  case True
  then show ?thesis by (simp add: fl_pos_def Let_def float_limit_le_iff not_le)
next
  case False
  moreover have "0 < float_limit" by (simp add: float_limit_def)
  ultimately have "\<not> float_limit \<le> round_mag a" by linarith
  with False show ?thesis by (simp add: fl_pos_def)
qed

definition fl :: "rat \<Rightarrow> pyfloat" where
  "fl q = (if q = 0 then Fin 0 else if 0 < q then fl_pos q else fneg (fl_pos (- q)))"

definition dyadic64 :: "rat \<Rightarrow> bool" where
  "dyadic64 q =
     (\<bar>q\<bar> < float_limit \<and> (\<exists>m e. \<bar>m\<bar> < 2 ^ 53 \<and> - 1074 \<le> e \<and> q = of_int m * 2 powi e))"

fun wf_float :: "pyfloat \<Rightarrow> bool" where
  "wf_float (Fin q) = (fl q = Fin q)"
| "wf_float _ = True"

lemma fneg_fneg [simp]: "fneg (fneg x) = x"
  by (cases x) auto

lemma fneg_le_iff [simp]: "fneg x \<le> fneg y \<longleftrightarrow> y \<le> x"
  by (cases x; cases y) (auto simp: less_eq_pyfloat_def)

lemma fl_zero [simp]: "fl 0 = Fin 0"
  by (simp add: fl_def)

lemma fl_pos_not_nan [simp]: "fl_pos a \<noteq> NaN" "NaN \<noteq> fl_pos a"
  by (simp_all add: fl_pos_def Let_def)

lemma fl_not_nan [simp]: "fl q \<noteq> NaN" "NaN \<noteq> fl q"
proof -
  have "fneg x = NaN \<longleftrightarrow> x = NaN" for x by (cases x) auto
  then show "fl q \<noteq> NaN" "NaN \<noteq> fl q" by (auto simp: fl_def eq_commute [of NaN])
qed

lemma is_nan_fl [simp]: "\<not> is_nan (fl q)"
proof -
  have "is_nan x \<longleftrightarrow> x = NaN" for x by (cases x) auto
  then show ?thesis by simp
qed

lemma fl_pos_nonneg: "0 < a \<Longrightarrow> Fin 0 \<le> fl_pos a"
  using round_mag_nonneg [of a] by (simp add: fl_pos_def Let_def)

lemma fl_pos_mono: "0 < a \<Longrightarrow> a \<le> b \<Longrightarrow> fl_pos a \<le> fl_pos b"
  using round_mag_mono [of a b] by (auto simp: fl_pos_def Let_def)

lemma fl_neg_eq: "q \<noteq> 0 \<Longrightarrow> fl (- q) = fneg (fl q)"
  by (auto simp: fl_def)

lemma fl_mono:
  assumes "q \<le> r"
  shows "fl q \<le> fl r"
proof -
  have nz: "Fin 0 \<le> x \<Longrightarrow> fneg x \<le> Fin 0" for x
    by (cases x) (auto simp: less_eq_pyfloat_def)
  consider "0 < q" | "q = 0" | "q < 0" "0 < r" | "q < 0" "r = 0" | "q < 0" "r < 0" by linarith
  then show ?thesis
  proof cases
    case 1
    then show ?thesis using assms by (simp add: fl_def fl_pos_mono)
  next
    case 2
    then show ?thesis using assms by (auto simp: fl_def fl_pos_nonneg)
  next
    case 3
    then have "fneg (fl_pos (- q)) \<le> Fin 0" by (intro nz fl_pos_nonneg) simp
    also have "Fin 0 \<le> fl_pos r" using 3 by (simp add: fl_pos_nonneg)
    finally show ?thesis using 3 by (simp add: fl_def)
  next
    case 4
    then show ?thesis by (simp add: fl_def nz fl_pos_nonneg)
  next
    case 5
    then show ?thesis using assms by (simp add: fl_def fl_pos_mono)
  qed
qed

lemma fl_pos_exact:
  assumes "dyadic64 a" and "0 < a"
  shows "fl_pos a = Fin a"
proof -
  from assms obtain m e where me: "\<bar>m\<bar> < 2 ^ 53" "- 1074 \<le> e" "a = of_int m * 2 powi e"
    by (auto simp: dyadic64_def)
  have "(0::rat) < 2 powi e" by simp
  with assms(2) me(3) have "0 < m"
    by (metis zero_less_mult_pos2 of_int_0_less_iff)
  with me have "round_mag a = a" using round_mag_exact [of m e] by simp
  with assms show ?thesis by (simp add: fl_pos_def dyadic64_def)
qed

lemma dyadic64_uminusI: "dyadic64 q \<Longrightarrow> dyadic64 (- q)"
proof -
  assume "dyadic64 q"
  then obtain m e where me: "\<bar>q\<bar> < float_limit" "\<bar>m\<bar> < 2 ^ 53" "- 1074 \<le> e" "q = of_int m * 2 powi e"
    by (auto simp: dyadic64_def)
  then have "\<bar>- q\<bar> < float_limit \<and> \<bar>- m\<bar> < 2 ^ 53 \<and> - 1074 \<le> e \<and> - q = of_int (- m) * 2 powi e"
    by simp
  then show ?thesis unfolding dyadic64_def by blast
qed

lemma dyadic64_uminus [simp]: "dyadic64 (- q) \<longleftrightarrow> dyadic64 q"
  using dyadic64_uminusI [of q] dyadic64_uminusI [of "- q"] by auto

lemma fl_exact: "dyadic64 q \<Longrightarrow> fl q = Fin q"
  using fl_pos_exact [of q] fl_pos_exact [of "- q"] by (auto simp: fl_def)

lemma fl_pos_dyadic:
  assumes "0 < a" and "fl_pos a = Fin r"
  shows "dyadic64 r"
proof -
  from assms have r: "r = round_mag a" "r < float_limit"
    by (auto simp: fl_pos_def Let_def split: if_splits)
  obtain m e where me: "0 \<le> m" "m < 2 ^ 53" "- 1074 \<le> e" "round_mag a = of_int m * 2 powi e"
    using round_mag_dyadic [OF assms(1)] by blast
  have "\<bar>r\<bar> < float_limit" using r round_mag_nonneg [of a] assms(1) by simp
  moreover have "\<bar>m\<bar> < 2 ^ 53" using me by simp
  ultimately show ?thesis using r me unfolding dyadic64_def by blast
qed

lemma dyadic64_zero [simp]: "dyadic64 0"
  unfolding dyadic64_def by (intro conjI exI [of _ 0] exI [of _ "0::int"]) (simp_all add: float_limit_def)

lemma fl_dyadic: "fl q = Fin r \<Longrightarrow> dyadic64 r"
proof -
  assume *: "fl q = Fin r"
  have neg: "fneg x = Fin r \<Longrightarrow> r = 0 \<or> x = Fin (- r)" for x by (cases x) (auto split: if_splits)
  show "dyadic64 r"
    using * fl_pos_dyadic [of q r] fl_pos_dyadic [of "- q" "- r"] neg [of "fl_pos (- q)"]
    by (auto simp: fl_def split: if_splits)
qed

text \<open>The doubles are exactly the dyadic numbers of 53 significant bits in the exponent range.\<close>

lemma wf_float_Fin_iff: "wf_float (Fin q) \<longleftrightarrow> dyadic64 q"
  using fl_exact fl_dyadic by auto

lemma wf_fl [simp]: "wf_float (fl q)"
  by (cases "fl q") (auto dest: fl_dyadic fl_exact)

lemma wf_fneg [simp]: "wf_float (fneg x) \<longleftrightarrow> wf_float x"
proof (cases x)
  case (Fin q)
  then show ?thesis using wf_float_Fin_iff by (cases "q = 0") (simp_all add: fl_exact)
qed auto

end
