(* ===== verification/PyArith.thy ===== *)
theory PyArith
  imports PyFloat
begin

text \<open>
  Python's float operators on the doubles of \<open>PyFloat\<close>: \<open>+\<close>, \<open>-\<close>, \<open>*\<close> (as
  instances of the library's syntactic classes), \<open>/\<close> with its \<open>ZeroDivisionError\<close>,
  \<open>** 2\<close> with its \<open>OverflowError\<close>, \<open>min\<close>, \<open>sum\<close>, \<open>round(x, n)\<close> and the
  conversion of an \<open>int\<close>. The C library's \<open>pow\<close>, which \<open>**\<close> calls, is a parameter.

  The lemmas give closure (every result is a double), the monotonicity facts the services'
  bounds use, and exactness on integers up to \<open>2 ^ 53\<close>.
\<close>

subsection \<open>Operators\<close>

definition signed_zero :: "bool \<Rightarrow> pyfloat" where
  "signed_zero neg = (if neg then NegZero else Fin 0)"

definition signed_inf :: "bool \<Rightarrow> pyfloat" where
  "signed_inf neg = (if neg then NegInf else PosInf)"

instantiation pyfloat :: "{plus, minus, times}"
begin

fun plus_pyfloat :: "pyfloat \<Rightarrow> pyfloat \<Rightarrow> pyfloat" where
  "plus_pyfloat NaN y = NaN"
| "plus_pyfloat x NaN = NaN"
| "plus_pyfloat PosInf y = (if y = NegInf then NaN else PosInf)"
| "plus_pyfloat NegInf y = (if y = PosInf then NaN else NegInf)"
| "plus_pyfloat x PosInf = PosInf"
| "plus_pyfloat x NegInf = NegInf"
| "plus_pyfloat NegZero NegZero = NegZero"
| "plus_pyfloat x y = fl (fval x + fval y)"

definition minus_pyfloat :: "pyfloat \<Rightarrow> pyfloat \<Rightarrow> pyfloat" where
  "minus_pyfloat x y = x + fneg y"

definition times_pyfloat :: "pyfloat \<Rightarrow> pyfloat \<Rightarrow> pyfloat" where
  "times_pyfloat x y =
     (let neg = (is_neg x \<noteq> is_neg y)
      in if is_nan x \<or> is_nan y then NaN
         else if is_inf x \<or> is_inf y
           then (if is_zero x \<or> is_zero y then NaN else signed_inf neg)
         else if is_zero x \<or> is_zero y then signed_zero neg
         else fl (fval x * fval y))"

instance ..

end

definition py_div :: "pyfloat \<Rightarrow> pyfloat \<Rightarrow> pyfloat outcome" where
  "py_div x y =
     (let neg = (is_neg x \<noteq> is_neg y)
      in if is_zero y then Inl ZeroDivisionError
         else if is_nan x \<or> is_nan y \<or> (is_inf x \<and> is_inf y) then Inr NaN
         else if is_inf x then Inr (signed_inf neg)
         else if is_inf y \<or> is_zero x then Inr (signed_zero neg)
         else Inr (fl (fval x / fval y)))"

text \<open>
  \<open>x ** 2\<close>: CPython answers the special values itself, calls the C library's \<open>pow\<close> on
  the magnitude otherwise, and turns an infinite result into \<open>OverflowError\<close>.
\<close>

definition py_square :: "(pyfloat \<Rightarrow> pyfloat \<Rightarrow> pyfloat) \<Rightarrow> pyfloat \<Rightarrow> pyfloat outcome" where
  "py_square c_pow x =
     (case x of
        NaN \<Rightarrow> Inr NaN
      | PosInf \<Rightarrow> Inr PosInf
      | NegInf \<Rightarrow> Inr PosInf
      | NegZero \<Rightarrow> Inr (Fin 0)
      | Fin q \<Rightarrow>
          if q = 0 then Inr (Fin 0)
          else if \<bar>q\<bar> = 1 then Inr (Fin 1)
          else let r = c_pow (Fin \<bar>q\<bar>) (Fin 2)
               in if is_inf r then Inl (OverflowError ''Numerical result out of range'')
                  else Inr r)"

text \<open>\<open>min(a, b)\<close> returns the first argument unless the second is strictly smaller.\<close>

definition py_min :: "pyfloat \<Rightarrow> pyfloat \<Rightarrow> pyfloat" where
  "py_min a b = (if b < a then b else a)"

text \<open>\<open>sum(xs)\<close> of a list of floats: left to right, from the integer 0 (CPython 3.11).\<close>

definition py_sum :: "pyfloat list \<Rightarrow> pyfloat" where
  "py_sum xs = foldl (+) (Fin 0) xs"

definition float_of_int :: "int \<Rightarrow> pyfloat outcome" where
  "float_of_int n =
     (let x = fl (of_int n)
      in if is_inf x then Inl (OverflowError ''int too large to convert to float'') else Inr x)"

text \<open>
  \<open>round(x, n)\<close> rounds the exact value to \<open>n\<close> decimals, ties to even, and converts the
  decimal back to the nearest double, keeping the sign of a zero.
\<close>

definition py_round :: "nat \<Rightarrow> pyfloat \<Rightarrow> pyfloat" where
  "py_round n x =
     (case x of
        Fin q \<Rightarrow>
          (let m = round_half_even (q * 10 ^ n)
           in if m = 0 then signed_zero (q < 0) else fl (of_int m / 10 ^ n))
      | _ \<Rightarrow> x)"

subsection \<open>Closure\<close>

lemma wf_signed [simp]: "wf_float (signed_zero b)" "wf_float (signed_inf b)"
  by (simp_all add: signed_zero_def signed_inf_def)

lemma wf_plus [simp]: "wf_float x \<Longrightarrow> wf_float y \<Longrightarrow> wf_float (x + y)"
  by (cases x; cases y) auto

lemma wf_minus [simp]: "wf_float x \<Longrightarrow> wf_float y \<Longrightarrow> wf_float (x - y)"
  by (simp add: minus_pyfloat_def)

lemma wf_times [simp]: "wf_float (x * y)"
  by (simp add: times_pyfloat_def Let_def)

lemma wf_py_div: "py_div x y = Inr z \<Longrightarrow> wf_float z"
  by (auto simp: py_div_def Let_def split: if_splits)

lemma wf_py_round: "wf_float x \<Longrightarrow> wf_float (py_round n x)"
  by (cases x) (auto simp: py_round_def Let_def)

lemma wf_py_min [simp]: "wf_float a \<Longrightarrow> wf_float b \<Longrightarrow> wf_float (py_min a b)"
  by (simp add: py_min_def)

lemma wf_float_of_int: "float_of_int n = Inr x \<Longrightarrow> wf_float x"
  by (auto simp: float_of_int_def Let_def split: if_splits)

lemma wf_foldl_plus: "wf_float a \<Longrightarrow> \<forall>x\<in>set xs. wf_float x \<Longrightarrow> wf_float (foldl (+) a xs)"
  by (induction xs arbitrary: a) auto

lemma wf_py_sum: "\<forall>x\<in>set xs. wf_float x \<Longrightarrow> wf_float (py_sum xs)"
  by (simp add: py_sum_def wf_foldl_plus)

subsection \<open>Algebra that survives rounding\<close>

lemma float_add_commute: "(x::pyfloat) + y = y + x"
  by (cases x; cases y) (auto simp: add.commute)

lemma float_mult_commute: "(x::pyfloat) * y = y * x"
  by (cases "is_neg x"; cases "is_neg y") (auto simp: times_pyfloat_def Let_def mult.commute)

lemma float_add_zero:
  assumes "wf_float x"
  shows "x + Fin 0 = (if x = NegZero then Fin 0 else x)"
  using assms by (cases x) auto

lemma fl_fval_le: "wf_float x \<Longrightarrow> is_finite x \<Longrightarrow> x \<le> fl (fval x) \<and> fl (fval x) \<le> x"
  by (cases x) (auto simp: is_finite_def less_eq_pyfloat_def)

lemma float_add_finite:
  assumes "is_finite x" and "is_finite y"
  shows "x + y \<le> fl (fval x + fval y) \<and> fl (fval x + fval y) \<le> x + y"
  using assms by (cases x; cases y) (auto simp: is_finite_def less_eq_pyfloat_def)

lemma fval_mono: "is_finite x \<Longrightarrow> is_finite y \<Longrightarrow> x \<le> y \<longleftrightarrow> fval x \<le> fval y"
  by (cases x; cases y) (auto simp: is_finite_def less_eq_pyfloat_def)

lemma float_add_mono:
  assumes "x \<le> x'" and "y \<le> y'" and "is_finite x" "is_finite y" "is_finite x'" "is_finite y'"
  shows "(x::pyfloat) + y \<le> x' + y'"
proof -
  have "x + y \<le> fl (fval x + fval y)" using assms float_add_finite by blast
  also have "\<dots> \<le> fl (fval x' + fval y')"
    using assms by (intro fl_mono add_mono) (simp_all add: fval_mono)
  also have "\<dots> \<le> x' + y'" using assms float_add_finite by blast
  finally show ?thesis .
qed

text \<open>Adding a non-negative amount never decreases an accumulator.\<close>

lemma float_add_increasing:
  assumes "wf_float x" and "x \<noteq> NaN" and "x \<noteq> NegInf" and "Fin 0 \<le> y"
  shows "x \<le> x + y"
proof (cases "is_finite x \<and> is_finite y")
  case True
  then have "x \<le> fl (fval x)" using assms(1) fl_fval_le by blast
  also have "\<dots> \<le> fl (fval x + fval y)"
    using True assms(4) by (intro fl_mono) (auto simp: fval_mono [of "Fin 0"] is_finite_def)
  also have "\<dots> \<le> x + y" using True float_add_finite by blast
  finally show ?thesis .
next
  case False
  then show ?thesis using assms
    by (cases x; cases y) (auto simp: is_finite_def less_eq_pyfloat_def)
qed

lemma float_nonneg_cases:
  assumes "Fin 0 \<le> x"
  obtains "x = PosInf" | "x = NegZero" | q where "x = Fin q" "0 \<le> q"
  using assms by (cases x) (auto simp: less_eq_pyfloat_def)

lemma fl_nonneg: "0 \<le> q \<Longrightarrow> Fin 0 \<le> fl q"
  using fl_mono [of 0 q] by simp

lemma float_add_nonneg: "Fin 0 \<le> x \<Longrightarrow> Fin 0 \<le> y \<Longrightarrow> Fin 0 \<le> x + y"
  by (elim float_nonneg_cases) (auto simp: fl_nonneg less_eq_pyfloat_def [of "Fin 0" NegZero])

text \<open>Scaling a non-negative double by a factor in \<open>[0, 1]\<close> stays between zero and it.\<close>

lemma float_mult_unit:
  assumes "wf_float b" and "Fin 0 \<le> b" and "is_finite b" and "Fin 0 \<le> r" and "r \<le> Fin 1"
  shows "Fin 0 \<le> b * r \<and> b * r \<le> b"
proof -
  have r: "is_finite r" "0 \<le> fval r" "fval r \<le> 1"
    using assms(4,5) by (cases r; auto simp: is_finite_def less_eq_pyfloat_def)+
  have b: "0 \<le> fval b" using assms(2,3) by (cases b) (auto simp: is_finite_def)
  have z: "signed_zero s \<le> b" "Fin 0 \<le> signed_zero s" for s
    using b assms(3) by (cases b; auto simp: signed_zero_def is_finite_def less_eq_pyfloat_def)+
  have "fl (fval b * fval r) \<le> fl (fval b)"
    using r b by (intro fl_mono) (simp add: mult_left_le)
  also have "\<dots> \<le> b" using assms(1,3) fl_fval_le by blast
  finally have m: "fl (fval b * fval r) \<le> b" .
  have n: "Fin 0 \<le> fl (fval b * fval r)" using r b by (simp add: fl_nonneg)
  show ?thesis using assms(3) r(1) z m n by (auto simp: times_pyfloat_def Let_def is_finite_def)
qed

subsection \<open>Exactness on integers\<close>

lemma dyadic64_of_int:
  assumes "\<bar>n\<bar> \<le> 2 ^ 53"
  shows "dyadic64 (of_int n)"
proof -
  have lim: "\<bar>of_int n :: rat\<bar> < float_limit"
  proof -
    have "\<bar>of_int n :: rat\<bar> = of_int \<bar>n\<bar>" by simp
    also have "\<dots> \<le> of_int (2 ^ 53)" using assms by (simp only: of_int_le_iff)
    also have "\<dots> < float_limit" by (simp add: float_limit_def)
    finally show ?thesis .
  qed
  show ?thesis
  proof (cases "\<bar>n\<bar> = 2 ^ 53")
    case True
    then have "n = sgn n * 2 ^ 52 * 2" by (auto simp: sgn_if abs_if split: if_splits)
    then have "(of_int n :: rat) = of_int (sgn n * 2 ^ 52) * 2 powi 1"
      by (metis of_int_mult of_int_numeral power_int_1_right)
    moreover have "\<bar>sgn n * 2 ^ 52\<bar> < (2::int) ^ 53" by (simp add: abs_mult sgn_if)
    ultimately show ?thesis using lim unfolding dyadic64_def
      by (intro conjI exI [of _ "sgn n * 2 ^ 52"] exI [of _ 1]) auto
  next
    case False
    with assms have "\<bar>n\<bar> < 2 ^ 53" by simp
    then show ?thesis using lim unfolding dyadic64_def
      by (intro conjI exI [of _ n] exI [of _ "0::int"]) auto
  qed
qed

lemma fl_of_int_exact: "\<bar>n\<bar> \<le> 2 ^ 53 \<Longrightarrow> fl (of_int n) = Fin (of_int n)"
  by (simp only: fl_exact dyadic64_of_int)

lemma float_add_ints:
  "\<bar>m + n\<bar> \<le> 2 ^ 53 \<Longrightarrow> Fin (of_int m) + Fin (of_int n) = Fin (of_int (m + n))"
  using fl_of_int_exact [of "m + n"] by simp

lemma float_mult_ints:
  assumes "\<bar>m * n\<bar> \<le> 2 ^ 53" and "m \<noteq> 0" and "n \<noteq> 0"
  shows "Fin (of_int m) * Fin (of_int n) = Fin (of_int (m * n))"
  using fl_of_int_exact [of "m * n"] assms by (simp add: times_pyfloat_def is_neg.simps)

lemma foldl_plus_ints:
  assumes "\<forall>n\<in>set ns. 0 \<le> n" and "0 \<le> k" and "k + sum_list ns \<le> 2 ^ 53"
  shows "foldl (+) (Fin (of_int k)) (map (\<lambda>n. Fin (of_int n)) ns) = Fin (of_int (k + sum_list ns))"
  using assms
proof (induction ns arbitrary: k)
  case Nil
  then show ?case by simp
next
  case (Cons n ns)
  have "0 \<le> sum_list ns" using Cons.prems(1) by (auto intro: sum_list_nonneg)
  with Cons.prems have "Fin (of_int k) + Fin (of_int n) = Fin (of_int (k + n))"
    by (intro float_add_ints) auto
  moreover have "foldl (+) (Fin (of_int (k + n))) (map (\<lambda>n. Fin (of_int n)) ns)
      = Fin (of_int ((k + n) + sum_list ns))"
    using Cons.prems by (intro Cons.IH) auto
  ultimately show ?case by (simp add: add.assoc del: of_int_add)
qed

text \<open>Summing non-negative integers whose total stays within \<open>2 ^ 53\<close> is exact.\<close>

lemma py_sum_ints:
  assumes "\<forall>n\<in>set ns. 0 \<le> n" and "sum_list ns \<le> 2 ^ 53"
  shows "py_sum (map (\<lambda>n. Fin (of_int n)) ns) = Fin (of_int (sum_list ns))"
  using foldl_plus_ints [of ns 0] assms by (simp add: py_sum_def)

lemma product_int: "\<bar>n\<bar> \<le> 2 ^ 26 \<Longrightarrow> Fin (of_int n) * Fin (of_int n) = Fin (of_int (n * n))"
proof (cases "n = 0")
  case False
  assume "\<bar>n\<bar> \<le> 2 ^ 26"
  then have "\<bar>n\<bar> * \<bar>n\<bar> \<le> 2 ^ 26 * 2 ^ 26" by (intro mult_mono) auto
  then have "\<bar>n * n\<bar> \<le> 2 ^ 53" by (simp add: abs_mult)
  with False show ?thesis by (intro float_mult_ints)
qed (simp add: times_pyfloat_def signed_zero_def)

end
