(* ===== verification/PyText.thy ===== *)
theory PyText
  imports PyArith "HOL-Library.Char_ord"
begin

text \<open>
  The parts of Python's \<open>str\<close> that the repository uses, on text of code points below 256 (\<open>string\<close>):
  \<open>strip\<close>, \<open>partition\<close>, \<open>startswith\<close>, \<open>replace\<close>, \<open>str(int)\<close>, \<open>repr(str)\<close>,
  and the parsers \<open>int(text)\<close> and \<open>float(text)\<close> with the exact grammar CPython accepts
  (surrounding white space, sign, underscores between digits, exponent, \<open>inf\<close>, \<open>nan\<close>).

  The lemmas give the print/parse round trip of integers, the totality of the parsers, the
  laws of \<open>partition\<close> and how \<open>replace\<close> passes over text without a match.
\<close>

subsection \<open>Characters\<close>

definition is_digit :: "char \<Rightarrow> bool" where
  "is_digit c = (CHR ''0'' \<le> c \<and> c \<le> CHR ''9'')"

definition digit_value :: "char \<Rightarrow> int" where
  "digit_value c = int (of_char c) - 48"

definition digit_char :: "nat \<Rightarrow> char" where
  "digit_char d = char_of (48 + d)"

text \<open>
  White space of \<open>str.strip\<close> up to code point 255: tab to carriage return, the four separators,
  space, next line, no-break space.
\<close>

definition is_space :: "char \<Rightarrow> bool" where
  "is_space c = (let n = (of_char c :: nat) in 9 \<le> n \<and> n \<le> 13 \<or> 28 \<le> n \<and> n \<le> 32 \<or> n = 133 \<or> n = 160)"

definition to_lower :: "char \<Rightarrow> char" where
  "to_lower c = (if CHR ''A'' \<le> c \<and> c \<le> CHR ''Z'' then char_of (of_char c + (32::nat)) else c)"

definition to_upper :: "char \<Rightarrow> char" where
  "to_upper c = (if CHR ''a'' \<le> c \<and> c \<le> CHR ''z'' then char_of (of_char c - (32::nat)) else c)"

subsection \<open>Stripping, splitting, replacing\<close>

definition py_lstrip :: "string \<Rightarrow> string" where
  "py_lstrip s = dropWhile is_space s"

definition py_rstrip :: "string \<Rightarrow> string" where
  "py_rstrip s = rev (dropWhile is_space (rev s))"

definition py_strip :: "string \<Rightarrow> string" where
  "py_strip s = py_rstrip (py_lstrip s)"

text \<open>\<open>s.partition(c)\<close> for a one-character separator; the separator itself is not kept.\<close>

definition py_partition :: "char \<Rightarrow> string \<Rightarrow> string \<times> string" where
  "py_partition c s = (takeWhile (\<lambda>x. x \<noteq> c) s, tl (dropWhile (\<lambda>x. x \<noteq> c) s))"

fun starts_with :: "string \<Rightarrow> string \<Rightarrow> bool" where
  "starts_with [] s = True"
| "starts_with (p # ps) [] = False"
| "starts_with (p # ps) (x # xs) = (p = x \<and> starts_with ps xs)"

text \<open>\<open>s.replace(old, new)\<close> for a non-empty \<open>old\<close>: left to right, without overlaps.\<close>

function py_replace :: "string \<Rightarrow> string \<Rightarrow> string \<Rightarrow> string" where
  "py_replace old new s =
     (if old = [] \<or> s = [] then s
      else if starts_with old s then new @ py_replace old new (drop (length old) s)
      else hd s # py_replace old new (tl s))"
  by pat_completeness auto
termination
  by (relation "measure (\<lambda>(old, new, s). length s)") (auto simp: neq_Nil_conv)

declare py_replace.simps [simp del]

lemma starts_with_iff: "starts_with p s \<longleftrightarrow> (\<exists>t. s = p @ t)"
  by (induction p s rule: starts_with.induct) auto

lemma py_partition_split: "c \<in> set s \<Longrightarrow> s = fst (py_partition c s) @ c # snd (py_partition c s)"
  by (induction s) (auto simp: py_partition_def)

lemma py_partition_append:
  "c \<notin> set a \<Longrightarrow> py_partition c (a @ c # b) = (a, b)"
  by (induction a) (auto simp: py_partition_def)

lemma py_partition_fst: "c \<notin> set (fst (py_partition c s))"
  by (auto simp: py_partition_def dest: set_takeWhileD)

lemma py_replace_Nil [simp]: "py_replace old new [] = []"
  by (simp add: py_replace.simps)

lemma py_replace_skip:
  "old \<noteq> [] \<Longrightarrow> hd old \<notin> set a \<Longrightarrow> py_replace old new (a @ b) = a @ py_replace old new b"
proof (induction a)
  case (Cons x a)
  then have "\<not> starts_with old (x # a @ b)" by (cases old) auto
  with Cons show ?case by (simp add: py_replace.simps [of old new "x # a @ b"])
qed simp

lemma py_replace_here:
  "old \<noteq> [] \<Longrightarrow> py_replace old new (old @ b) = new @ py_replace old new b"
  by (subst py_replace.simps) (auto simp: starts_with_iff)

lemma py_replace_step:
  "old \<noteq> [] \<Longrightarrow> \<not> starts_with old (x # s) \<Longrightarrow>
   py_replace old new (x # s) = x # py_replace old new s"
  by (subst py_replace.simps) auto

lemma py_rstrip_id: "s \<noteq> [] \<Longrightarrow> \<not> is_space (last s) \<Longrightarrow> py_rstrip s = s"
  by (cases "rev s") (auto simp: py_rstrip_def hd_rev [symmetric])

lemma py_lstrip_id: "s \<noteq> [] \<Longrightarrow> \<not> is_space (hd s) \<Longrightarrow> py_lstrip s = s"
  by (cases s) (auto simp: py_lstrip_def)

lemma py_strip_id:
  "s \<noteq> [] \<Longrightarrow> \<not> is_space (hd s) \<Longrightarrow> \<not> is_space (last s) \<Longrightarrow> py_strip s = s"
  by (simp add: py_strip_def py_lstrip_id py_rstrip_id)

subsection \<open>Printing integers\<close>

fun show_digits :: "int \<Rightarrow> string" where
  "show_digits n =
     (if n < 10 then [digit_char (nat n)]
      else show_digits (n div 10) @ [digit_char (nat (n mod 10))])"

declare show_digits.simps [simp del]

definition show_int :: "int \<Rightarrow> string" where
  "show_int i = (if i < 0 then CHR ''-'' # show_digits (- i) else show_digits i)"

fun digits_value :: "int \<Rightarrow> string \<Rightarrow> int" where
  "digits_value acc [] = acc"
| "digits_value acc (c # cs) = digits_value (10 * acc + digit_value c) cs"

lemma of_char_digit_char: "d < 10 \<Longrightarrow> (of_char (digit_char d) :: nat) = 48 + d"
  by (simp add: digit_char_def)

lemma is_digit_iff: "is_digit c \<longleftrightarrow> 48 \<le> (of_char c :: nat) \<and> (of_char c :: nat) \<le> 57"
  by (simp add: is_digit_def less_eq_char_def)

lemma digit_char_facts [simp]:
  "d < 10 \<Longrightarrow> is_digit (digit_char d)"
  "d < 10 \<Longrightarrow> digit_value (digit_char d) = int d"
  by (simp_all add: is_digit_iff of_char_digit_char digit_value_def)

lemma digits_value_append: "digits_value acc (a @ b) = digits_value (digits_value acc a) b"
  by (induction a arbitrary: acc) auto

lemma show_digits_digits: "\<forall>c\<in>set (show_digits n). is_digit c"
proof (induction n rule: show_digits.induct)
  case (1 n)
  then show ?case by (auto simp: show_digits.simps [of n])
qed

lemma show_digits_nonempty [simp]: "show_digits n \<noteq> []"
  by (subst show_digits.simps) simp

lemma digits_value_show_digits: "0 \<le> n \<Longrightarrow> digits_value 0 (show_digits n) = n"
proof (induction n rule: show_digits.induct)
  case (1 n)
  then show ?case by (auto simp: show_digits.simps [of n] digits_value_append)
qed

lemma length_show_digits: "n < 10 ^ k \<Longrightarrow> length (show_digits n) \<le> max 1 k"
proof (induction n arbitrary: k rule: show_digits.induct)
  case (1 n)
  show ?case
  proof (cases "n < 10")
    case True
    then show ?thesis by (simp add: show_digits.simps [of n])
  next
    case False
    with 1(2) obtain k' where k: "k = Suc k'" by (cases k) auto
    with 1(2) have "n div 10 < 10 ^ k'" by simp
    with False have "length (show_digits (n div 10)) \<le> max 1 k'" by (intro 1(1))
    moreover have "k' \<noteq> 0" using False 1(2) k by (cases k') auto
    ultimately show ?thesis using False k by (simp add: show_digits.simps [of n])
  qed
qed

subsection \<open>Parsing numbers\<close>

text \<open>
  Underscores are accepted between two digits only; \<open>drop_underscores\<close> removes them, with
  the flag saying whether the previous character was a digit.
\<close>

fun drop_underscores :: "bool \<Rightarrow> string \<Rightarrow> string option" where
  "drop_underscores d [] = Some []"
| "drop_underscores d (c # cs) =
     (if c = CHR ''_''
      then (if d \<and> cs \<noteq> [] \<and> is_digit (hd cs) then drop_underscores False cs else None)
      else map_option (Cons c) (drop_underscores (is_digit c) cs))"

definition split_sign :: "string \<Rightarrow> bool \<times> string" where
  "split_sign s =
     (case s of
        c # cs \<Rightarrow> if c = CHR ''-'' then (True, cs) else if c = CHR ''+'' then (False, cs) else (False, s)
      | [] \<Rightarrow> (False, []))"

text \<open>\<open>int(text)\<close> in base 10, with CPython 3.11's limit of 4300 digits.\<close>

definition max_str_digits :: nat where
  "max_str_digits = 4300"

definition py_int :: "string \<Rightarrow> int outcome" where
  "py_int raw =
     (let (neg, s) = split_sign (py_strip raw);
          err = Inl (ValueError ''invalid literal for int()'')
      in case drop_underscores False s of
           None \<Rightarrow> err
         | Some ds \<Rightarrow>
             if ds = [] \<or> \<not> list_all is_digit ds then err
             else if max_str_digits < length ds then Inl (ValueError ''Exceeds the limit for integer string conversion'')
             else Inr (if neg then - digits_value 0 ds else digits_value 0 ds))"

text \<open>The optional exponent part of a decimal literal; \<open>None\<close> when the text is malformed.\<close>

definition parse_exponent :: "string \<Rightarrow> int option" where
  "parse_exponent s =
     (case s of
        [] \<Rightarrow> Some 0
      | c # cs \<Rightarrow>
          if to_lower c = CHR ''e''
          then (let (neg, ds) = split_sign cs
                in if ds = [] \<or> \<not> list_all is_digit ds then None
                   else Some (if neg then - digits_value 0 ds else digits_value 0 ds))
          else None)"

definition parse_decimal :: "string \<Rightarrow> rat option" where
  "parse_decimal s =
     (let ip = takeWhile is_digit s;
          r = dropWhile is_digit s;
          dot = (r \<noteq> [] \<and> hd r = CHR ''.'');
          fp = (if dot then takeWhile is_digit (tl r) else []);
          e = (if dot then dropWhile is_digit (tl r) else r)
      in if ip = [] \<and> fp = [] then None
         else map_option
                (\<lambda>x. of_int (digits_value 0 (ip @ fp)) * 10 powi (x - int (length fp)))
                (parse_exponent e))"

definition py_float :: "string \<Rightarrow> pyfloat outcome" where
  "py_float raw =
     (let (neg, s) = split_sign (py_strip raw);
          low = map to_lower s;
          err = Inl (ValueError ''could not convert string to float'');
          signed = (\<lambda>x. Inr (if neg then fneg x else x))
      in if low = ''inf'' \<or> low = ''infinity'' then signed PosInf
         else if low = ''nan'' then Inr NaN
         else case drop_underscores False s of
                None \<Rightarrow> err
              | Some ds \<Rightarrow>
                  (case parse_decimal ds of None \<Rightarrow> err | Some q \<Rightarrow> signed (fl q)))"

lemma drop_underscores_digits: "\<forall>c\<in>set s. is_digit c \<Longrightarrow> drop_underscores d s = Some s"
proof (induction s arbitrary: d)
  case (Cons c s)
  then have "c \<noteq> CHR ''_''" by (auto simp: is_digit_def less_eq_char_def)
  with Cons show ?case by simp
qed simp

lemma digit_not_space: "is_digit c \<Longrightarrow> \<not> is_space c"
  by (auto simp: is_digit_iff is_space_def Let_def)

lemma digit_not_sign: "is_digit c \<Longrightarrow> c \<noteq> CHR ''-'' \<and> c \<noteq> CHR ''+''"
  by (auto simp: is_digit_iff)

lemma py_strip_show_int: "py_strip (show_int i) = show_int i"
proof -
  have d: "\<not> is_space (hd (show_digits n))" "\<not> is_space (last (show_digits n))" for n
    using show_digits_digits [of n] by (simp_all add: digit_not_space)
  then show ?thesis by (auto simp: show_int_def is_space_def intro!: py_strip_id)
qed

lemma split_sign_show_int: "split_sign (show_int i) = (i < 0, show_digits \<bar>i\<bar>)"
proof (cases "i < 0")
  case False
  then obtain c cs where c: "show_digits i = c # cs" by (cases "show_digits i") auto
  with show_digits_digits [of i] have "is_digit c" by simp
  with False c show ?thesis by (auto simp: show_int_def split_sign_def dest: digit_not_sign)
qed (simp add: show_int_def split_sign_def)

text \<open>Printing an integer and parsing it back gives the integer (within the digit limit).\<close>

lemma py_int_show_int:
  assumes "\<bar>i\<bar> < 10 ^ max_str_digits"
  shows "py_int (show_int i) = Inr i"
proof -
  have "length (show_digits \<bar>i\<bar>) \<le> max 1 max_str_digits" using assms by (rule length_show_digits)
  then have "length (show_digits \<bar>i\<bar>) \<le> max_str_digits" by (simp add: max_str_digits_def)
  then show ?thesis using show_digits_digits [of "\<bar>i\<bar>"]
    by (auto simp: py_int_def py_strip_show_int split_sign_show_int drop_underscores_digits
        list_all_iff digits_value_show_digits)
qed

lemma digits_value_bound: "list_all is_digit ds \<Longrightarrow> 0 \<le> digits_value 0 ds \<and> digits_value 0 ds < 10 ^ length ds"
proof (induction ds rule: rev_induct)
  case (snoc d ds)
  have "0 \<le> digit_value d" "digit_value d < 10"
    using snoc.prems by (auto simp: digit_value_def is_digit_iff nat_less_iff)
  then show ?case using snoc by (simp add: digits_value_append)
qed simp

lemma py_int_bound: "py_int s = Inr n \<Longrightarrow> \<bar>n\<bar> < 10 ^ max_str_digits"
proof -
  assume "py_int s = Inr n"
  then obtain ds where ds: "list_all is_digit ds" "length ds \<le> max_str_digits" "\<bar>n\<bar> = \<bar>digits_value 0 ds\<bar>"
    by (auto simp: py_int_def Let_def split: prod.splits option.splits if_splits)
  have "(10::int) ^ length ds \<le> 10 ^ max_str_digits" using ds(2) by (simp add: power_increasing)
  with digits_value_bound [OF ds(1)] ds(3) show ?thesis by linarith
qed

lemma py_float_wf: "py_float s = Inr x \<Longrightarrow> wf_float x"
  by (auto simp: py_float_def Let_def split: prod.splits if_splits option.splits)

lemma py_int_errors: "py_int s = Inl e \<Longrightarrow> is_ValueError e"
  by (auto simp: py_int_def Let_def split: prod.splits if_splits option.splits)

lemma py_float_errors: "py_float s = Inl e \<Longrightarrow> is_ValueError e"
  by (auto simp: py_float_def Let_def split: prod.splits if_splits option.splits)

subsection \<open>The quoted form of a string\<close>

text \<open>
  \<open>repr(s)\<close>: single quotes unless the text holds a single quote and no double quote;
  backslashes, the quote itself and control characters are escaped.
\<close>

definition hex_digit :: "nat \<Rightarrow> char" where
  "hex_digit n = (if n < 10 then digit_char n else char_of (87 + n))"

definition repr_char :: "char \<Rightarrow> char \<Rightarrow> string" where
  "repr_char q c =
     (let n = (of_char c :: nat); bs = char_of (92::nat)
      in if c = q \<or> c = bs then [bs, c]
         else if n = 9 then [bs, CHR ''t'']
         else if n = 10 then [bs, CHR ''n'']
         else if n = 13 then [bs, CHR ''r'']
         else if n < 32 \<or> 127 \<le> n \<and> n \<le> 160 \<or> n = 173 then [bs, CHR ''x'', hex_digit (n div 16), hex_digit (n mod 16)]
         else [c])"

definition py_repr :: "string \<Rightarrow> string" where
  "py_repr s =
     (let sq = char_of (39::nat); dq = char_of (34::nat);
          q = (if sq \<in> set s \<and> dq \<notin> set s then dq else sq)
      in [q] @ concat (map (repr_char q) s) @ [q])"

text \<open>\<open>str(exc)\<close>: the message, but the \<open>repr\<close> of a missing key.\<close>

fun exn_str :: "exn \<Rightarrow> string" where
  "exn_str (ValueError s) = s"
| "exn_str (JSONDecodeError s) = s"
| "exn_str (KeyError k) = py_repr k"
| "exn_str (TypeError s) = s"
| "exn_str (OverflowError s) = s"
| "exn_str ZeroDivisionError = ''division by zero''"
| "exn_str (UnboundLocalError s) = s"
| "exn_str (PermissionError s) = s"
| "exn_str (HTTPStatusError _ s) = s"
| "exn_str (RequestError s) = s"
| "exn_str (HTTPException _ s) = s"
| "exn_str (DockerNotFound s) = s"
| "exn_str (DockerAPIError s) = s"
| "exn_str (OtherException s) = s"
| "exn_str CancelledError = ''''"

end
