(* ===== verification/Utils.thy ===== *)
theory Utils
  imports PyText
begin

text \<open>
  \<^verbatim>\<open>shared/utils.py\<close>: reading the environment (\<open>env_str\<close>, \<open>env_int\<close>,
  \<open>env_float\<close>), the retry loop \<open>retry_async\<close> with exponential back-off and jitter, the
  timing context manager \<open>timed\<close>, and the request counters \<open>MetricsState\<close>.

  Clock readings and random numbers are inputs; log entries and sleeps are outputs, in order.
  The locale \<open>env_reader\<close> is the contract the three environment readers share, and
  \<open>request_recorder\<close> the one the HTTP middleware relies on.
\<close>

subsection \<open>Environment variables\<close>

type_synonym environ = "string \<Rightarrow> string option"

definition env_str :: "environ \<Rightarrow> string \<Rightarrow> string \<Rightarrow> string" where
  "env_str env name def =
     (case env name of None \<Rightarrow> def | Some v \<Rightarrow> if v = [] then def else v)"

definition env_int :: "environ \<Rightarrow> string \<Rightarrow> int \<Rightarrow> int" where
  "env_int env name def =
     (case env name of
        None \<Rightarrow> def
      | Some raw \<Rightarrow>
          if raw = [] then def
          else (case py_int raw of Inl _ \<Rightarrow> def | Inr n \<Rightarrow> n))"

definition env_float :: "environ \<Rightarrow> string \<Rightarrow> pyfloat \<Rightarrow> pyfloat" where
  "env_float env name def =
     (case env name of
        None \<Rightarrow> def
      | Some raw \<Rightarrow>
          if raw = [] then def
          else (case py_float raw of Inl _ \<Rightarrow> def | Inr x \<Rightarrow> x))"

text \<open>What the two log: a warning when a text is set that does not parse.\<close>

datatype env_event =
    EnvIntParseFailed string string int
  | EnvFloatParseFailed string string pyfloat

definition env_int_log :: "environ \<Rightarrow> string \<Rightarrow> int \<Rightarrow> env_event list" where
  "env_int_log env name def =
     (case env name of
        None \<Rightarrow> []
      | Some raw \<Rightarrow>
          if raw = [] then []
          else (case py_int raw of Inl _ \<Rightarrow> [EnvIntParseFailed name raw def] | Inr _ \<Rightarrow> []))"

definition env_float_log :: "environ \<Rightarrow> string \<Rightarrow> pyfloat \<Rightarrow> env_event list" where
  "env_float_log env name def =
     (case env name of
        None \<Rightarrow> []
      | Some raw \<Rightarrow>
          if raw = [] then []
          else (case py_float raw of Inl _ \<Rightarrow> [EnvFloatParseFailed name raw def] | Inr _ \<Rightarrow> []))"

text \<open>
  The common contract: an unset or empty variable gives the default, a text that parses gives
  its value, and any other text gives the default.
\<close>

locale env_reader =
  fixes read :: "environ \<Rightarrow> string \<Rightarrow> 'v \<Rightarrow> 'v"
    and parse :: "string \<Rightarrow> 'v outcome"
  assumes read_unset: "env name = None \<Longrightarrow> read env name def = def"
    and read_empty: "env name = Some [] \<Longrightarrow> read env name def = def"
    and read_parsed: "env name = Some raw \<Longrightarrow> raw \<noteq> [] \<Longrightarrow> parse raw = Inr v \<Longrightarrow> read env name def = v"
    and read_invalid: "env name = Some raw \<Longrightarrow> raw \<noteq> [] \<Longrightarrow> parse raw = Inl e \<Longrightarrow> read env name def = def"
begin

lemma read_cases:
  "read env name def = def \<or>
   (\<exists>raw v. env name = Some raw \<and> raw \<noteq> [] \<and> parse raw = Inr v \<and> read env name def = v)"
proof (cases "env name")
  case None
  then show ?thesis by (simp add: read_unset)
next
  case (Some raw)
  then show ?thesis
    by (cases "raw = []"; cases "parse raw") (auto simp: read_empty read_parsed read_invalid)
qed

lemma read_sound: "P def \<Longrightarrow> (\<And>raw v. parse raw = Inr v \<Longrightarrow> P v) \<Longrightarrow> P (read env name def)"
  using read_cases [of env name "def"] by auto

lemma read_local: "env name = env' name \<Longrightarrow> read env name def = read env' name def"
proof (cases "env' name")
  case (Some raw)
  assume "env name = env' name"
  then show ?thesis using Some
    by (cases "raw = []"; cases "parse raw") (auto simp: read_empty read_parsed read_invalid)
qed (simp add: read_unset)

end

interpretation env_str: env_reader env_str Inr
  by unfold_locales (auto simp: env_str_def)

interpretation env_int: env_reader env_int py_int
  by unfold_locales (auto simp: env_int_def)

interpretation env_float: env_reader env_float py_float
  by unfold_locales (auto simp: env_float_def)

text \<open>A reader that logs what it rejects: a set text is ignored only with a warning.\<close>

locale logged_reader = env_reader read parse
  for read :: "environ \<Rightarrow> string \<Rightarrow> 'v \<Rightarrow> 'v" and parse :: "string \<Rightarrow> 'v outcome" +
  fixes log :: "environ \<Rightarrow> string \<Rightarrow> 'v \<Rightarrow> 'e list"
    and failed :: "string \<Rightarrow> string \<Rightarrow> 'v \<Rightarrow> 'e"
  assumes log_unset: "env name = None \<Longrightarrow> log env name def = []"
    and log_empty: "env name = Some [] \<Longrightarrow> log env name def = []"
    and log_parsed: "env name = Some raw \<Longrightarrow> raw \<noteq> [] \<Longrightarrow> parse raw = Inr v \<Longrightarrow> log env name def = []"
    and log_invalid: "env name = Some raw \<Longrightarrow> raw \<noteq> [] \<Longrightarrow> parse raw = Inl e \<Longrightarrow> log env name def = [failed name raw def]"
begin

lemma silent_iff_obeyed:
  "log env name def = [] \<longleftrightarrow>
     (case env name of None \<Rightarrow> True | Some raw \<Rightarrow> raw = [] \<or> parse raw = Inr (read env name def))"
proof (cases "env name")
  case (Some raw)
  then show ?thesis
    by (cases "raw = []"; cases "parse raw") (auto simp: log_empty log_parsed log_invalid read_parsed)
qed (simp add: log_unset)

end

interpretation env_int: logged_reader env_int py_int env_int_log EnvIntParseFailed
  by unfold_locales (auto simp: env_int_log_def)

interpretation env_float: logged_reader env_float py_float env_float_log EnvFloatParseFailed
  by unfold_locales (auto simp: env_float_log_def)

lemma env_float_wf: "wf_float d \<Longrightarrow> wf_float (env_float env name d)"
  by (rule env_float.read_sound) (auto intro: py_float_wf)

lemma env_int_printed:
  "env name = Some (show_int i) \<Longrightarrow> \<bar>i\<bar> < 10 ^ max_str_digits \<Longrightarrow> env_int env name d = i"
  by (rule env_int.read_parsed [OF _ _ py_int_show_int]) (auto simp: show_int_def)

subsection \<open>Retry with exponential back-off\<close>

text \<open>What a run of \<open>retry_async\<close> writes to the log, and how long it sleeps.\<close>

datatype retry_event =
    RetryExhausted string int string
  | RetryBackoff string int pyfloat string
  | Slept pyfloat

record retry_config =
  attempts :: int
  base_delay_seconds :: pyfloat
  max_delay_seconds :: pyfloat
  retryable :: "exn \<Rightarrow> bool"
  op_name :: string

text \<open>\<open>random.uniform(0, b)\<close> from one draw of \<open>random.random()\<close>.\<close>

definition uniform0 :: "pyfloat \<Rightarrow> pyfloat \<Rightarrow> pyfloat" where
  "uniform0 b r = Fin 0 + (b - Fin 0) * r"

text \<open>
  The pause after a failed attempt. The power of two is a Python integer, and converting it
  to a float for the product raises \<open>OverflowError\<close> from \<open>2 ^ 1024\<close> on.
\<close>

definition backoff_delay :: "retry_config \<Rightarrow> int \<Rightarrow> pyfloat \<Rightarrow> pyfloat outcome" where
  "backoff_delay cfg attempt r =
     map_outcome
       (\<lambda>p. py_min (max_delay_seconds cfg) (base_delay_seconds cfg * p)
             + uniform0 (base_delay_seconds cfg) r)
       (float_of_int (2 ^ nat (attempt - 1)))"

text \<open>
  The loop from one attempt on: \<open>func\<close> is the awaited call, over the state \<open>'s\<close> of
  whatever it talks to; \<open>rand k\<close> is the random number drawn after attempt \<open>k\<close>. The
  last branch is the code after the loop.
\<close>

function retry_loop ::
  "retry_config \<Rightarrow> ('s \<Rightarrow> 'a outcome \<times> 's) \<Rightarrow> (int \<Rightarrow> pyfloat) \<Rightarrow> int \<Rightarrow> exn option \<Rightarrow> 's
    \<Rightarrow> 'a outcome \<times> retry_event list \<times> 's" where
  "retry_loop cfg func rand attempt last_exc s =
     (if attempt \<le> attempts cfg
      then (case func s of
              (Inr x, s') \<Rightarrow> (Inr x, [], s')
            | (Inl e, s') \<Rightarrow>
                if \<not> retryable cfg e then (Inl e, [], s')
                else if attempt = attempts cfg
                  then (Inl e, [RetryExhausted (op_name cfg) attempt (exn_str e)], s')
                else (case backoff_delay cfg attempt (rand attempt) of
                        Inl err \<Rightarrow> (Inl err, [], s')
                      | Inr delay \<Rightarrow>
                          (let (r, evs, s'') = retry_loop cfg func rand (attempt + 1) (Some e) s'
                           in (r,
                               RetryBackoff (op_name cfg) attempt (py_round 3 delay) (exn_str e)
                                 # Slept delay # evs,
                               s''))))
      else (case last_exc of
              None \<Rightarrow> (Inl (OtherException ''AssertionError''), [], s)
            | Some e \<Rightarrow> (Inl e, [], s)))"
  by pat_completeness auto
termination
  by (relation "measure (\<lambda>(cfg, func, rand, attempt, last_exc, s). nat (attempts cfg + 1 - attempt))") auto

declare retry_loop.simps [simp del]

definition retry_async ::
  "retry_config \<Rightarrow> ('s \<Rightarrow> 'a outcome \<times> 's) \<Rightarrow> (int \<Rightarrow> pyfloat) \<Rightarrow> 's
    \<Rightarrow> 'a outcome \<times> retry_event list \<times> 's" where
  "retry_async cfg func rand s =
     (if attempts cfg < 1
      then (Inl (ValueError ''attempts must be >= 1''), [], s)
      else retry_loop cfg func rand 1 None s)"

definition slept :: "retry_event list \<Rightarrow> pyfloat list" where
  "slept evs = concat (map (\<lambda>e. case e of Slept d \<Rightarrow> [d] | _ \<Rightarrow> []) evs)"

lemma slept_simps [simp]:
  "slept [] = []"
  "slept (Slept d # evs) = d # slept evs"
  "slept (RetryBackoff a b c e # evs) = slept evs"
  "slept (RetryExhausted a b f # evs) = slept evs"
  by (simp_all add: slept_def)

subsubsection \<open>The abstract behaviour\<close>

text \<open>
  The outcomes of the first \<open>n\<close> calls, and the state after them, if the calls were made one
  after the other; and what a caller sees of them: the first outcome that is not a retryable
  failure, or the last one.
\<close>

fun call_outcomes :: "nat \<Rightarrow> ('s \<Rightarrow> 'a outcome \<times> 's) \<Rightarrow> 's \<Rightarrow> ('a outcome \<times> 's) list" where
  "call_outcomes 0 func s = []"
| "call_outcomes (Suc n) func s = func s # call_outcomes n func (snd (func s))"

definition conclusive :: "(exn \<Rightarrow> bool) \<Rightarrow> 'a outcome \<Rightarrow> bool" where
  "conclusive p r = (case r of Inl e \<Rightarrow> \<not> p e | Inr _ \<Rightarrow> True)"

fun first_conclusive :: "(exn \<Rightarrow> bool) \<Rightarrow> ('a outcome \<times> 's) list \<Rightarrow> ('a outcome \<times> 's)" where
  "first_conclusive p [x] = x"
| "first_conclusive p (x # y # xs) = (if conclusive p (fst x) then x else first_conclusive p (y # xs))"

lemma length_call_outcomes [simp]: "length (call_outcomes n func s) = n"
  by (induction n arbitrary: s) auto

lemma first_conclusive_step:
  "0 < n \<Longrightarrow>
   first_conclusive p (call_outcomes (Suc n) func s) =
     (if conclusive p (fst (func s)) then func s
      else first_conclusive p (call_outcomes n func (snd (func s))))"
  by (cases n) auto

text \<open>The power of two fits a double for the first 1024 attempts.\<close>

lemma float_of_pow2:
  assumes "k < 1024"
  shows "float_of_int (2 ^ k) = Inr (Fin (2 ^ k))"
proof -
  have "(2::rat) ^ k < 2 ^ 1024" using assms by (intro power_strict_increasing) auto
  then have "\<bar>2 ^ k :: rat\<bar> < float_limit" by (simp only: float_limit_def power_abs abs_numeral)
  moreover have "(2 ^ k :: rat) = of_int 1 * 2 powi int k" by simp
  moreover have "\<bar>1::int\<bar> < 2 ^ 53" "- 1074 \<le> int k" by simp_all
  ultimately have "dyadic64 (2 ^ k)" unfolding dyadic64_def by blast
  then have "fl (2 ^ k) = Fin (2 ^ k)" by (rule fl_exact)
  then show ?thesis by (simp add: float_of_int_def)
qed

lemma backoff_delay_returns: "attempt \<le> 1024 \<Longrightarrow> \<exists>d. backoff_delay cfg attempt r = Inr d"
  using float_of_pow2 [of "nat (attempt - 1)"] by (auto simp: backoff_delay_def)

text \<open>One lemma per branch of the loop body.\<close>

lemma retry_loop_conclusive:
  "attempt \<le> attempts cfg \<Longrightarrow> func s = (r, s') \<Longrightarrow> conclusive (retryable cfg) r \<Longrightarrow>
   retry_loop cfg func rand attempt le s = (r, [], s')"
  by (subst retry_loop.simps) (auto simp: conclusive_def split: sum.splits)

lemma retry_loop_exhausted:
  "attempt = attempts cfg \<Longrightarrow> func s = (Inl e, s') \<Longrightarrow> retryable cfg e \<Longrightarrow>
   retry_loop cfg func rand attempt le s =
     (Inl e, [RetryExhausted (op_name cfg) attempt (exn_str e)], s')"
  by (subst retry_loop.simps) auto

lemma retry_loop_again:
  "attempt < attempts cfg \<Longrightarrow> func s = (Inl e, s') \<Longrightarrow> retryable cfg e \<Longrightarrow>
   backoff_delay cfg attempt (rand attempt) = Inr d \<Longrightarrow>
   retry_loop cfg func rand (attempt + 1) (Some e) s' = (r, evs, s'') \<Longrightarrow>
   retry_loop cfg func rand attempt le s =
     (r, RetryBackoff (op_name cfg) attempt (py_round 3 d) (exn_str e) # Slept d # evs, s'')"
  by (subst retry_loop.simps) auto

text \<open>
  A run from attempt \<open>attempt\<close> on, with \<open>n\<close> attempts left after it: its result, its
  final state, and its log and sleeps (\<open>P\<close> holds of every pause).
\<close>

lemma retry_loop_run:
  assumes "attempts cfg = attempt + int n" and "attempts cfg \<le> 1025"
    and "\<And>k d. 1 \<le> k \<Longrightarrow> k < attempts cfg \<Longrightarrow> backoff_delay cfg k (rand k) = Inr d \<Longrightarrow> P d"
    and "1 \<le> attempt"
  shows "\<exists>evs. retry_loop cfg func rand attempt le s
      = (fst (first_conclusive (retryable cfg) (call_outcomes (Suc n) func s)), evs,
         snd (first_conclusive (retryable cfg) (call_outcomes (Suc n) func s)))
      \<and> (\<forall>d\<in>set (slept evs). P d) \<and> length (slept evs) \<le> n"
  using assms(1,4)
proof (induction n arbitrary: attempt le s)
  case 0
  obtain r s' where f: "func s = (r, s')" by fastforce
  show ?case
  proof (cases "conclusive (retryable cfg) r")
    case True
    with 0 f show ?thesis by (simp add: retry_loop_conclusive)
  next
    case False
    then obtain e where "r = Inl e" "retryable cfg e" by (auto simp: conclusive_def split: sum.splits)
    with 0 f show ?thesis by (simp add: retry_loop_exhausted)
  qed
next
  case (Suc n)
  obtain r s' where f: "func s = (r, s')" by fastforce
  show ?case
  proof (cases "conclusive (retryable cfg) r")
    case True
    with Suc.prems f show ?thesis
      by (simp add: retry_loop_conclusive first_conclusive_step)
  next
    case False
    then obtain e where e: "r = Inl e" "retryable cfg e"
      by (auto simp: conclusive_def split: sum.splits)
    from Suc.prems assms(2) have "attempt \<le> 1024" "attempt < attempts cfg" by auto
    then obtain d where d: "backoff_delay cfg attempt (rand attempt) = Inr d" "P d"
      using backoff_delay_returns assms(3) Suc.prems(2) by blast
    obtain evs where rec: "retry_loop cfg func rand (attempt + 1) (Some e) s'
        = (fst (first_conclusive (retryable cfg) (call_outcomes (Suc n) func s')), evs,
           snd (first_conclusive (retryable cfg) (call_outcomes (Suc n) func s')))"
      "\<forall>d\<in>set (slept evs). P d" "length (slept evs) \<le> n"
      using Suc.IH [of "attempt + 1" "Some e" s'] Suc.prems by auto
    have "retry_loop cfg func rand attempt le s =
        (fst (first_conclusive (retryable cfg) (call_outcomes (Suc n) func s')),
         RetryBackoff (op_name cfg) attempt (py_round 3 d) (exn_str e) # Slept d # evs,
         snd (first_conclusive (retryable cfg) (call_outcomes (Suc n) func s')))"
      using \<open>attempt < attempts cfg\<close> f e d rec(1) by (intro retry_loop_again) auto
    moreover have "first_conclusive (retryable cfg) (call_outcomes (Suc (Suc n)) func s)
        = first_conclusive (retryable cfg) (call_outcomes (Suc n) func s')"
      using False f by (subst first_conclusive_step) auto
    ultimately show ?thesis using rec(2,3) d(2) by auto
  qed
qed

subsection \<open>Timing a block\<close>

text \<open>
  \<open>timed\<close> passes the outcome of the wrapped block through and, in its \<open>finally\<close> clause,
  logs the elapsed milliseconds whether the block raised or not.
\<close>

datatype timed_event = OperationTimed string pyfloat

definition elapsed_ms :: "pyfloat \<Rightarrow> pyfloat \<Rightarrow> pyfloat" where
  "elapsed_ms start stop = (stop - start) * Fin 1000"

definition timed :: "string \<Rightarrow> pyfloat \<Rightarrow> pyfloat \<Rightarrow> 'a outcome \<Rightarrow> 'a outcome \<times> timed_event list" where
  "timed label start stop body = (body, [OperationTimed label (py_round 2 (elapsed_ms start stop))])"

subsection \<open>Request counters\<close>

record metrics_state =
  service :: string
  started_at :: pyfloat
  request_count :: int
  error_count :: int
  total_latency_ms :: pyfloat

definition MetricsState :: "string \<Rightarrow> pyfloat \<Rightarrow> metrics_state" where
  "MetricsState name now =
     \<lparr>service = name, started_at = now, request_count = 0, error_count = 0, total_latency_ms = Fin 0\<rparr>"

definition record_request :: "pyfloat \<Rightarrow> bool \<Rightarrow> metrics_state \<Rightarrow> metrics_state" where
  "record_request duration_ms is_error m =
     (let m1 = m\<lparr>request_count := request_count m + 1\<rparr>;
          m2 = m1\<lparr>total_latency_ms := total_latency_ms m1 + duration_ms\<rparr>
      in if is_error then m2\<lparr>error_count := error_count m2 + 1\<rparr> else m2)"

definition avg_latency_ms :: "metrics_state \<Rightarrow> pyfloat outcome" where
  "avg_latency_ms m =
     (if request_count m = 0 then Inr (Fin 0)
      else and_then (float_of_int (request_count m)) (py_div (total_latency_ms m)))"

definition uptime_seconds :: "pyfloat \<Rightarrow> metrics_state \<Rightarrow> pyfloat" where
  "uptime_seconds now m = now - started_at m"

record metrics_snapshot =
  snap_service :: string
  snap_request_count :: int
  snap_error_count :: int
  snap_avg_latency_ms :: pyfloat
  snap_uptime_seconds :: pyfloat

definition snapshot :: "pyfloat \<Rightarrow> metrics_state \<Rightarrow> metrics_snapshot outcome" where
  "snapshot now m =
     map_outcome
       (\<lambda>avg. \<lparr>snap_service = service m,
               snap_request_count = request_count m,
               snap_error_count = error_count m,
               snap_avg_latency_ms = py_round 3 avg,
               snap_uptime_seconds = py_round 3 (uptime_seconds now m)\<rparr>)
       (avg_latency_ms m)"

subsection \<open>Facts about the retry loop\<close>

lemma uniform0_bounds:
  assumes "wf_float b" "Fin 0 \<le> b" "is_finite b" "Fin 0 \<le> r" "r \<le> Fin 1"
  shows "Fin 0 \<le> uniform0 b r \<and> uniform0 b r \<le> b \<and> is_finite (uniform0 b r)"
proof -
  have b: "b - Fin 0 = b" using assms(1) by (cases b) (auto simp: minus_pyfloat_def)
  have m: "Fin 0 \<le> b * r \<and> b * r \<le> b" using assms by (rule float_mult_unit)
  have w: "wf_float (b * r)" by simp
  have u: "uniform0 b r = (if b * r = NegZero then Fin 0 else b * r)"
    using float_add_zero [OF w] by (simp add: uniform0_def b float_add_commute)
  have "b * r \<noteq> NaN \<and> b * r \<noteq> PosInf \<and> b * r \<noteq> NegInf"
    using m assms(3) by (cases b; cases "b * r") (auto simp: is_finite_def less_eq_pyfloat_def)
  then show ?thesis using m assms(2) u by (cases "b * r") (auto simp: is_finite_def)
qed

lemma float_mult_pos:
  assumes "Fin 0 \<le> b" "is_finite b" "0 < p"
  shows "Fin 0 \<le> b * Fin p"
proof -
  have "0 \<le> fval b" using assms by (cases b) (auto simp: is_finite_def)
  with assms have f: "Fin 0 \<le> fl (fval b * p)" by (intro fl_nonneg) simp
  have "Fin 0 \<le> signed_zero z" for z by (simp add: signed_zero_def less_eq_pyfloat_def)
  with f assms show ?thesis
    by (cases b) (auto simp: times_pyfloat_def Let_def is_finite_def)
qed

lemma backoff_delay_bounds:
  assumes "wf_float (base_delay_seconds cfg)" "Fin 0 \<le> base_delay_seconds cfg"
    and "is_finite (base_delay_seconds cfg)" "is_finite (max_delay_seconds cfg)"
    and "Fin 0 \<le> max_delay_seconds cfg" "Fin 0 \<le> r" "r \<le> Fin 1" "attempt \<le> 1024"
    and d: "backoff_delay cfg attempt r = Inr d"
  shows "Fin 0 \<le> d \<and> d \<le> max_delay_seconds cfg + base_delay_seconds cfg"
proof -
  let ?b = "base_delay_seconds cfg" and ?m = "max_delay_seconds cfg"
  let ?x = "?b * Fin (2 ^ nat (attempt - 1))"
  have dd: "d = py_min ?m ?x + uniform0 ?b r"
    using d assms(8) float_of_pow2 [of "nat (attempt - 1)"] by (auto simp: backoff_delay_def)
  have u: "Fin 0 \<le> uniform0 ?b r \<and> uniform0 ?b r \<le> ?b \<and> is_finite (uniform0 ?b r)"
    using assms by (intro uniform0_bounds)
  have x: "Fin 0 \<le> ?x" using assms by (intro float_mult_pos) auto
  have m: "Fin 0 \<le> py_min ?m ?x" "py_min ?m ?x \<le> ?m"
    using x assms(4,5) float_le_not_nan [OF assms(5)] by (auto simp: py_min_def float_less_imp_le)
  moreover have "is_finite (py_min ?m ?x)"
    using m assms(4) by (cases ?m; cases "py_min ?m ?x") (auto simp: is_finite_def less_eq_pyfloat_def)
  ultimately show ?thesis
    using u assms by (auto simp: dd intro: float_add_nonneg float_add_mono)
qed


text \<open>
  C31: every pause of \<open>retry_async\<close> lies between zero and the delay cap plus one base delay
  (the jitter), and there are fewer pauses than attempts, whatever the random draws in
  \<open>[0, 1]\<close> and whatever the called service does.
\<close>

theorem retry_async_delays:
  assumes "1 \<le> attempts cfg" and "attempts cfg \<le> 1025"
    and "wf_float (base_delay_seconds cfg)" "is_finite (base_delay_seconds cfg)"
    and "Fin 0 \<le> base_delay_seconds cfg"
    and "is_finite (max_delay_seconds cfg)" "Fin 0 \<le> max_delay_seconds cfg"
    and "\<And>k. Fin 0 \<le> rand k \<and> rand k \<le> Fin 1"
  shows "list_all (\<lambda>d. Fin 0 \<le> d \<and> d \<le> max_delay_seconds cfg + base_delay_seconds cfg)
           (slept (fst (snd (retry_async cfg func rand s))))
         \<and> int (length (slept (fst (snd (retry_async cfg func rand s))))) < attempts cfg"
proof -
  let ?P = "\<lambda>d. Fin 0 \<le> d \<and> d \<le> max_delay_seconds cfg + base_delay_seconds cfg"
  have P: "?P d" if "1 \<le> k" "k < attempts cfg" "backoff_delay cfg k (rand k) = Inr d" for k d
    using that assms by (intro backoff_delay_bounds [of cfg "rand k" k]) auto
  have "\<exists>evs. retry_loop cfg func rand 1 None s
      = (fst (first_conclusive (retryable cfg) (call_outcomes (Suc (nat (attempts cfg - 1))) func s)), evs,
         snd (first_conclusive (retryable cfg) (call_outcomes (Suc (nat (attempts cfg - 1))) func s)))
      \<and> (\<forall>d\<in>set (slept evs). ?P d) \<and> length (slept evs) \<le> nat (attempts cfg - 1)"
    using assms(1,2) P by (intro retry_loop_run) auto
  then show ?thesis using assms(1) by (auto simp: retry_async_def list_all_iff)
qed

text \<open>A service that fails once and then answers with the number of the call.\<close>

definition flaky :: "nat \<Rightarrow> nat outcome \<times> nat" where
  "flaky n = (if n = 0 then Inl (RequestError ''refused'') else Inr n, Suc n)"

definition flaky_config :: retry_config where
  "flaky_config =
     \<lparr>attempts = 3, base_delay_seconds = Fin 1, max_delay_seconds = Fin 5,
      retryable = is_HTTPError, op_name = ''flaky''\<rparr>"


theorem retry_async_delays_witness:
  "list_all (\<lambda>d. Fin 0 \<le> d \<and> d \<le> Fin 5 + Fin 1)
     (slept (fst (snd (retry_async flaky_config flaky (\<lambda>_. Fin (1 / 2)) 0))))
   \<and> int (length (slept (fst (snd (retry_async flaky_config flaky (\<lambda>_. Fin (1 / 2)) 0))))) < 3"
proof -
  have "wf_float (Fin 1)" using fl_of_int_exact [of 1] by simp
  then show ?thesis
    using retry_async_delays [of flaky_config "\<lambda>_. Fin (1 / 2)" flaky 0]
    by (simp add: flaky_config_def is_finite_def)
qed

lemma retry_async_rejects:
  "attempts cfg < 1 \<Longrightarrow>
   retry_async cfg func rand s = (Inl (ValueError ''attempts must be >= 1''), [], s)"
  by (simp add: retry_async_def)

subsection \<open>Facts about the counters\<close>

text \<open>
  What the middleware needs of a recorder, and what follows for a whole list of requests given
  as pairs of a duration and an error flag.
\<close>

locale request_recorder =
  fixes rec :: "'d \<Rightarrow> bool \<Rightarrow> 'm \<Rightarrow> 'm"
    and requests :: "'m \<Rightarrow> int"
    and errors :: "'m \<Rightarrow> int"
  assumes rec_requests: "requests (rec d e m) = requests m + 1"
    and rec_errors: "errors (rec d e m) = errors m + (if e then 1 else 0)"
begin

lemma fold_requests:
  "requests (fold (\<lambda>(d, e). rec d e) reqs m) = requests m + int (length reqs)"
  by (induction reqs arbitrary: m) (auto simp: rec_requests)

lemma fold_errors:
  "errors (fold (\<lambda>(d, e). rec d e) reqs m) = errors m + int (length (filter snd reqs))"
  by (induction reqs arbitrary: m) (auto simp: rec_errors)

lemma rec_errors_le: "errors m \<le> requests m \<Longrightarrow> errors (rec d e m) \<le> requests (rec d e m)"
  by (simp add: rec_requests rec_errors)

end

interpretation metrics: request_recorder record_request request_count error_count
  by unfold_locales (auto simp: record_request_def Let_def)

lemma record_request_service [simp]: "service (record_request d e m) = service m"
  by (simp add: record_request_def Let_def)

lemma record_request_started [simp]: "started_at (record_request d e m) = started_at m"
  by (simp add: record_request_def Let_def)

lemma record_request_latency [simp]:
  "total_latency_ms (record_request d e m) = total_latency_ms m + d"
  by (simp add: record_request_def Let_def)

lemma fold_latency:
  "total_latency_ms (fold (\<lambda>(d, e). record_request d e) reqs m) = foldl (+) (total_latency_ms m) (map fst reqs)"
  by (induction reqs arbitrary: m) auto

lemma fold_service:
  "service (fold (\<lambda>(d, e). record_request d e) reqs m) = service m"
  by (induction reqs arbitrary: m) auto

text \<open>
  After any sequence of recorded requests, \<open>MetricsState\<close> holds exactly their number, the
  number flagged as errors and the float sum of their durations in order.
\<close>

theorem metrics_record_log:
  "request_count (fold (\<lambda>(d, e). record_request d e) reqs (MetricsState name now)) = int (length reqs)
   \<and> error_count (fold (\<lambda>(d, e). record_request d e) reqs (MetricsState name now))
       = int (length (filter snd reqs))
   \<and> total_latency_ms (fold (\<lambda>(d, e). record_request d e) reqs (MetricsState name now))
       = py_sum (map fst reqs)"
  by (simp add: metrics.fold_requests metrics.fold_errors fold_latency py_sum_def MetricsState_def)

lemma foldl_plus_nonneg:
  "Fin 0 \<le> a \<Longrightarrow> \<forall>x\<in>set xs. Fin 0 \<le> x \<Longrightarrow> Fin 0 \<le> foldl (+) (a::pyfloat) xs"
  by (induction xs arbitrary: a) (auto intro: float_add_nonneg)

lemma py_sum_nonneg: "\<forall>x\<in>set xs. Fin 0 \<le> x \<Longrightarrow> Fin 0 \<le> py_sum xs"
  by (simp add: py_sum_def foldl_plus_nonneg)

lemma py_div_nonneg:
  assumes "Fin 0 \<le> x" "0 < q"
  shows "\<exists>z. py_div x (Fin q) = Inr z \<and> Fin 0 \<le> z"
  using assms(1)
proof (cases rule: float_nonneg_cases)
  case 1
  then show ?thesis using assms(2) by (auto simp: py_div_def signed_inf_def less_eq_pyfloat_def)
next
  case 2
  then show ?thesis using assms(2) by (auto simp: py_div_def signed_zero_def less_eq_pyfloat_def)
next
  case (3 r)
  then show ?thesis using assms(2)
    by (auto simp: py_div_def signed_zero_def intro: fl_nonneg)
qed

lemma avg_latency_total:
  assumes "list_all (\<lambda>(d, e). Fin 0 \<le> d) reqs" and "int (length reqs) \<le> 2 ^ 53"
  shows "\<exists>a. avg_latency_ms (fold (\<lambda>(d, e). record_request d e) reqs (MetricsState name now)) = Inr a
             \<and> Fin 0 \<le> a"
proof (cases "reqs = []")
  case True
  then show ?thesis by (simp add: avg_latency_ms_def MetricsState_def)
next
  case False
  let ?m = "fold (\<lambda>(d, e). record_request d e) reqs (MetricsState name now)"
  have nn: "\<forall>x\<in>set (map fst reqs). Fin 0 \<le> x" using assms(1) by (auto simp: list_all_iff)
  have c: "request_count ?m = int (length reqs)" and t: "Fin 0 \<le> total_latency_ms ?m"
    using nn by (auto simp: metrics.fold_requests fold_latency MetricsState_def intro!: foldl_plus_nonneg)
  have "float_of_int (request_count ?m) = Inr (Fin (of_int (int (length reqs))))"
    using fl_of_int_exact [of "int (length reqs)"] assms(2) by (simp add: c float_of_int_def)
  then show ?thesis
    using False c py_div_nonneg [OF t, of "of_int (int (length reqs))"] by (simp add: avg_latency_ms_def)
qed

text \<open>
  The average latency of a service that has recorded non-negative durations is always
  defined and non-negative: the guard on the request count excludes the division by zero.
\<close>

theorem avg_latency_defined:
  assumes "list_all (\<lambda>(d, e). Fin 0 \<le> d) reqs" and "int (length reqs) \<le> 2 ^ 53"
  shows "\<exists>a. avg_latency_ms (fold (\<lambda>(d, e). record_request d e) reqs (MetricsState name now)) = Inr a
             \<and> Fin 0 \<le> a"
  using assms by (rule avg_latency_total)

theorem avg_latency_defined_witness:
  "\<exists>a. avg_latency_ms (fold (\<lambda>(d, e). record_request d e) [(Fin 10, False), (Fin 20, True)]
          (MetricsState ''svc'' (Fin 0))) = Inr a \<and> Fin 0 \<le> a"
  by (rule avg_latency_defined) simp_all

end
