(* ===== verification/Calendar.thy ===== *)
theory Calendar
  imports PyText
begin

text \<open>
  The calendar of the standard libraries: what \<open>datetime.isoformat()\<close> of Python and
  \<open>gmtime_r\<close> with \<open>std::put_time\<close> of C++ make of a count of days and seconds since 1970, in
  the proleptic Gregorian calendar and for instants not before 1970. \<open>civil_date\<close> counts years and
  months off; \<open>day_number\<close> is its inverse.
\<close>

subsection \<open>Years and months\<close>

definition leap_year :: "nat \<Rightarrow> bool" where
  "leap_year y = (y mod 4 = 0 \<and> (y mod 100 \<noteq> 0 \<or> y mod 400 = 0))"

definition days_in_year :: "nat \<Rightarrow> nat" where
  "days_in_year y = (if leap_year y then 366 else 365)"

definition month_lengths :: "nat \<Rightarrow> nat list" where
  "month_lengths y = [31, if leap_year y then 29 else 28, 31, 30, 31, 30, 31, 31, 30, 31, 30, 31]"

lemma days_in_year_pos: "0 < days_in_year y"
  by (simp add: days_in_year_def)

lemma sum_month_lengths: "sum_list (month_lengths y) = days_in_year y"
  by (simp add: month_lengths_def days_in_year_def)

function year_of_day :: "nat \<Rightarrow> nat \<Rightarrow> nat \<times> nat" where
  "year_of_day y n = (if n < days_in_year y then (y, n) else year_of_day (Suc y) (n - days_in_year y))"
  by pat_completeness auto
termination
proof (relation "measure snd")
  fix y n
  assume "\<not> n < days_in_year y"
  with days_in_year_pos [of y] have "n - days_in_year y < n" by linarith
  then show "((Suc y, n - days_in_year y), (y, n)) \<in> measure snd" by simp
qed simp

declare year_of_day.simps [simp del]

fun month_of_day :: "nat list \<Rightarrow> nat \<Rightarrow> nat \<Rightarrow> nat \<times> nat" where
  "month_of_day [] m n = (m, n)"
| "month_of_day (l # ls) m n = (if n < l then (m, n) else month_of_day ls (Suc m) (n - l))"

text \<open>Year, month (from 1) and day (from 1) of the \<open>n\<close>-th day after the first of January 1970.\<close>

definition civil_date :: "nat \<Rightarrow> nat \<times> nat \<times> nat" where
  "civil_date n =
     (let (y, k) = year_of_day 1970 n; (m, d) = month_of_day (month_lengths y) 1 k in (y, m, Suc d))"

definition valid_date :: "nat \<times> nat \<times> nat \<Rightarrow> bool" where
  "valid_date = (\<lambda>(y, m, d). 1970 \<le> y \<and> 1 \<le> m \<and> m \<le> 12 \<and> 1 \<le> d \<and> d \<le> month_lengths y ! (m - 1))"

definition day_number :: "nat \<times> nat \<times> nat \<Rightarrow> nat" where
  "day_number = (\<lambda>(y, m, d). (\<Sum>k\<leftarrow>[1970..<y]. days_in_year k) + sum_list (take (m - 1) (month_lengths y)) + (d - 1))"

lemma year_of_day_spec:
  assumes "year_of_day y n = (z, k)"
  shows "y \<le> z \<and> k < days_in_year z \<and> n = (\<Sum>i\<leftarrow>[y..<z]. days_in_year i) + k"
  using assms
proof (induction y n rule: year_of_day.induct)
  case (1 y n)
  show ?case
  proof (cases "n < days_in_year y")
    case True
    with 1(2) show ?thesis by (simp add: year_of_day.simps [of y])
  next
    case False
    with 1(2) have "year_of_day (Suc y) (n - days_in_year y) = (z, k)" by (simp add: year_of_day.simps [of y])
    from 1(1) [OF False this] False show ?thesis by (auto simp: upt_conv_Cons)
  qed
qed

lemma month_of_day_spec:
  assumes "month_of_day ls m n = (p, k)" and "n < sum_list ls"
  shows "m \<le> p \<and> p < m + length ls \<and> k < ls ! (p - m) \<and> n = sum_list (take (p - m) ls) + k"
  using assms
proof (induction ls m n rule: month_of_day.induct)
  case (2 l ls m n)
  show ?case
  proof (cases "n < l")
    case True
    with 2(2) show ?thesis by auto
  next
    case False
    with 2 have IH: "Suc m \<le> p \<and> p < Suc m + length ls \<and> k < ls ! (p - Suc m) \<and>
        n - l = sum_list (take (p - Suc m) ls) + k" by simp
    then have "p = Suc (m + (p - Suc m))" by simp
    then obtain q where "p = Suc (m + q)" by blast
    with IH False show ?thesis by auto
  qed
qed simp

lemma civil_date_spec: "valid_date (civil_date n) \<and> day_number (civil_date n) = n"
proof -
  obtain y k where y: "year_of_day 1970 n = (y, k)" by fastforce
  obtain m d where m: "month_of_day (month_lengths y) 1 k = (m, d)" by fastforce
  note Y = year_of_day_spec [OF y]
  with month_of_day_spec [OF m] have M: "1 \<le> m \<and> m < 1 + length (month_lengths y) \<and> d < month_lengths y ! (m - 1)
      \<and> k = sum_list (take (m - 1) (month_lengths y)) + d" by (simp add: sum_month_lengths)
  moreover have "length (month_lengths y) = 12" by (simp add: month_lengths_def)
  ultimately show ?thesis using Y y m by (auto simp: civil_date_def valid_date_def day_number_def)
qed

subsection \<open>Digits of a fixed width\<close>

fun pad :: "nat \<Rightarrow> nat \<Rightarrow> string" where
  "pad 0 n = []"
| "pad (Suc w) n = pad w (n div 10) @ [digit_char (n mod 10)]"

lemma length_pad [simp]: "length (pad w n) = w"
  by (induction w arbitrary: n) auto

lemma pad_digits: "list_all is_digit (pad w n)"
  by (induction w arbitrary: n) (auto simp: is_digit_iff of_char_digit_char)

lemma digits_value_pad: "n < 10 ^ w \<Longrightarrow> digits_value 0 (pad w n) = int n"
proof (induction w arbitrary: n)
  case (Suc w)
  then have "n div 10 < 10 ^ w" by (simp add: div_less_iff_less_mult mult.commute)
  moreover have "digit_value (digit_char (n mod 10)) = int (n mod 10)" by simp
  ultimately show ?case using Suc.IH [of "n div 10"]
    by (simp add: digits_value_append zmod_int zdiv_int del: of_nat_mod of_nat_div)
qed simp

subsection \<open>Time stamps\<close>

text \<open>The date and the time of day of a count of seconds since 1970, as ISO 8601 text.\<close>

definition date_text :: "nat \<times> nat \<times> nat \<Rightarrow> string" where
  "date_text = (\<lambda>(y, m, d). pad 4 y @ ''-'' @ pad 2 m @ ''-'' @ pad 2 d)"

definition time_text :: "nat \<Rightarrow> string" where
  "time_text s = pad 2 (s div 3600) @ '':'' @ pad 2 (s div 60 mod 60) @ '':'' @ pad 2 (s mod 60)"

definition iso_seconds :: "nat \<Rightarrow> string" where
  "iso_seconds s = date_text (civil_date (s div 86400)) @ ''T'' @ time_text (s mod 86400)"

text \<open>The instants whose year has four digits.\<close>

definition four_digit_year :: "nat \<Rightarrow> bool" where
  "four_digit_year s = (fst (civil_date (s div 86400)) < 10000)"

text \<open>Reading a stamp, and a fraction of \<open>w\<close> digits after it, by position.\<close>

definition number_at :: "nat \<Rightarrow> nat \<Rightarrow> string \<Rightarrow> nat" where
  "number_at i w s = nat (digits_value 0 (take w (drop i s)))"

definition read_seconds :: "string \<Rightarrow> nat" where
  "read_seconds s =
     day_number (number_at 0 4 s, number_at 5 2 s, number_at 8 2 s) * 86400
     + number_at 11 2 s * 3600 + number_at 14 2 s * 60 + number_at 17 2 s"

lemma number_at_pad: "n < 10 ^ w \<Longrightarrow> length a = i \<Longrightarrow> number_at i w (a @ pad w n @ b) = n"
  by (simp add: number_at_def digits_value_pad)

lemma length_iso_seconds: "length (iso_seconds s) = 19"
  by (simp add: iso_seconds_def date_text_def time_text_def split: prod.splits)

lemma iso_seconds_chars: "c \<in> set (iso_seconds s) \<Longrightarrow> is_digit c \<or> c \<in> {CHR ''-'', CHR '':'', CHR ''T''}"
proof -
  have "c \<in> set (pad w n) \<Longrightarrow> is_digit c" for w n using pad_digits [of w n] by (auto simp: list_all_iff)
  then show "c \<in> set (iso_seconds s) \<Longrightarrow> is_digit c \<or> c \<in> {CHR ''-'', CHR '':'', CHR ''T''}"
    by (auto simp: iso_seconds_def date_text_def time_text_def split: prod.splits)
qed

lemma month_length_le: "m < 12 \<Longrightarrow> month_lengths y ! m \<le> 31"
proof -
  have "list_all (\<lambda>l. l \<le> 31) (month_lengths y)" by (simp add: month_lengths_def)
  moreover have "length (month_lengths y) = 12" by (simp add: month_lengths_def)
  ultimately show "m < 12 \<Longrightarrow> month_lengths y ! m \<le> 31" by (simp add: list_all_length)
qed

lemma clock_parts: "t = t div 3600 * 3600 + t div 60 mod 60 * 60 + t mod 60" for t :: nat
proof -
  have "t div 3600 = t div 60 div 60" by (simp add: div_mult2_eq [symmetric])
  then show ?thesis using div_mult_mod_eq [of t 60] div_mult_mod_eq [of "t div 60" 60] by linarith
qed

lemma read_iso_seconds:
  assumes "four_digit_year s"
  shows "read_seconds (iso_seconds s @ r) = s"
proof -
  obtain y m d where c: "civil_date (s div 86400) = (y, m, d)" by (cases "civil_date (s div 86400)") auto
  have y: "y < 10 ^ 4" using assms c by (simp add: four_digit_year_def)
  have "valid_date (y, m, d)" and n: "day_number (y, m, d) = s div 86400"
    using civil_date_spec [of "s div 86400"] c by simp_all
  then have "m \<le> 12" and "d \<le> month_lengths y ! (m - 1)" by (simp_all add: valid_date_def)
  moreover from this have "month_lengths y ! (m - 1) \<le> 31" by (intro month_length_le) simp
  ultimately have m: "m < 10 ^ 2" and d: "d < 10 ^ 2" by simp_all
  let ?t = "s mod 86400"
  have t: "?t div 3600 < 10 ^ 2" "?t div 60 mod 60 < 10 ^ 2" "?t mod 60 < 10 ^ 2"
    by (simp_all add: div_less_iff_less_mult)
  have "s div 86400 * 86400 + ?t div 3600 * 3600 + ?t div 60 mod 60 * 60 + ?t mod 60 = s div 86400 * 86400 + ?t"
    using clock_parts [of ?t] by linarith
  moreover have "number_at 0 4 (iso_seconds s @ r) = y"
    using number_at_pad [OF y, of "[]" 0] by (simp add: iso_seconds_def date_text_def c)
  moreover have "number_at 5 2 (iso_seconds s @ r) = m"
    using number_at_pad [OF m, of "pad 4 y @ ''-''" 5] by (simp add: iso_seconds_def date_text_def c)
  moreover have "number_at 8 2 (iso_seconds s @ r) = d"
    using number_at_pad [OF d, of "pad 4 y @ ''-'' @ pad 2 m @ ''-''" 8] by (simp add: iso_seconds_def date_text_def c)
  moreover have "number_at 11 2 (iso_seconds s @ r) = ?t div 3600"
    using number_at_pad [OF t(1), of "date_text (y, m, d) @ ''T''" 11]
    by (simp add: iso_seconds_def date_text_def time_text_def c)
  moreover have "number_at 14 2 (iso_seconds s @ r) = ?t div 60 mod 60"
    using number_at_pad [OF t(2), of "date_text (y, m, d) @ ''T'' @ pad 2 (?t div 3600) @ '':''" 14]
    by (simp add: iso_seconds_def date_text_def time_text_def c)
  moreover have "number_at 17 2 (iso_seconds s @ r) = ?t mod 60"
    using number_at_pad [OF t(3), of "date_text (y, m, d) @ ''T'' @ pad 2 (?t div 3600) @ '':'' @ pad 2 (?t div 60 mod 60) @ '':''" 17]
    by (simp add: iso_seconds_def date_text_def time_text_def c)
  ultimately have "read_seconds (iso_seconds s @ r) = s div 86400 * 86400 + ?t"
    using n by (simp only: read_seconds_def)
  then show ?thesis by simp
qed

end
