(* ===== verification/Models.thy ===== *)
theory Models
  imports Utils Calendar
begin

text \<open>
  \<^verbatim>\<open>shared/models.py\<close>: the wire format. Every Pydantic model is a record with the
  source's fields and, where the source gives defaults, a constructor that fills them in; the
  constraints declared on the fields are a boolean predicate \<open>valid_\<dots>\<close>. JSON values are a
  datatype whose objects keep the order of their keys, as Python's dictionaries do.

  \<open>datetime\<close> is Python's aware UTC time stamp in microseconds, an instance of the library's
  \<open>linorder\<close>, so that event histories can be sorted by it.
\<close>

subsection \<open>Time stamps\<close>

datatype datetime = Datetime (micros: int)

instantiation datetime :: linorder
begin

definition less_eq_datetime :: "datetime \<Rightarrow> datetime \<Rightarrow> bool" where
  "less_eq_datetime a b = (micros a \<le> micros b)"

definition less_datetime :: "datetime \<Rightarrow> datetime \<Rightarrow> bool" where
  "less_datetime a b = (micros a < micros b)"

instance
  by standard (auto simp: less_eq_datetime_def less_datetime_def datetime.expand)

end

text \<open>\<open>isoformat()\<close>: the fraction is left out when it is zero.\<close>

definition isoformat :: "datetime \<Rightarrow> string" where
  "isoformat t =
     (let us = nat (micros t); f = us mod 1000000
      in iso_seconds (us div 1000000) @ (if f = 0 then [] else ''.'' @ pad 6 f) @ ''+00:00'')"

subsection \<open>JSON values\<close>

datatype json =
    JNull
  | JBool bool
  | JInt int
  | JFloat pyfloat
  | JStr string
  | JList "json list"
  | JObj "(string \<times> json) list"

text \<open>\<open>data[k]\<close> on a decoded JSON value, and \<open>float(v)\<close> of one, with Python's errors.\<close>

definition json_item :: "string \<Rightarrow> json \<Rightarrow> json outcome" where
  "json_item k v =
     (case v of
        JObj kvs \<Rightarrow> (case map_of kvs k of None \<Rightarrow> Inl (KeyError k) | Some x \<Rightarrow> Inr x)
      | _ \<Rightarrow> Inl (TypeError ''not subscriptable by a string''))"

definition json_to_float :: "json \<Rightarrow> pyfloat outcome" where
  "json_to_float v =
     (case v of
        JFloat x \<Rightarrow> Inr x
      | JInt n \<Rightarrow> float_of_int n
      | JBool b \<Rightarrow> Inr (Fin (if b then 1 else 0))
      | JStr s \<Rightarrow> py_float s
      | _ \<Rightarrow> Inl (TypeError ''float() argument must be a string or a real number''))"

subsection \<open>Health and metrics\<close>

record health_status =
  hs_status :: string
  hs_service :: string
  hs_timestamp :: datetime

definition HealthStatus :: "string \<Rightarrow> datetime \<Rightarrow> health_status" where
  "HealthStatus svc now = \<lparr>hs_status = ''ok'', hs_service = svc, hs_timestamp = now\<rparr>"

record service_metrics =
  sm_service :: string
  sm_request_count :: int
  sm_error_count :: int
  sm_avg_latency_ms :: pyfloat
  sm_uptime_seconds :: pyfloat
  sm_extra :: "(string \<times> json) list"

subsection \<open>The compute pipeline\<close>

record process_request =
  items :: "pyfloat list"
  operation :: string

definition default_operation :: string where
  "default_operation = ''sum''"

definition valid_process_request :: "process_request \<Rightarrow> bool" where
  "valid_process_request r = (1 \<le> length (items r))"

record process_response =
  pr_operation :: string
  pr_result :: pyfloat
  pr_items_processed :: int
  pr_fanout_results :: "pyfloat list"
  pr_cpp_result :: "pyfloat option"
  pr_duration_ms :: pyfloat

record store_record =
  sr_key :: string
  sr_value :: pyfloat

subsection \<open>Fault injection\<close>

datatype fault_kind = KILL | LATENCY | ERROR

fun fault_kind_value :: "fault_kind \<Rightarrow> string" where
  "fault_kind_value KILL = ''kill''"
| "fault_kind_value LATENCY = ''latency''"
| "fault_kind_value ERROR = ''error''"

text \<open>\<open>FaultKind(text)\<close> looks a member up by its value.\<close>

definition FaultKind :: "string \<Rightarrow> fault_kind outcome" where
  "FaultKind v =
     (if v = ''kill'' then Inr KILL
      else if v = ''latency'' then Inr LATENCY
      else if v = ''error'' then Inr ERROR
      else Inl (ValueError ''not a valid FaultKind''))"

record fault_request =
  fr_target :: string
  fr_duration_ms :: int
  fr_error_rate :: pyfloat

definition default_fault_request :: "string \<Rightarrow> fault_request" where
  "default_fault_request t = \<lparr>fr_target = t, fr_duration_ms = 2000, fr_error_rate = Fin 1\<rparr>"

definition valid_fault_request :: "fault_request \<Rightarrow> bool" where
  "valid_fault_request r =
     (0 \<le> fr_duration_ms r \<and> fr_duration_ms r \<le> 60000 \<and>
      Fin 0 \<le> fr_error_rate r \<and> fr_error_rate r \<le> Fin 1)"

record fault_response =
  fp_kind :: fault_kind
  fp_target :: string
  fp_accepted :: bool
  fp_detail :: string
  fp_timestamp :: datetime

subsection \<open>Recovery events\<close>

record recovery_event =
  ev_service :: string
  detected_at :: datetime
  recovered_at :: "datetime option"
  duration_seconds :: "pyfloat option"
  action :: string
  success :: bool

lemma FaultKind_value: "FaultKind (fault_kind_value k) = Inr k"
  by (cases k) (auto simp: FaultKind_def)

lemma json_to_float_not_http: "json_to_float v = Inl e \<Longrightarrow> \<not> is_HTTPError e"
  by (auto simp: json_to_float_def float_of_int_def Let_def dest!: py_float_errors
      split: json.splits if_splits) (metis is_HTTPError.elims(2) is_ValueError.simps)

lemma json_item_not_http: "json_item k v = Inl e \<Longrightarrow> \<not> is_HTTPError e"
  by (auto simp: json_item_def split: json.splits option.splits)

end
