(* ===== verification/Http.thy ===== *)
theory Http
  imports Models
begin

text \<open>
  The HTTP client as the repository uses it. httpx is not part of the repository: what
  \<open>client.get\<close> and \<open>client.post\<close> return, what \<open>raise_for_status\<close> does with a response
  and what \<open>response.json()\<close> decodes are parameters of the operations that call them.
  \<open>raises_on_error\<close> is the documented behaviour of \<open>raise_for_status\<close>, a hypothesis of
  the theorems that need it.

  \<open>get_checked\<close> is the \<open>get\<close>-then-\<open>raise_for_status\<close> idiom every prober uses;
  \<open>asyncio.gather\<close> over outcomes in the order of its arguments is \<open>results\<close> of the
  prelude.
\<close>

record http_response =
  status_code :: nat
  body :: "json outcome"

type_synonym raise_for_status = "http_response \<Rightarrow> unit outcome"

definition is_success :: "nat \<Rightarrow> bool" where
  "is_success st = (200 \<le> st \<and> st \<le> 299)"

definition raises_on_error :: "raise_for_status \<Rightarrow> bool" where
  "raises_on_error rfs =
     (\<forall>r. if is_success (status_code r) then rfs r = Inr ()
          else \<exists>msg. rfs r = Inl (HTTPStatusError (status_code r) msg))"

text \<open>A concrete \<open>raise_for_status\<close>, for evaluating the model on examples.\<close>

definition plain_rfs :: raise_for_status where
  "plain_rfs r =
     (if is_success (status_code r) then Inr ()
      else Inl (HTTPStatusError (status_code r) ''HTTP error''))"

lemma plain_rfs_raises: "raises_on_error plain_rfs"
  by (simp add: raises_on_error_def plain_rfs_def)

lemma raises_on_error_Inr: "raises_on_error rfs \<Longrightarrow> rfs r = Inr u \<longleftrightarrow> is_success (status_code r)"
  unfolding raises_on_error_def by (metis (full_types) Inl_Inr_False old.unit.exhaust)

lemma raises_on_error_Inl:
  "raises_on_error rfs \<Longrightarrow> rfs r = Inl e \<Longrightarrow> is_HTTPError e \<and> \<not> is_success (status_code r)"
  unfolding raises_on_error_def by (metis Inl_Inr_False is_HTTPError.simps(1) sum.inject(1))

definition get_checked :: "raise_for_status \<Rightarrow> http_response outcome \<Rightarrow> http_response outcome" where
  "get_checked rfs r = and_then r (\<lambda>resp. map_outcome (\<lambda>_. resp) (rfs resp))"

lemma get_checked_Inr:
  "raises_on_error rfs \<Longrightarrow>
   get_checked rfs r = Inr resp \<longleftrightarrow> r = Inr resp \<and> is_success (status_code resp)"
  by (cases r) (auto simp: get_checked_def outcome_simps raises_on_error_Inr)

lemma get_checked_Inl:
  "get_checked rfs r = Inl e \<longleftrightarrow> r = Inl e \<or> (\<exists>resp. r = Inr resp \<and> rfs resp = Inl e)"
  by (cases r) (auto simp: get_checked_def outcome_simps)

end
