(* ===== verification/Interfaces.thy ===== *)
theory Interfaces
  imports Http
begin

text \<open>
  Interfaces several components share.

  \<open>lock_section\<close> is \<open>async with lock: body\<close> where the body does not await: it cannot start
  while the lock is held (\<open>None\<close>), and releases the lock at its end. The locale \<open>mutex\<close> is
  a state with such a lock field; the stores of service-b and of the fault injector
  interpret it.

  The locale \<open>simulation\<close> relates an operation of a component to the operation of its
  abstract specification; runs of operations then agree too. The key-value store, the fault
  state and the recovery watcher interpret it.
\<close>

subsection \<open>Locks\<close>

definition lock_section ::
  "('s \<Rightarrow> bool) \<Rightarrow> (bool \<Rightarrow> 's \<Rightarrow> 's) \<Rightarrow> ('s \<Rightarrow> 'a \<times> 's) \<Rightarrow> 's \<Rightarrow> ('a \<times> 's) option" where
  "lock_section held set_held sect s =
     (if held s then None
      else let (r, s') = sect (set_held True s) in Some (r, set_held False s'))"

locale mutex =
  fixes held :: "'s \<Rightarrow> bool" and set_held :: "bool \<Rightarrow> 's \<Rightarrow> 's"
  assumes held_set: "held (set_held b s) = b"
begin

lemma section_runs: "\<not> held s \<Longrightarrow> \<exists>r s'. lock_section held set_held sect s = Some (r, s')"
  by (simp add: lock_section_def split: prod.splits)

lemma section_blocks: "held s \<Longrightarrow> lock_section held set_held sect s = None"
  by (simp add: lock_section_def)

lemma section_releases: "lock_section held set_held sect s = Some (r, s') \<Longrightarrow> \<not> held s \<and> \<not> held s'"
  by (auto simp: lock_section_def held_set split: if_splits prod.splits)

lemma section_result:
  "\<not> held s \<Longrightarrow> sect (set_held True s) = (r, s') \<Longrightarrow>
   lock_section held set_held sect s = Some (r, set_held False s')"
  by (simp add: lock_section_def)

end

subsection \<open>Simulation\<close>

fun run_ops :: "('op \<Rightarrow> 's \<Rightarrow> 'r \<times> 's) \<Rightarrow> 'op list \<Rightarrow> 's \<Rightarrow> 'r list \<times> 's" where
  "run_ops step [] s = ([], s)"
| "run_ops step (x # xs) s =
     (let (r, s') = step x s; (rs, s'') = run_ops step xs s' in (r # rs, s''))"

lemma run_ops_Cons:
  "run_ops step (x # xs) s =
     (fst (step x s) # fst (run_ops step xs (snd (step x s))), snd (run_ops step xs (snd (step x s))))"
  by (simp split: prod.splits)

lemma length_run_ops: "length (fst (run_ops step xs s)) = length xs"
  by (induction xs arbitrary: s) (simp_all add: run_ops_Cons del: run_ops.simps(2))

lemma run_ops_append:
  "run_ops step (xs @ ys) s =
     (fst (run_ops step xs s) @ fst (run_ops step ys (snd (run_ops step xs s))),
      snd (run_ops step ys (snd (run_ops step xs s))))"
  by (induction xs arbitrary: s) (simp_all add: run_ops_Cons del: run_ops.simps(2))

locale simulation =
  fixes cstep :: "'op \<Rightarrow> 'c \<Rightarrow> 'r \<times> 'c"
    and astep :: "'op \<Rightarrow> 'a \<Rightarrow> 'r \<times> 'a"
    and abs :: "'c \<Rightarrow> 'a"
    and inv :: "'c \<Rightarrow> bool"
    and valid :: "'op \<Rightarrow> bool"
  assumes step_inv: "inv c \<Longrightarrow> valid x \<Longrightarrow> inv (snd (cstep x c))"
    and step_abs: "inv c \<Longrightarrow> valid x \<Longrightarrow> astep x (abs c) = (fst (cstep x c), abs (snd (cstep x c)))"
begin

lemma run_inv: "inv c \<Longrightarrow> list_all valid xs \<Longrightarrow> inv (snd (run_ops cstep xs c))"
proof (induction xs arbitrary: c)
  case (Cons x xs)
  from Cons.prems have "inv (snd (cstep x c))" by (intro step_inv) auto
  with Cons show ?case by (simp add: run_ops_Cons del: run_ops.simps(2))
qed simp

lemma run_abs:
  "inv c \<Longrightarrow> list_all valid xs \<Longrightarrow>
   run_ops astep xs (abs c) = (fst (run_ops cstep xs c), abs (snd (run_ops cstep xs c)))"
proof (induction xs arbitrary: c)
  case (Cons x xs)
  from Cons.prems have "inv (snd (cstep x c))" by (intro step_inv) auto
  with Cons step_abs [of c x] show ?case by (simp add: run_ops_Cons del: run_ops.simps(2))
qed simp

end

subsection \<open>Gathering concurrent calls\<close>

text \<open>
  \<open>await asyncio.gather(*calls)\<close>: the values in the order of the arguments if every call
  returns; otherwise the exception of the call that failed first in time. \<open>ord\<close> lists the
  calls' positions in the order in which they finished.
\<close>

fun first_failure :: "nat list \<Rightarrow> 'a outcome list \<Rightarrow> exn option" where
  "first_failure [] rs = None"
| "first_failure (i # is) rs =
     (if i < length rs
      then (case rs ! i of Inl e \<Rightarrow> Some e | Inr _ \<Rightarrow> first_failure is rs)
      else first_failure is rs)"

definition gather :: "nat list \<Rightarrow> 'a outcome list \<Rightarrow> 'a list outcome" where
  "gather ord rs = (case first_failure ord rs of Some e \<Rightarrow> Inl e | None \<Rightarrow> results rs)"

locale gathering =
  fixes collect :: "'a outcome list \<Rightarrow> 'a list outcome"
  assumes collect_values: "collect (map Inr xs) = Inr xs"
    and collect_failure: "collect rs = Inl e \<Longrightarrow> Inl e \<in> set rs"
    and collect_success: "collect rs = Inr xs \<Longrightarrow> rs = map Inr xs"
begin

lemma collect_Inr_iff: "collect rs = Inr xs \<longleftrightarrow> rs = map Inr xs"
  using collect_values collect_success by auto

lemma collect_length: "collect rs = Inr xs \<Longrightarrow> length xs = length rs"
  by (auto simp: collect_Inr_iff)

lemma collect_nth: "collect rs = Inr xs \<Longrightarrow> i < length rs \<Longrightarrow> rs ! i = Inr (xs ! i)"
  by (auto simp: collect_Inr_iff)

lemma collect_map:
  "collect (map f ts) = Inr xs \<longleftrightarrow> length xs = length ts \<and> (\<forall>i<length ts. f (ts ! i) = Inr (xs ! i))"
  by (auto simp: collect_Inr_iff list_eq_iff_nth_eq)

lemma collect_never_fails: "\<forall>t\<in>set ts. \<exists>x. f t = Inr x \<Longrightarrow> \<exists>xs. collect (map f ts) = Inr xs"
  by (cases "collect (map f ts)") (force dest!: collect_failure)+

end

lemma first_failure_member: "first_failure ord rs = Some e \<Longrightarrow> Inl e \<in> set rs"
  by (induction ord rs rule: first_failure.induct) (auto split: if_splits sum.splits dest: nth_mem)

lemma first_failure_None: "\<forall>r\<in>set rs. \<exists>x. r = Inr x \<Longrightarrow> first_failure ord rs = None"
proof (induction ord rs rule: first_failure.induct)
  case (2 i "is" rs)
  have "rs ! i \<noteq> Inl e" if "i < length rs" for e
    using 2(3) nth_mem [OF that] by force
  with 2 show ?case by (auto split: sum.splits)
qed simp

interpretation gather: gathering "gather ord" for ord
proof
  fix xs :: "'a list" and rs :: "'a outcome list" and e
  show "gather ord (map Inr xs) = Inr xs"
    by (simp add: gather_def first_failure_None)
  show "gather ord rs = Inl e \<Longrightarrow> Inl e \<in> set rs"
    by (auto simp: gather_def first_failure_member results_Inl_member split: option.splits)
  show "gather ord rs = Inr xs \<Longrightarrow> rs = map Inr xs"
    by (auto simp: gather_def results_Inr_iff split: option.splits)
qed

end
