(* ===== verification/Storage.thy ===== *)
theory Storage
  imports Interfaces "HOL-Library.AList"
begin

text \<open>
  \<^verbatim>\<open>services/service-b/app/storage.py\<close>: the in-memory key-value store.

  \<open>_data\<close> is a Python dictionary, kept as the association list of its entries in insertion
  order (\<open>AList.update\<close> overwrites in place or appends, as \<open>d[k] = v\<close> does);
  \<open>_lock\<close> is the lock's state. No method awaits while it holds the lock, so each one is an
  atomic step; \<open>None\<close> means that the caller has to wait for the lock.

  \<open>kv_state\<close> abstracts a store to a finite map, and \<open>kv_spec\<close> is the abstract store. The
  interpretation \<open>store\<close> of \<open>simulation\<close> shows that the methods implement it.
\<close>

record kv_store =
  kv_data :: "(string \<times> pyfloat) list"
  kv_lock :: bool

definition KeyValueStore :: kv_store where
  "KeyValueStore = \<lparr>kv_data = [], kv_lock = False\<rparr>"

definition set_kv_lock :: "bool \<Rightarrow> kv_store \<Rightarrow> kv_store" where
  "set_kv_lock b s = s\<lparr>kv_lock := b\<rparr>"

definition kv_locked :: "(kv_store \<Rightarrow> 'a \<times> kv_store) \<Rightarrow> kv_store \<Rightarrow> ('a \<times> kv_store) option" where
  "kv_locked sect s = lock_section kv_lock set_kv_lock sect s"

definition kv_put :: "string \<Rightarrow> pyfloat \<Rightarrow> kv_store \<Rightarrow> (unit outcome \<times> kv_store) option" where
  "kv_put key val s =
     (if key = [] then Some (Inl (ValueError ''key must be non-empty''), s)
      else kv_locked (\<lambda>s. (Inr (), s\<lparr>kv_data := AList.update key val (kv_data s)\<rparr>)) s)"

definition kv_get :: "string \<Rightarrow> kv_store \<Rightarrow> (pyfloat option \<times> kv_store) option" where
  "kv_get key s = kv_locked (\<lambda>s. (map_of (kv_data s) key, s)) s"

definition kv_delete :: "string \<Rightarrow> kv_store \<Rightarrow> (bool \<times> kv_store) option" where
  "kv_delete key s =
     kv_locked (\<lambda>s. (map_of (kv_data s) key \<noteq> None, s\<lparr>kv_data := AList.delete key (kv_data s)\<rparr>)) s"

definition kv_all :: "kv_store \<Rightarrow> ((string \<times> pyfloat) list \<times> kv_store) option" where
  "kv_all s = kv_locked (\<lambda>s. (kv_data s, s)) s"

definition kv_size :: "kv_store \<Rightarrow> (nat \<times> kv_store) option" where
  "kv_size s = kv_locked (\<lambda>s. (length (kv_data s), s)) s"

interpretation kv: mutex kv_lock set_kv_lock
  by unfold_locales (simp add: set_kv_lock_def)

text \<open>The invariant between calls: the lock is free and the keys of the dictionary are distinct.\<close>

definition kv_inv :: "kv_store \<Rightarrow> bool" where
  "kv_inv s = (\<not> kv_lock s \<and> distinct (map fst (kv_data s)))"

lemma kv_locked_free:
  "\<not> kv_lock s \<Longrightarrow>
   kv_locked sect s =
     Some (fst (sect (s\<lparr>kv_lock := True\<rparr>)), (snd (sect (s\<lparr>kv_lock := True\<rparr>)))\<lparr>kv_lock := False\<rparr>)"
  unfolding kv_locked_def
  using kv.section_result [of s sect "fst (sect (set_kv_lock True s))" "snd (sect (set_kv_lock True s))"]
  by (simp add: set_kv_lock_def)

lemma kv_lock_idle [simp]: "\<not> kv_lock s \<Longrightarrow> s\<lparr>kv_lock := False\<rparr> = s"
  by (cases s) simp

lemmas kv_ops = kv_put_def kv_get_def kv_delete_def kv_all_def kv_size_def

subsection \<open>The store as its clients see it\<close>

text \<open>
  What the HTTP handlers of service-b rely on: the methods of a store whose content is the map
  \<open>content s\<close>, as long as \<open>inv\<close> holds. Keys for which \<open>bad\<close> holds are rejected by \<open>put\<close>.
\<close>

locale key_value =
  fixes put :: "'k \<Rightarrow> 'v \<Rightarrow> 's \<Rightarrow> (unit outcome \<times> 's) option"
    and get :: "'k \<Rightarrow> 's \<Rightarrow> ('v option \<times> 's) option"
    and delete :: "'k \<Rightarrow> 's \<Rightarrow> (bool \<times> 's) option"
    and size_of :: "'s \<Rightarrow> (nat \<times> 's) option"
    and content :: "'s \<Rightarrow> 'k \<rightharpoonup> 'v"
    and inv :: "'s \<Rightarrow> bool"
    and bad :: "'k \<Rightarrow> bool"
  assumes put_good: "inv s \<Longrightarrow> \<not> bad k \<Longrightarrow>
      \<exists>s'. put k v s = Some (Inr (), s') \<and> inv s' \<and> content s' = (content s)(k \<mapsto> v)"
    and put_bad: "inv s \<Longrightarrow> bad k \<Longrightarrow> \<exists>e. put k v s = Some (Inl (ValueError e), s)"
    and get_content: "inv s \<Longrightarrow> get k s = Some (content s k, s)"
    and delete_content: "inv s \<Longrightarrow>
      \<exists>s'. delete k s = Some (k \<in> dom (content s), s') \<and> inv s' \<and> content s' = (content s)(k := None)"
    and size_content: "inv s \<Longrightarrow> size_of s = Some (card (dom (content s)), s)"
begin

lemma get_after_put:
  "inv s \<Longrightarrow> put k v s = Some (Inr u, s') \<Longrightarrow>
   inv s' \<and> get j s' = Some (if j = k then Some v else content s j, s')"
  using put_good [of s k v] put_bad [of s k v] by (cases "bad k") (auto simp: get_content)

lemma get_after_delete:
  "inv s \<Longrightarrow> delete k s = Some (b, s') \<Longrightarrow>
   inv s' \<and> b = (content s k \<noteq> None) \<and> get j s' = Some (if j = k then None else content s j, s')"
  using delete_content [of s k] by (auto simp: get_content)

end

lemma card_dom_map_of: "distinct (map fst xs) \<Longrightarrow> card (dom (map_of xs)) = length xs"
  by (metis distinct_card dom_map_of_conv_image_fst length_map list.set_map)

definition kv_state :: "kv_store \<Rightarrow> (string \<rightharpoonup> pyfloat)" where
  "kv_state s = map_of (kv_data s)"

interpretation kvs: key_value kv_put kv_get kv_delete kv_size kv_state kv_inv "\<lambda>k. k = []"
  by unfold_locales
     (auto simp: kv_ops kv_locked_free kv_inv_def kv_state_def update_conv' delete_conv'
        distinct_update distinct_delete card_dom_map_of)

subsection \<open>The abstract store\<close>

datatype kv_op = OpPut string pyfloat | OpGet string | OpDelete string | OpAll | OpSize

datatype kv_result =
    RUnit "unit outcome"
  | RValue "pyfloat option"
  | RDeleted bool
  | REntries "string \<rightharpoonup> pyfloat"
  | RSize nat
  | RBlocked

definition kv_spec :: "kv_op \<Rightarrow> (string \<rightharpoonup> pyfloat) \<Rightarrow> kv_result \<times> (string \<rightharpoonup> pyfloat)" where
  "kv_spec x m =
     (case x of
        OpPut k v \<Rightarrow>
          if k = [] then (RUnit (Inl (ValueError ''key must be non-empty'')), m)
          else (RUnit (Inr ()), m(k \<mapsto> v))
      | OpGet k \<Rightarrow> (RValue (m k), m)
      | OpDelete k \<Rightarrow> (RDeleted (k \<in> dom m), m(k := None))
      | OpAll \<Rightarrow> (REntries m, m)
      | OpSize \<Rightarrow> (RSize (card (dom m)), m))"

text \<open>
  One method call as a total step: a caller that finds the lock taken leaves the store alone
  and is not answered; the invariant excludes it.
\<close>

definition answered :: "('a \<Rightarrow> kv_result) \<Rightarrow> kv_store \<Rightarrow> ('a \<times> kv_store) option \<Rightarrow> kv_result \<times> kv_store" where
  "answered f s r = (case r of Some (x, s') \<Rightarrow> (f x, s') | None \<Rightarrow> (RBlocked, s))"

definition kv_step :: "kv_op \<Rightarrow> kv_store \<Rightarrow> kv_result \<times> kv_store" where
  "kv_step x s =
     (case x of
        OpPut k v \<Rightarrow> answered RUnit s (kv_put k v s)
      | OpGet k \<Rightarrow> answered RValue s (kv_get k s)
      | OpDelete k \<Rightarrow> answered RDeleted s (kv_delete k s)
      | OpAll \<Rightarrow> answered (\<lambda>es. REntries (map_of es)) s (kv_all s)
      | OpSize \<Rightarrow> answered RSize s (kv_size s))"

lemma kv_step_inv: "kv_inv s \<Longrightarrow> kv_inv (snd (kv_step x s))"
  by (cases x)
     (auto simp: kv_step_def answered_def kv_ops kv_locked_free kv_inv_def distinct_update distinct_delete)

lemma kv_step_spec:
  "kv_inv s \<Longrightarrow> kv_spec x (kv_state s) = (fst (kv_step x s), kv_state (snd (kv_step x s)))"
  by (cases x)
     (auto simp: kv_spec_def kv_step_def answered_def kv_ops kv_locked_free kv_inv_def kv_state_def
        update_conv' delete_conv' card_dom_map_of)

interpretation store: simulation kv_step kv_spec kv_state kv_inv "\<lambda>_. True"
  by unfold_locales (auto simp: kv_step_inv kv_step_spec)

lemma kv_inv_init [simp]: "kv_inv KeyValueStore"
  by (simp add: kv_inv_def KeyValueStore_def)

lemma kv_state_init [simp]: "kv_state KeyValueStore = Map.empty"
  by (simp add: kv_state_def KeyValueStore_def)

text \<open>
  C14: from an empty store, every sequence of \<open>put\<close>, \<open>get\<close>, \<open>delete\<close>, \<open>all\<close> and
  \<open>size\<close> calls is answered exactly as a finite map would answer it, an empty key being
  rejected, and leaves the store representing the map's final state.
\<close>

theorem kv_store_refines_map:
  "run_ops kv_spec xs Map.empty
     = (fst (run_ops kv_step xs KeyValueStore), kv_state (snd (run_ops kv_step xs KeyValueStore)))"
  using store.run_abs [of KeyValueStore xs] by (simp add: list_all_iff)

text \<open>
  No call ever finds the lock taken by a finished one: after any sequence of calls the lock
  is free and the keys are distinct, and each method returns at once.
\<close>

theorem kv_store_never_blocks:
  "kv_inv (snd (run_ops kv_step xs KeyValueStore))
   \<and> kv_put k v (snd (run_ops kv_step xs KeyValueStore)) \<noteq> None
   \<and> kv_get k (snd (run_ops kv_step xs KeyValueStore)) \<noteq> None
   \<and> kv_delete k (snd (run_ops kv_step xs KeyValueStore)) \<noteq> None
   \<and> kv_all (snd (run_ops kv_step xs KeyValueStore)) \<noteq> None
   \<and> kv_size (snd (run_ops kv_step xs KeyValueStore)) \<noteq> None"
proof -
  have "kv_inv (snd (run_ops kv_step xs KeyValueStore))" by (rule store.run_inv) (simp_all add: list_all_iff)
  then show ?thesis by (simp add: kv_inv_def kv_ops kv_locked_free)
qed

end
