(* ===== verification/ServiceB.thy ===== *)
theory ServiceB
  imports Storage
begin

text \<open>
  \<^verbatim>\<open>services/service-b/app/main.py\<close>: the HTTP handlers of the storage service, over the
  store of \<open>Storage\<close>. A handler returns the JSON body it answers with or the exception it
  raises, with the store after it; \<open>None\<close> means that it waits for the store's lock. The
  request bodies arrive validated (see \<open>Models\<close>). \<open>squared\<close> calls Python's \<open>**\<close>, so it
  takes the C library's \<open>pow\<close> as a parameter.
\<close>

type_synonym 's handled = "(json outcome \<times> 's) option"

definition put_record :: "store_record \<Rightarrow> kv_store \<Rightarrow> kv_store handled" where
  "put_record r s =
     (case kv_put (sr_key r) (sr_value r) s of
        None \<Rightarrow> None
      | Some (Inl e, s1) \<Rightarrow> Some (Inl e, s1)
      | Some (Inr _, s1) \<Rightarrow>
          (case kv_size s1 of
             None \<Rightarrow> None
           | Some (n, s2) \<Rightarrow>
               Some (Inr (JObj [(''key'', JStr (sr_key r)), (''value'', JFloat (sr_value r)),
                                (''size'', JInt (int n))]), s2)))"

definition get_record :: "string \<Rightarrow> kv_store \<Rightarrow> kv_store handled" where
  "get_record key s =
     (case kv_get key s of
        None \<Rightarrow> None
      | Some (None, s1) \<Rightarrow>
          Some (Inl (HTTPException 404 (''key '' @ py_repr key @ '' not found'')), s1)
      | Some (Some v, s1) \<Rightarrow> Some (Inr (JObj [(''key'', JStr key), (''value'', JFloat v)]), s1))"

definition delete_record :: "string \<Rightarrow> kv_store \<Rightarrow> kv_store handled" where
  "delete_record key s =
     (case kv_delete key s of
        None \<Rightarrow> None
      | Some (deleted, s1) \<Rightarrow>
          Some (Inr (JObj [(''key'', JStr key), (''deleted'', JBool deleted)]), s1))"

definition list_records :: "kv_store \<Rightarrow> kv_store handled" where
  "list_records s =
     (case kv_all s of
        None \<Rightarrow> None
      | Some (snap, s1) \<Rightarrow>
          Some (Inr (JObj [(''size'', JInt (int (length snap))),
                           (''records'', JObj (map (\<lambda>(k, v). (k, JFloat v)) snap))]), s1))"

definition squared :: "(pyfloat \<Rightarrow> pyfloat \<Rightarrow> pyfloat) \<Rightarrow> store_record \<Rightarrow> json outcome" where
  "squared c_pow payload =
     map_outcome
       (\<lambda>y. JObj [(''key'', JStr (sr_key payload)), (''input'', JFloat (sr_value payload)),
                  (''result'', JFloat y)])
       (py_square c_pow (sr_value payload))"

text \<open>The routes of the service, and the status a successful answer is sent with.\<close>

datatype b_request =
    PostStore store_record
  | GetStore string
  | DeleteStore string
  | ListStore
  | PostSquared store_record

definition b_dispatch ::
  "(pyfloat \<Rightarrow> pyfloat \<Rightarrow> pyfloat) \<Rightarrow> b_request \<Rightarrow> kv_store \<Rightarrow> kv_store handled" where
  "b_dispatch c_pow req s =
     (case req of
        PostStore r \<Rightarrow> put_record r s
      | GetStore k \<Rightarrow> get_record k s
      | DeleteStore k \<Rightarrow> delete_record k s
      | ListStore \<Rightarrow> list_records s
      | PostSquared r \<Rightarrow> Some (squared c_pow r, s))"

definition b_success_status :: "b_request \<Rightarrow> nat" where
  "b_success_status req = (case req of PostStore _ \<Rightarrow> 201 | _ \<Rightarrow> 200)"

lemma put_record_good:
  assumes "kv_inv s" and "sr_key r \<noteq> []"
  shows "\<exists>s' n. put_record r s = Some (Inr (JObj [(''key'', JStr (sr_key r)), (''value'', JFloat (sr_value r)),
                                            (''size'', JInt (int n))]), s')
      \<and> kv_inv s' \<and> kv_state s' = (kv_state s)(sr_key r \<mapsto> sr_value r) \<and> n = card (dom (kv_state s'))"
  using kvs.put_good [OF assms, of "sr_value r"]
  by (auto simp: put_record_def kvs.size_content)

lemma get_record_found:
  "kv_inv s \<Longrightarrow> kv_state s k = Some v \<Longrightarrow>
   get_record k s = Some (Inr (JObj [(''key'', JStr k), (''value'', JFloat v)]), s)"
  by (simp add: get_record_def kvs.get_content)

lemma get_record_missing:
  "kv_inv s \<Longrightarrow> kv_state s k = None \<Longrightarrow>
   get_record k s = Some (Inl (HTTPException 404 (''key '' @ py_repr k @ '' not found'')), s)"
  by (simp add: get_record_def kvs.get_content)

lemma delete_record_result:
  "kv_inv s \<Longrightarrow>
   \<exists>s'. delete_record k s = Some (Inr (JObj [(''key'', JStr k), (''deleted'', JBool (k \<in> dom (kv_state s)))]), s')
        \<and> kv_inv s' \<and> kv_state s' = (kv_state s)(k := None)"
  using kvs.delete_content [of s k] by (auto simp: delete_record_def)

lemma list_records_result:
  "kv_inv s \<Longrightarrow> list_records s =
     Some (Inr (JObj [(''size'', JInt (int (length (kv_data s)))),
                      (''records'', JObj (map (\<lambda>(k, v). (k, JFloat v)) (kv_data s)))]), s)"
  by (simp add: list_records_def kv_ops kv_locked_free kv_inv_def)

lemma put_record_empty_key:
  "kv_inv s \<Longrightarrow> sr_key r = [] \<Longrightarrow> \<exists>msg. put_record r s = Some (Inl (ValueError msg), s)"
  using kvs.put_bad [of s "sr_key r" "sr_value r"] by (auto simp: put_record_def)

lemma b_dispatch_inv:
  "kv_inv s \<Longrightarrow> \<exists>r s'. b_dispatch c_pow req s = Some (r, s') \<and> kv_inv s'"
proof (cases req)
  case (PostStore r)
  assume "kv_inv s"
  then show ?thesis using PostStore put_record_good [of s r] put_record_empty_key [of s r]
    by (cases "sr_key r = []") (auto simp: b_dispatch_def)
next
  case (GetStore k)
  assume "kv_inv s"
  then show ?thesis using GetStore get_record_found [of s k] get_record_missing [of s k]
    by (cases "kv_state s k") (auto simp: b_dispatch_def)
next
  case (DeleteStore k)
  assume "kv_inv s"
  then show ?thesis using DeleteStore delete_record_result [of s k] by (auto simp: b_dispatch_def)
next
  case ListStore
  assume "kv_inv s"
  then show ?thesis using ListStore list_records_result [of s] by (simp add: b_dispatch_def)
next
  case (PostSquared r)
  assume "kv_inv s"
  then show ?thesis using PostSquared by (simp add: b_dispatch_def)
qed

text \<open>
  C30: the HTTP round trip of service-b. After \<open>POST /store\<close> of a record with a non-empty key,
  \<open>GET /store/{key}\<close> answers with that record; after \<open>DELETE /store/{key}\<close> it answers 404;
  and neither changes what any other key is answered with.
\<close>

theorem store_http_round_trip:
  assumes "kv_inv s" and "sr_key r \<noteq> []"
    and "put_record r s = Some (ok, s1)"
    and "delete_record (sr_key r) s1 = Some (del, s2)"
  shows "get_record (sr_key r) s1
           = Some (Inr (JObj [(''key'', JStr (sr_key r)), (''value'', JFloat (sr_value r))]), s1)
       \<and> get_record (sr_key r) s2
           = Some (Inl (HTTPException 404 (''key '' @ py_repr (sr_key r) @ '' not found'')), s2)
       \<and> (\<forall>k. k \<noteq> sr_key r \<longrightarrow>
             map_option fst (get_record k s1) = map_option fst (get_record k s)
           \<and> map_option fst (get_record k s2) = map_option fst (get_record k s))"
proof -
  have s1: "kv_inv s1" "kv_state s1 = (kv_state s)(sr_key r \<mapsto> sr_value r)"
    using put_record_good [OF assms(1,2)] assms(3) by auto
  have s2: "kv_inv s2" "kv_state s2 = (kv_state s1)(sr_key r := None)"
    using delete_record_result [OF s1(1), of "sr_key r"] assms(4) by auto
  have other: "map_option fst (get_record k t) = map_option fst (get_record k s)"
    if "kv_inv t" "kv_state t k = kv_state s k" for k t
    using that assms(1) by (simp add: get_record_def kvs.get_content split: option.splits)
  show ?thesis using s1 s2 by (auto simp: get_record_found get_record_missing intro!: other)
qed

definition example_store :: kv_store where
  "example_store = \<lparr>kv_data = [(''b'', Fin 7)], kv_lock = False\<rparr>"

theorem store_http_round_trip_witness:
  "get_record ''a'' \<lparr>kv_data = [(''b'', Fin 7), (''a'', Fin 5)], kv_lock = False\<rparr>
     = Some (Inr (JObj [(''key'', JStr ''a''), (''value'', JFloat (Fin 5))]),
             \<lparr>kv_data = [(''b'', Fin 7), (''a'', Fin 5)], kv_lock = False\<rparr>)
   \<and> map_option fst (get_record ''b'' example_store)
     = Some (Inr (JObj [(''key'', JStr ''b''), (''value'', JFloat (Fin 7))]))"
proof -
  let ?r = "\<lparr>sr_key = ''a'', sr_value = Fin 5\<rparr>"
  let ?s1 = "\<lparr>kv_data = [(''b'', Fin 7), (''a'', Fin 5)], kv_lock = False\<rparr>"
  have inv: "kv_inv example_store" by (simp add: kv_inv_def example_store_def)
  have put: "put_record ?r example_store
      = Some (Inr (JObj [(''key'', JStr ''a''), (''value'', JFloat (Fin 5)), (''size'', JInt 2)]), ?s1)"
    by (simp add: put_record_def kv_ops kv_locked_free example_store_def)
  have del: "delete_record ''a'' ?s1
      = Some (Inr (JObj [(''key'', JStr ''a''), (''deleted'', JBool True)]), example_store)"
    by (simp add: delete_record_def kv_ops kv_locked_free example_store_def AList.delete_eq)
  show ?thesis
    using store_http_round_trip [OF inv _ put, of "Inr (JObj [(''key'', JStr ''a''), (''deleted'', JBool True)])" example_store] del
    by (simp add: get_record_def kv_ops kv_locked_free example_store_def)
qed

text \<open>
  A record with an empty key passes the declared model but not the store: \<open>POST /store\<close>
  raises a \<open>ValueError\<close> that the handler does not catch, and stores nothing.
\<close>

theorem put_record_empty_key_unhandled:
  assumes "kv_inv s"
  shows "\<exists>msg. put_record \<lparr>sr_key = [], sr_value = v\<rparr> s = Some (Inl (ValueError msg), s)"
  using put_record_empty_key [OF assms, of "\<lparr>sr_key = [], sr_value = v\<rparr>"] by simp

theorem put_record_empty_key_witness:
  "\<exists>msg. put_record \<lparr>sr_key = [], sr_value = Fin 1\<rparr> example_store = Some (Inl (ValueError msg), example_store)"
  by (rule put_record_empty_key_unhandled) (simp add: kv_inv_def example_store_def)

text \<open>Serving a sequence of requests one after the other; \<open>None\<close> if one of them has to wait.\<close>

fun b_serve ::
  "(pyfloat \<Rightarrow> pyfloat \<Rightarrow> pyfloat) \<Rightarrow> b_request list \<Rightarrow> kv_store \<Rightarrow> (json outcome list \<times> kv_store) option" where
  "b_serve c_pow [] s = Some ([], s)"
| "b_serve c_pow (r # rs) s =
     (case b_dispatch c_pow r s of
        None \<Rightarrow> None
      | Some (x, s1) \<Rightarrow> map_option (\<lambda>(xs, s2). (x # xs, s2)) (b_serve c_pow rs s1))"

lemma b_serve_inv:
  "kv_inv s \<Longrightarrow> \<exists>xs s'. b_serve c_pow rs s = Some (xs, s') \<and> length xs = length rs \<and> kv_inv s'"
proof (induction rs arbitrary: s)
  case (Cons r rs)
  obtain x s1 where d: "b_dispatch c_pow r s = Some (x, s1)" "kv_inv s1"
    using b_dispatch_inv [OF Cons.prems] by blast
  from Cons.IH [OF d(2)] d(1) show ?case by auto
qed simp

text \<open>
  Service-b answers every sequence of requests completely: each request gets a body or an
  exception, none waits for the lock of an earlier one, and the store's invariant holds at the
  end.
\<close>

theorem b_serve_total:
  "\<exists>xs s'. b_serve c_pow rs KeyValueStore = Some (xs, s') \<and> length xs = length rs \<and> kv_inv s'"
  by (rule b_serve_inv) simp

end
