(* ===== verification/Scheduler.thy ===== *)
theory Scheduler
  imports Interfaces "HOL-Library.Multiset"
begin

text \<open>
  Concurrent code as actions chosen by a scheduler.

  A machine is given by \<open>enabled s\<close>, the actions possible in a state, and \<open>act a s\<close>, the
  state after one. \<open>reachable\<close> is the set of states any interleaving can reach; \<open>drive\<close>
  executes the interleaving that the choices \<open>pick\<close> select, for as many steps as its fuel.

  The locale \<open>scheduled\<close> is a machine with an invariant and a measure that every action
  decreases: then no interleaving is infinite, and fuel of the initial measure drives the machine
  to a state with no action left.

  The locale \<open>pipeline\<close> is what service-a expects of its three concurrent ways to map a
  function over a list: all the values in input order, or the exception of one of the items.
\<close>

subsection \<open>Machines\<close>

inductive reachable :: "('s \<Rightarrow> 'a list) \<Rightarrow> ('a \<Rightarrow> 's \<Rightarrow> 's) \<Rightarrow> 's \<Rightarrow> 's \<Rightarrow> bool"
  for enabled :: "'s \<Rightarrow> 'a list" and act :: "'a \<Rightarrow> 's \<Rightarrow> 's" and s0 :: 's where
  reachable_init: "reachable enabled act s0 s0"
| reachable_step: "reachable enabled act s0 s \<Longrightarrow> a \<in> set (enabled s) \<Longrightarrow> reachable enabled act s0 (act a s)"

fun drive :: "('s \<Rightarrow> 'a list) \<Rightarrow> ('a \<Rightarrow> 's \<Rightarrow> 's) \<Rightarrow> (nat \<Rightarrow> nat) \<Rightarrow> nat \<Rightarrow> 's \<Rightarrow> 's" where
  "drive enabled act pick 0 s = s"
| "drive enabled act pick (Suc n) s =
     (if enabled s = [] then s
      else drive enabled act pick n (act (enabled s ! (pick n mod length (enabled s))) s))"

lemma picked_member: "as \<noteq> [] \<Longrightarrow> as ! (k mod length as) \<in> set as"
  by (simp add: nth_mem)

lemma reachable_trans:
  "reachable enabled act s1 s2 \<Longrightarrow> reachable enabled act s0 s1 \<Longrightarrow> reachable enabled act s0 s2"
  by (induction rule: reachable.induct) (auto intro: reachable_step)

lemma drive_reachable: "reachable enabled act s (drive enabled act pick n s)"
proof (induction n arbitrary: s)
  case (Suc n)
  let ?s1 = "act (enabled s ! (pick n mod length (enabled s))) s"
  have "reachable enabled act s ?s1" if "enabled s \<noteq> []"
    using reachable_step [of enabled act s s "enabled s ! (pick n mod length (enabled s))"]
      reachable_init [of enabled act s] picked_member [OF that] by simp
  then show ?case using reachable_trans [OF Suc] by (auto intro: reachable_init)
qed (simp add: reachable_init)

text \<open>What one place of a list contributes to the whole, for invariants and measures.\<close>

lemma mset_concat_update:
  "w < length cs \<Longrightarrow>
   mset (concat (map h (cs[w := c]))) + mset (h (cs ! w)) = mset (concat (map h cs)) + mset (h c)"
proof (induction cs arbitrary: w)
  case (Cons d cs)
  then show ?case by (cases w) (auto simp: ac_simps)
qed simp

lemma sum_update:
  fixes g :: "nat \<Rightarrow> 'a \<Rightarrow> nat"
  assumes "r < length cs"
  shows "(\<Sum>i<length cs. g i (cs[r := c] ! i)) + g r (cs ! r) = (\<Sum>i<length cs. g i (cs ! i)) + g r c"
proof -
  have "(\<Sum>i\<in>{..<length cs} - {r}. g i (cs[r := c] ! i)) = (\<Sum>i\<in>{..<length cs} - {r}. g i (cs ! i))"
    by (intro sum.cong) auto
  with assms show ?thesis by (simp add: sum.remove [of "{..<length cs}" r])
qed

locale scheduled =
  fixes enabled :: "'s \<Rightarrow> 'a list"
    and act :: "'a \<Rightarrow> 's \<Rightarrow> 's"
    and inv :: "'s \<Rightarrow> bool"
    and work_left :: "'s \<Rightarrow> nat"
  assumes act_inv: "inv s \<Longrightarrow> a \<in> set (enabled s) \<Longrightarrow> inv (act a s)"
    and act_less: "inv s \<Longrightarrow> a \<in> set (enabled s) \<Longrightarrow> work_left (act a s) < work_left s"
begin

lemma reachable_inv: "reachable enabled act s0 s \<Longrightarrow> inv s0 \<Longrightarrow> inv s"
  by (induction rule: reachable.induct) (auto intro: act_inv)

lemma drive_inv: "inv s \<Longrightarrow> inv (drive enabled act pick n s)"
  by (rule reachable_inv [OF drive_reachable])

lemma drive_ends: "inv s \<Longrightarrow> work_left s \<le> n \<Longrightarrow> enabled (drive enabled act pick n s) = []"
proof (induction n arbitrary: s)
  case 0
  then show ?case using act_less [of s "hd (enabled s)"] by (cases "enabled s") auto
next
  case (Suc n)
  show ?case
  proof (cases "enabled s = []")
    case False
    let ?a = "enabled s ! (pick n mod length (enabled s))"
    have a: "?a \<in> set (enabled s)" by (rule picked_member [OF False])
    have "work_left (act ?a s) \<le> n" using act_less [OF Suc.prems(1) a] Suc.prems(2) by simp
    with Suc.IH act_inv [OF Suc.prems(1) a] False show ?thesis by simp
  qed simp
qed

lemma no_infinite_schedule:
  "inv (run 0) \<Longrightarrow> \<exists>i. \<forall>a\<in>set (enabled (run i)). run (Suc i) \<noteq> act a (run i)"
proof (rule ccontr)
  assume i0: "inv (run 0)" and "\<nexists>i. \<forall>a\<in>set (enabled (run i)). run (Suc i) \<noteq> act a (run i)"
  then have step: "\<exists>a\<in>set (enabled (run i)). run (Suc i) = act a (run i)" for i by blast
  have inv: "inv (run i)" for i
    by (induction i) (use i0 step act_inv in \<open>auto, metis\<close>)
  have "work_left (run i) + i \<le> work_left (run 0)" for i
  proof (induction i)
    case (Suc i)
    obtain a where "a \<in> set (enabled (run i))" "run (Suc i) = act a (run i)" using step by blast
    with act_less [OF inv] Suc show ?case by fastforce
  qed simp
  from this [of "Suc (work_left (run 0))"] show False by simp
qed

end

subsection \<open>Pipelines\<close>

definition item_outcomes :: "(nat \<Rightarrow> 'a \<Rightarrow> 'b outcome) \<Rightarrow> 'a list \<Rightarrow> 'b outcome list" where
  "item_outcomes f xs = map (\<lambda>(i, x). f i x) (List.enumerate 0 xs)"

lemma length_item_outcomes [simp]: "length (item_outcomes f xs) = length xs"
  by (simp add: item_outcomes_def)

lemma nth_item_outcomes [simp]: "i < length xs \<Longrightarrow> item_outcomes f xs ! i = f i (xs ! i)"
  by (simp add: item_outcomes_def nth_enumerate_eq)

lemma item_outcomes_const: "item_outcomes (\<lambda>_. f) xs = map f xs"
  by (simp add: list_eq_iff_nth_eq)

locale pipeline =
  fixes run :: "(nat \<Rightarrow> 'a \<Rightarrow> 'b outcome) \<Rightarrow> 'a list \<Rightarrow> 'b list outcome option"
    and admissible :: "'b outcome list \<Rightarrow> bool"
  assumes run_values: "item_outcomes f xs = map Inr ys \<Longrightarrow> run f xs = Some (Inr ys)"
    and run_failure: "admissible (item_outcomes f xs) \<Longrightarrow> Inl e \<in> set (item_outcomes f xs) \<Longrightarrow>
      \<exists>e'. Inl e' \<in> set (item_outcomes f xs) \<and> run f xs = Some (Inl e')"
begin

lemma run_returns:
  assumes "admissible (item_outcomes f xs)"
  shows "\<exists>r. run f xs = Some r"
proof (cases "\<exists>e. Inl e \<in> set (item_outcomes f xs)")
  case False
  then have "\<exists>ys. item_outcomes f xs = map Inr ys"
    by (intro exI [of _ "map projr (item_outcomes f xs)"] nth_equalityI)
       (auto simp: in_set_conv_nth, metis Inr_Inl_False obj_sumE sum.sel(2))
  then show ?thesis using run_values by blast
qed (use run_failure [OF assms] in blast)

lemma run_Inr:
  assumes "admissible (item_outcomes f xs)"
  shows "run f xs = Some (Inr ys) \<longleftrightarrow> item_outcomes f xs = map Inr ys"
proof
  assume r: "run f xs = Some (Inr ys)"
  have none: "\<nexists>e. Inl e \<in> set (item_outcomes f xs)" using run_failure [OF assms] r by fastforce
  then have "item_outcomes f xs = map Inr (map projr (item_outcomes f xs))"
    by (intro nth_equalityI) (auto simp: in_set_conv_nth, metis Inr_Inl_False obj_sumE sum.sel(2))
  with run_values r show "item_outcomes f xs = map Inr ys" by fastforce
qed (rule run_values)

lemma run_Inl:
  "admissible (item_outcomes f xs) \<Longrightarrow> run f xs = Some (Inl e) \<Longrightarrow> Inl e \<in> set (item_outcomes f xs)"
  using run_failure run_values run_Inr
  by (metis Inl_Inr_False option.inject results.simps results_Inl_member results_Inr_iff sum.exhaust sum.inject(1))

lemma run_length:
  "admissible (item_outcomes f xs) \<Longrightarrow> run f xs = Some (Inr ys) \<Longrightarrow> length ys = length xs"
  using run_Inr by (metis length_item_outcomes length_map)

lemma run_agrees_with_results:
  "admissible (item_outcomes f xs) \<Longrightarrow>
   run f xs = Some (Inr ys) \<longleftrightarrow> results (item_outcomes f xs) = Inr ys"
  by (simp add: run_Inr results_Inr_iff)

end

end
