(* ===== verification/FastapiApp.thy ===== *)
theory FastapiApp
  imports Interfaces "HOL-Library.AList"
begin

text \<open>
  \<^verbatim>\<open>shared/logging_config.py\<close> and \<^verbatim>\<open>shared/fastapi_app.py\<close>: the log level and the
  per-request logging context, and the service factory with its observability middleware and
  the \<open>/health\<close> and \<open>/metrics\<close> endpoints.

  FastAPI itself is not part of the repository: what the rest of the application answers a
  request with is the parameter \<open>call_next\<close> of the middleware, a function of the metrics
  (which \<open>/metrics\<close> reads) and of the service's own state \<open>'s\<close>. The clock readings around
  the call are inputs; the log entries, each with the context it is written under, are outputs.
\<close>

subsection \<open>Logging configuration\<close>

text \<open>
  What \<open>getattr(logging, name)\<close> yields for an upper-case name: a numeric level, a text, or
  some other object.
\<close>

datatype log_level = LevelNo int | LevelText string | LevelOther

definition logging_attr :: "string \<Rightarrow> log_level option" where
  "logging_attr =
     map_of [(''CRITICAL'', LevelNo 50), (''FATAL'', LevelNo 50), (''ERROR'', LevelNo 40),
             (''WARNING'', LevelNo 30), (''WARN'', LevelNo 30), (''INFO'', LevelNo 20),
             (''DEBUG'', LevelNo 10), (''NOTSET'', LevelNo 0),
             (''BASIC_FORMAT'', LevelText ''%(levelname)s:%(name)s:%(message)s''),
             (''_STYLES'', LevelOther)]"

definition level_from_env :: "environ \<Rightarrow> string \<Rightarrow> log_level" where
  "level_from_env env def =
     (let raw = map to_upper (case env ''LOG_LEVEL'' of None \<Rightarrow> def | Some v \<Rightarrow> v)
      in case logging_attr raw of None \<Rightarrow> LevelNo 20 | Some l \<Rightarrow> l)"

record logger =
  lg_service :: string
  lg_level :: int

text \<open>\<open>logging.basicConfig\<close> rejects a level that is neither a number nor a known level name.\<close>

definition configure_logging :: "environ \<Rightarrow> string \<Rightarrow> logger outcome" where
  "configure_logging env service_name =
     (if service_name = [] then Inl (ValueError ''service_name must be a non-empty string'')
      else case level_from_env env ''INFO'' of
             LevelNo n \<Rightarrow> Inr \<lparr>lg_service = service_name, lg_level = n\<rparr>
           | LevelText t \<Rightarrow> Inl (ValueError (''Unknown level: '' @ py_repr t))
           | LevelOther \<Rightarrow> Inl (TypeError ''Level not an integer or a valid string''))"

text \<open>
  Whether a call at level \<open>n\<close> does anything: \<open>make_filtering_bound_logger(level)\<close> turns the
  methods below \<open>level\<close> into no-ops.
\<close>

definition level_enabled :: "logger \<Rightarrow> int \<Rightarrow> bool" where
  "level_enabled lg n = (lg_level lg \<le> n)"

abbreviation INFO :: int where
  "INFO \<equiv> 20"

type_synonym log_context = "(string \<times> string) list"

definition bind_request_context :: "(string \<times> string) list \<Rightarrow> log_context \<Rightarrow> log_context" where
  "bind_request_context kvs ctx = fold (\<lambda>(k, v). AList.update k v) kvs ctx"

definition clear_request_context :: "log_context \<Rightarrow> log_context" where
  "clear_request_context ctx = []"

subsection \<open>The service factory\<close>

record app_state =
  app_metrics :: metrics_state
  app_context :: log_context

definition create_service_app :: "environ \<Rightarrow> pyfloat \<Rightarrow> string \<Rightarrow> app_state outcome" where
  "create_service_app env now service_name =
     (if service_name = [] then Inl (ValueError ''service_name must be non-empty'')
      else map_outcome
             (\<lambda>_. \<lparr>app_metrics = MetricsState service_name now, app_context = []\<rparr>)
             (configure_logging env service_name))"

record http_request =
  rq_path :: string
  rq_method :: string

datatype app_event =
    RequestUnhandledException string
  | RequestCompleted nat pyfloat bool

definition internal_error_response :: http_response where
  "internal_error_response =
     \<lparr>status_code = 500, body = Inr (JObj [(''detail'', JStr ''internal server error'')])\<rparr>"

text \<open>
  The middleware. A response or an \<open>Exception\<close> of the application leads to a response, which
  is counted, logged and returned, and the context is cleared. Any other \<open>BaseException\<close> (a
  cancelled request) reaches the \<open>finally\<close> clause with \<open>response\<close> unassigned: the request
  is counted, and then reading \<open>response.status_code\<close> raises, before the log entry and before
  the context is cleared.
\<close>

definition observability_middleware ::
  "http_request \<Rightarrow> (metrics_state \<Rightarrow> 's \<Rightarrow> http_response outcome \<times> 's) \<Rightarrow> pyfloat \<Rightarrow> pyfloat
    \<Rightarrow> app_state \<Rightarrow> 's
    \<Rightarrow> http_response outcome \<times> (log_context \<times> app_event) list \<times> app_state \<times> 's" where
  "observability_middleware req call_next start stop app s =
     (let ctx = bind_request_context [(''path'', rq_path req), (''method'', rq_method req)] (app_context app);
          duration_ms = elapsed_ms start stop;
          (result, s') = call_next (app_metrics app) s;
          finish = (\<lambda>response is_error events.
            (Inr response,
             events @ [(ctx, RequestCompleted (status_code response) (py_round 2 duration_ms) is_error)],
             app\<lparr>app_metrics := record_request duration_ms is_error (app_metrics app),
                 app_context := clear_request_context ctx\<rparr>,
             s'))
      in case result of
           Inr response \<Rightarrow> finish response (500 \<le> status_code response) []
         | Inl e \<Rightarrow>
             if is_Exception e
             then finish internal_error_response True [(ctx, RequestUnhandledException (exn_str e))]
             else (Inl (UnboundLocalError ''response''), [],
                   app\<lparr>app_metrics := record_request duration_ms False (app_metrics app),
                       app_context := ctx\<rparr>,
                   s'))"

definition health :: "string \<Rightarrow> datetime \<Rightarrow> health_status" where
  "health service_name now = HealthStatus service_name now"

definition metrics_endpoint :: "pyfloat \<Rightarrow> metrics_state \<Rightarrow> service_metrics outcome" where
  "metrics_endpoint now m =
     map_outcome
       (\<lambda>snap. \<lparr>sm_service = snap_service snap,
                sm_request_count = snap_request_count snap,
                sm_error_count = snap_error_count snap,
                sm_avg_latency_ms = snap_avg_latency_ms snap,
                sm_uptime_seconds = snap_uptime_seconds snap,
                sm_extra = []\<rparr>)
       (snapshot now m)"

subsection \<open>What the middleware guarantees\<close>

lemmas middleware_defs = observability_middleware_def Let_def clear_request_context_def

definition counts_as_error :: "http_response outcome \<Rightarrow> bool" where
  "counts_as_error r =
     (case r of Inr resp \<Rightarrow> 500 \<le> status_code resp | Inl e \<Rightarrow> is_Exception e)"

lemma middleware_metrics:
  "app_metrics (fst (snd (snd (observability_middleware req call_next start stop app s))))
     = record_request (elapsed_ms start stop)
         (counts_as_error (fst (call_next (app_metrics app) s))) (app_metrics app)"
  by (auto simp: middleware_defs counts_as_error_def split: prod.splits sum.splits)

lemma middleware_state:
  "snd (snd (snd (observability_middleware req call_next start stop app s)))
     = snd (call_next (app_metrics app) s)"
  by (auto simp: middleware_defs split: prod.splits sum.splits)

text \<open>
  C26: the middleware contains every \<open>Exception\<close> of the application. Unless the application
  is cancelled (or ends with another \<open>BaseException\<close> that is no \<open>Exception\<close>), the
  middleware raises nothing: it returns the application's response
  unchanged when there is one and a 500 otherwise, makes exactly one completion log call with that
  status, and leaves an empty logging context. \<open>middleware_cancelled\<close> below is the excluded case.
\<close>

theorem middleware_contains_exceptions:
  assumes "case fst (call_next (app_metrics app) s) of Inl e \<Rightarrow> is_Exception e | Inr _ \<Rightarrow> True"
  shows "\<exists>response events.
      observability_middleware req call_next start stop app s
        = (Inr response, events,
           \<lparr>app_metrics = record_request (elapsed_ms start stop)
              (counts_as_error (fst (call_next (app_metrics app) s))) (app_metrics app),
            app_context = []\<rparr>,
           snd (call_next (app_metrics app) s))
      \<and> (case fst (call_next (app_metrics app) s) of
            Inr r \<Rightarrow> response = r
          | Inl _ \<Rightarrow> response = internal_error_response)
      \<and> length (filter (\<lambda>(_, e). case e of RequestCompleted st _ _ \<Rightarrow> st = status_code response | _ \<Rightarrow> False) events) = 1"
  using assms
  by (cases app) (auto simp: middleware_defs counts_as_error_def internal_error_response_def
      split: prod.splits sum.splits)

definition example_app :: app_state where
  "example_app = \<lparr>app_metrics = MetricsState ''svc'' (Fin 0), app_context = []\<rparr>"

definition example_request :: http_request where
  "example_request = \<lparr>rq_path = ''/x'', rq_method = ''GET''\<rparr>"

theorem middleware_contains_exceptions_witness:
  "\<exists>events app'. observability_middleware example_request (\<lambda>m s. (Inl (ValueError ''boom''), s))
      (Fin 1) (Fin 2) example_app () = (Inr internal_error_response, events, app', ())
    \<and> app_context app' = []"
  using middleware_contains_exceptions [of "\<lambda>m s. (Inl (ValueError ''boom''), s)" example_app "()"
      example_request "Fin 1" "Fin 2"]
  by (auto simp: is_Exception_def)

text \<open>
  A cancelled request is counted but not answered: the middleware raises
  \<open>UnboundLocalError\<close> in place of the cancellation, writes no completion entry, and leaves the
  request's path and method in the logging context.
\<close>

theorem middleware_cancelled:
  assumes "fst (call_next (app_metrics app) s) = Inl CancelledError"
  shows "fst (observability_middleware req call_next start stop app s) = Inl (UnboundLocalError ''response'')
       \<and> fst (snd (observability_middleware req call_next start stop app s)) = []
       \<and> request_count (app_metrics (fst (snd (snd (observability_middleware req call_next start stop app s)))))
           = request_count (app_metrics app) + 1
       \<and> map_of (app_context (fst (snd (snd (observability_middleware req call_next start stop app s))))) ''path''
           = Some (rq_path req)"
  using assms
  by (auto simp: middleware_defs is_Exception_def bind_request_context_def metrics.rec_requests
      update_conv' split: prod.splits)

theorem middleware_cancelled_witness:
  "fst (observability_middleware example_request (\<lambda>m s. (Inl CancelledError, s)) (Fin 1) (Fin 2) example_app ())
     = Inl (UnboundLocalError ''response'')"
  using middleware_cancelled [of "\<lambda>m s. (Inl CancelledError, s)" example_app "()"
      example_request "Fin 1" "Fin 2"] by simp

subsection \<open>A service under a sequence of requests\<close>

text \<open>Each request comes with its handler and the clock readings around it.\<close>

type_synonym 's timed_request =
  "http_request \<times> (metrics_state \<Rightarrow> 's \<Rightarrow> http_response outcome \<times> 's) \<times> pyfloat \<times> pyfloat"

fun serve :: "'s timed_request list \<Rightarrow> app_state \<Rightarrow> 's \<Rightarrow> http_response outcome list \<times> app_state \<times> 's" where
  "serve [] app s = ([], app, s)"
| "serve ((req, call_next, start, stop) # rs) app s =
     (let (r, evs, app1, s1) = observability_middleware req call_next start stop app s;
          (out, app2, s2) = serve rs app1 s1
      in (r # out, app2, s2))"

lemma middleware_count:
  assumes "observability_middleware req call_next start stop app s = (r, evs, app1, s1)"
  shows "request_count (app_metrics app1) = request_count (app_metrics app) + 1
    \<and> error_count (app_metrics app) \<le> error_count (app_metrics app1)
    \<and> error_count (app_metrics app1) \<le> error_count (app_metrics app) + 1
    \<and> service (app_metrics app1) = service (app_metrics app)"
proof -
  have "app_metrics app1 = record_request (elapsed_ms start stop)
      (counts_as_error (fst (call_next (app_metrics app) s))) (app_metrics app)"
    using middleware_metrics [of req call_next start stop app s] assms by simp
  then show ?thesis by (auto simp: metrics.rec_requests metrics.rec_errors)
qed

lemma serve_count:
  "request_count (app_metrics (fst (snd (serve rs app s))))
       = request_count (app_metrics app) + int (length rs)
   \<and> error_count (app_metrics app) \<le> error_count (app_metrics (fst (snd (serve rs app s))))
   \<and> error_count (app_metrics (fst (snd (serve rs app s))))
       \<le> error_count (app_metrics app) + int (length rs)
   \<and> service (app_metrics (fst (snd (serve rs app s)))) = service (app_metrics app)
   \<and> length (fst (serve rs app s)) = length rs"
proof (induction rs arbitrary: app s)
  case (Cons x rs)
  obtain req call_next start stop where x: "x = (req, call_next, start, stop)" by (cases x)
  obtain r evs app1 s1 where m: "observability_middleware req call_next start stop app s = (r, evs, app1, s1)"
    by (metis prod_cases4)
  obtain out app2 s2 where sv: "serve rs app1 s1 = (out, app2, s2)" by (metis prod_cases3)
  from middleware_count [OF m] Cons.IH [of app1 s1] show ?case
    by (auto simp: x m sv)
qed simp

text \<open>
  C35: a service that was started under a non-empty name counts every request exactly once,
  whatever its handlers did: after \<open>n\<close> requests, what \<open>/metrics\<close> answers (when it answers)
  names the service, reports \<open>n\<close> requests, and between 0 and \<open>n\<close> errors.
\<close>

theorem metrics_endpoint_counts:
  assumes "create_service_app env t0 name = Inr app"
    and "metrics_endpoint now (app_metrics (fst (snd (serve rs app s)))) = Inr m"
  shows "sm_service m = name \<and> sm_request_count m = int (length rs)
       \<and> 0 \<le> sm_error_count m \<and> sm_error_count m \<le> int (length rs)"
proof -
  have app: "app_metrics app = MetricsState name t0"
    using assms(1) by (auto simp: create_service_app_def outcome_simps split: if_splits)
  show ?thesis using assms(2) serve_count [of rs app s] app
    by (auto simp: metrics_endpoint_def snapshot_def outcome_simps MetricsState_def)
qed

theorem metrics_endpoint_counts_witness:
  "\<exists>m. metrics_endpoint (Fin 9)
          (app_metrics (fst (snd (serve [(example_request, \<lambda>m s. (Inl (ValueError ''boom''), s), Fin 2, Fin 2)]
             example_app ())))) = Inr m
      \<and> sm_service m = ''svc'' \<and> sm_request_count m = 1 \<and> sm_error_count m \<le> 1"
proof -
  let ?rs = "[(example_request, \<lambda>m s. (Inl (ValueError ''boom''), s), Fin 2, Fin 2)]"
  have c: "create_service_app (\<lambda>_. None) (Fin 0) ''svc'' = Inr example_app"
    by (simp add: create_service_app_def configure_logging_def level_from_env_def logging_attr_def
        example_app_def to_upper_def less_eq_char_def)
  have m: "app_metrics (fst (snd (serve ?rs example_app ())))
      = fold (\<lambda>(d, e). record_request d e) [(elapsed_ms (Fin 2) (Fin 2), True)] (MetricsState ''svc'' (Fin 0))"
    by (simp add: middleware_defs is_Exception_def example_app_def)
  have "Fin 0 \<le> elapsed_ms (Fin 2) (Fin 2)"
    by (simp add: elapsed_ms_def minus_pyfloat_def times_pyfloat_def signed_zero_def)
  then obtain a where "avg_latency_ms (app_metrics (fst (snd (serve ?rs example_app ())))) = Inr a"
    unfolding m using avg_latency_total [of "[(elapsed_ms (Fin 2) (Fin 2), True)]" "''svc''" "Fin 0"]
    by auto
  then have "\<exists>m. metrics_endpoint (Fin 9) (app_metrics (fst (snd (serve ?rs example_app ())))) = Inr m"
    by (simp add: metrics_endpoint_def snapshot_def)
  then show ?thesis using metrics_endpoint_counts [OF c, of "Fin 9" ?rs "()"] by auto
qed

end
