(* ===== verification/HealthCheck.thy ===== *)
theory HealthCheck
  imports FastapiApp
begin

text \<open>
  \<^verbatim>\<open>orchestration/__init__.py\<close> and \<^verbatim>\<open>orchestration/health_check.py\<close>: the list of
  monitored services, built from the environment, and the health probes. The HTTP client is a
  parameter: \<open>get url\<close> is what a request returns and \<open>ord\<close> the order in which the
  concurrent probes finish.

  The locale \<open>prober\<close> is what the recovery watcher and the orchestrator rely on: one result
  per target, in the targets' order.
\<close>

subsection \<open>Targets\<close>

record service_target =
  st_name :: string
  container :: string
  health_url :: string

definition url :: "int \<Rightarrow> string \<Rightarrow> string" where
  "url host_port path = ''http://127.0.0.1:'' @ show_int host_port @ path"

definition make_target :: "string \<Rightarrow> string \<Rightarrow> string \<Rightarrow> service_target" where
  "make_target name cont address = \<lparr>st_name = name, container = cont, health_url = address\<rparr>"

definition default_targets :: "environ \<Rightarrow> service_target list" where
  "default_targets env =
     [make_target ''api-gateway'' ''cm-api-gateway'' (url (env_int env ''API_GATEWAY_PORT'' 8000) ''/health''),
      make_target ''service-a'' ''cm-service-a'' (url (env_int env ''SERVICE_A_PORT'' 8001) ''/health''),
      make_target ''service-b'' ''cm-service-b'' (url (env_int env ''SERVICE_B_PORT'' 8002) ''/health''),
      make_target ''cpp-worker'' ''cm-cpp-worker'' (url (env_int env ''CPP_WORKER_PORT'' 8003) ''/health''),
      make_target ''fault-injector'' ''cm-fault-injector''
        (url (env_int env ''FAULT_INJECTOR_PORT'' 8004) ''/health'')]"

definition compose_project_name :: "environ \<Rightarrow> string" where
  "compose_project_name env = env_str env ''COMPOSE_PROJECT_NAME'' ''cloud-microservices''"

lemma default_target_names:
  "map st_name (default_targets env)
     = [''api-gateway'', ''service-a'', ''service-b'', ''cpp-worker'', ''fault-injector'']"
  by (simp add: default_targets_def make_target_def)

lemma default_target_containers:
  "\<forall>t\<in>set (default_targets env). container t = ''cm-'' @ st_name t"
  by (simp add: default_targets_def make_target_def)

lemma default_targets_distinct: "distinct (map st_name (default_targets env))"
  by (simp add: default_target_names)

subsection \<open>Probes\<close>

record health_result =
  hr_target :: service_target
  hr_ok :: bool
  hr_detail :: string

definition probe_one ::
  "raise_for_status \<Rightarrow> (string \<Rightarrow> http_response outcome) \<Rightarrow> service_target \<Rightarrow> health_result outcome" where
  "probe_one rfs get t =
     (case get_checked rfs (get (health_url t)) of
        Inr _ \<Rightarrow> Inr \<lparr>hr_target = t, hr_ok = True, hr_detail = ''ok''\<rparr>
      | Inl e \<Rightarrow>
          if is_HTTPError e
          then Inr \<lparr>hr_target = t, hr_ok = False, hr_detail = exn_str e\<rparr>
          else Inl e)"

definition probe_all ::
  "raise_for_status \<Rightarrow> (string \<Rightarrow> http_response outcome) \<Rightarrow> nat list \<Rightarrow> service_target list
    \<Rightarrow> health_result list outcome" where
  "probe_all rfs get ord ts = gather ord (map (probe_one rfs get) ts)"

text \<open>
  The command-line check: log every result, and answer 0 only if all are healthy. The log
  entries are the name, the URL and the result of each target.
\<close>

fun check_results :: "health_result list \<Rightarrow> bool \<Rightarrow> (string \<times> string \<times> bool \<times> string) list \<times> bool" where
  "check_results [] all_ok = ([], all_ok)"
| "check_results (r # rs) all_ok =
     (let (entries, final) = check_results rs (all_ok \<and> hr_ok r)
      in ((st_name (hr_target r), health_url (hr_target r), hr_ok r, hr_detail r) # entries, final))"

definition health_main ::
  "environ \<Rightarrow> raise_for_status \<Rightarrow> (string \<Rightarrow> http_response outcome) \<Rightarrow> nat list
    \<Rightarrow> ((string \<times> string \<times> bool \<times> string) list \<times> int) outcome" where
  "health_main env rfs get ord =
     and_then (configure_logging env ''health-check'')
       (\<lambda>_. map_outcome
          (\<lambda>rs. let (entries, all_ok) = check_results rs True in (entries, if all_ok then 0 else 1))
          (probe_all rfs get ord (default_targets env)))"

subsection \<open>What the probes guarantee\<close>

lemma probe_one_target: "probe_one rfs get t = Inr r \<Longrightarrow> hr_target r = t"
  by (auto simp: probe_one_def split: sum.splits if_splits)

lemma probe_one_ok:
  "raises_on_error rfs \<Longrightarrow> probe_one rfs get t = Inr r \<Longrightarrow>
   hr_ok r \<longleftrightarrow> (\<exists>resp. get (health_url t) = Inr resp \<and> is_success (status_code resp))"
  by (auto simp: probe_one_def get_checked_Inr split: sum.splits if_splits)
     (metis get_checked_Inr Inl_Inr_False)+

lemma probe_one_answers:
  assumes "raises_on_error rfs" and "\<And>e. get (health_url t) = Inl e \<Longrightarrow> is_HTTPError e"
  shows "\<exists>r. probe_one rfs get t = Inr r"
  using assms by (auto simp: probe_one_def get_checked_Inl split: sum.splits dest: raises_on_error_Inl)

locale prober =
  fixes probe :: "service_target list \<Rightarrow> health_result list outcome"
  assumes probe_targets: "probe ts = Inr rs \<Longrightarrow> map hr_target rs = ts"
begin

lemma probe_length: "probe ts = Inr rs \<Longrightarrow> length rs = length ts"
  by (auto dest: probe_targets)

lemma probe_member: "probe ts = Inr rs \<Longrightarrow> r \<in> set rs \<Longrightarrow> hr_target r \<in> set ts"
  by (auto dest!: probe_targets)

lemma failed_names:
  "probe ts = Inr rs \<Longrightarrow>
   set (map (\<lambda>r. st_name (hr_target r)) (filter (\<lambda>r. \<not> hr_ok r) rs)) \<subseteq> st_name ` set ts"
  by (auto dest!: probe_targets)

end

interpretation probes: prober "probe_all rfs get ord" for rfs get ord
proof
  fix ts rs
  assume "probe_all rfs get ord ts = Inr rs"
  then have "length rs = length ts" and "\<forall>i<length ts. probe_one rfs get (ts ! i) = Inr (rs ! i)"
    by (auto simp: probe_all_def gather.collect_map)
  then show "map hr_target rs = ts"
    by (auto simp: list_eq_iff_nth_eq dest: probe_one_target)
qed

lemma check_results_eq:
  "check_results rs b
     = (map (\<lambda>r. (st_name (hr_target r), health_url (hr_target r), hr_ok r, hr_detail r)) rs,
        b \<and> list_all hr_ok rs)"
  by (induction rs arbitrary: b) simp_all

text \<open>The verdict a probe has to reach: the service answered with a success status.\<close>

definition answers_ok :: "(string \<Rightarrow> http_response outcome) \<Rightarrow> service_target \<Rightarrow> bool" where
  "answers_ok get t =
     (case get (health_url t) of Inr resp \<Rightarrow> is_success (status_code resp) | Inl _ \<Rightarrow> False)"

text \<open>The client fails with HTTP errors only (connection, timeout, status), as httpx documents.\<close>

definition http_client :: "(string \<Rightarrow> http_response outcome) \<Rightarrow> bool" where
  "http_client get = (\<forall>u e. get u = Inl e \<longrightarrow> is_HTTPError e)"

text \<open>The answers of the services decode as JSON.\<close>

definition json_bodies :: "(string \<Rightarrow> http_response outcome) \<Rightarrow> bool" where
  "json_bodies get = (\<forall>u resp. get u = Inr resp \<longrightarrow> (\<exists>j. body resp = Inr j))"

text \<open>The service behind an address answers with a success status.\<close>

definition url_answers :: "(string \<Rightarrow> http_response outcome) \<Rightarrow> string \<Rightarrow> bool" where
  "url_answers get u = (case get u of Inr resp \<Rightarrow> is_success (status_code resp) | Inl _ \<Rightarrow> False)"

lemma probe_all_verdicts:
  assumes rfs: "raises_on_error rfs" and get: "http_client get"
  shows "\<exists>rs. probe_all rfs get ord ts = Inr rs \<and> map hr_target rs = ts
    \<and> map hr_ok rs = map (answers_ok get) ts"
proof -
  have "\<forall>t\<in>set ts. \<exists>r. probe_one rfs get t = Inr r"
    using rfs get probe_one_answers unfolding http_client_def by blast
  then obtain rs where rs: "probe_all rfs get ord ts = Inr rs"
    unfolding probe_all_def using gather.collect_never_fails by blast
  then have nth: "length rs = length ts" "\<forall>i<length ts. probe_one rfs get (ts ! i) = Inr (rs ! i)"
    by (auto simp: probe_all_def gather.collect_map)
  have "hr_ok (rs ! i) = answers_ok get (ts ! i)" if "i < length ts" for i
    using probe_one_ok [OF rfs] nth that by (auto simp: answers_ok_def split: sum.splits)
  then have "map hr_ok rs = map (answers_ok get) ts"
    using nth(1) by (intro nth_equalityI) auto
  with rs probes.probe_targets [OF rs] show ?thesis by blast
qed

text \<open>
  The concurrent probe of all services. If the HTTP client only fails with HTTP errors, a
  probe round always completes, yields one result per target in order whatever order the
  responses arrive in, and reports a target healthy exactly if it answered with a success status.
\<close>

theorem probe_all_reports:
  assumes "raises_on_error rfs" and "http_client get"
  shows "\<exists>rs. probe_all rfs get ord ts = Inr rs \<and> map hr_target rs = ts
    \<and> map hr_ok rs = map (answers_ok get) ts"
  by (rule probe_all_verdicts [OF assms])

text \<open>Two services, one up and one refusing connections, answering in reverse order.\<close>

definition sample_get :: "string \<Rightarrow> http_response outcome" where
  "sample_get u = (if u = ''http://a/health'' then Inr \<lparr>status_code = 200, body = Inr JNull\<rparr>
                   else Inl (RequestError ''connection refused''))"

lemma sample_get_client: "http_client sample_get"
  by (simp add: http_client_def sample_get_def)

lemma probe_all_reports_witness:
  "\<exists>rs. probe_all plain_rfs sample_get [1, 0]
          [make_target ''a'' ''cm-a'' ''http://a/health'', make_target ''b'' ''cm-b'' ''http://b/health''] = Inr rs
      \<and> map hr_ok rs = [True, False]"
  using probe_all_reports [of plain_rfs sample_get "[1, 0]"
      "[make_target ''a'' ''cm-a'' ''http://a/health'', make_target ''b'' ''cm-b'' ''http://b/health'']"]
  by (auto simp: plain_rfs_raises sample_get_client answers_ok_def sample_get_def make_target_def is_success_def)

end
