(* ===== verification/FanOut.thy ===== *)
theory FanOut
  imports Scheduler HealthCheck "HOL-Library.Multiset"
begin

text \<open>
  \<open>fan_out_to_service_b\<close> of \<^verbatim>\<open>services/service-a/app/worker.py\<close>: one task per item,
  a semaphore that bounds the requests in flight, and a gather over the tasks.

  A \<open>fan_state\<close> is the semaphore's value, the queue of tasks waiting for it (first come, first
  served), the tasks with a request in flight, and the log of finished tasks in the order in time
  in which they finished. Which request finishes next is up to the network: \<open>Complete i\<close> is
  enabled for every task in flight. The gather returns from the log: the first failure as soon as
  there is one (the other tasks go on), the values when all tasks have finished.
\<close>

subsection \<open>One task's request\<close>

text \<open>
  The HTTP client as a function of the address and the JSON body; \<open>post\<close> is what
  \<open>client.post\<close> returns or raises.
\<close>

type_synonym http_post = "string \<Rightarrow> json \<Rightarrow> http_response outcome"

definition read_result :: "json \<Rightarrow> pyfloat outcome" where
  "read_result data = and_then (json_item ''result'' data) json_to_float"

definition one ::
  "raise_for_status \<Rightarrow> http_post \<Rightarrow> string \<Rightarrow> nat \<Rightarrow> pyfloat \<Rightarrow> pyfloat outcome" where
  "one rfs post service_b_url idx v =
     and_then (get_checked rfs
                 (post (service_b_url @ ''/squared'')
                    (JObj [(''key'', JStr (''item-'' @ show_int (int idx))), (''value'', JFloat v)])))
       (\<lambda>response. and_then (body response) read_result)"

subsection \<open>Tasks and the semaphore\<close>

record 'b fan_state =
  semaphore :: nat
  waiting :: "nat list"
  inflight :: "nat list"
  finished :: "(nat \<times> 'b outcome) list"

datatype fan_action = Acquire | Complete nat

definition fan_init :: "int \<Rightarrow> nat \<Rightarrow> 'b fan_state" where
  "fan_init concurrency n =
     \<lparr>semaphore = nat (max 1 concurrency), waiting = [0..<n], inflight = [], finished = []\<rparr>"

definition fan_enabled :: "'b fan_state \<Rightarrow> fan_action list" where
  "fan_enabled st =
     (if 0 < semaphore st \<and> waiting st \<noteq> [] then [Acquire] else []) @ map Complete (inflight st)"

fun fan_act :: "'b outcome list \<Rightarrow> fan_action \<Rightarrow> 'b fan_state \<Rightarrow> 'b fan_state" where
  "fan_act calls Acquire st =
     st\<lparr>semaphore := semaphore st - 1, waiting := tl (waiting st),
        inflight := inflight st @ [hd (waiting st)]\<rparr>"
| "fan_act calls (Complete i) st =
     st\<lparr>semaphore := semaphore st + 1, inflight := remove1 i (inflight st),
        finished := finished st @ [(i, calls ! i)]\<rparr>"

fun first_error :: "(nat \<times> 'b outcome) list \<Rightarrow> exn option" where
  "first_error [] = None"
| "first_error ((_, Inl e) # ps) = Some e"
| "first_error ((_, Inr _) # ps) = first_error ps"

text \<open>What the gather has returned so far; \<open>None\<close> while it waits.\<close>

definition fan_returned :: "nat \<Rightarrow> 'b fan_state \<Rightarrow> 'b list outcome option" where
  "fan_returned n st =
     (case first_error (finished st) of
        Some e \<Rightarrow> Some (Inl e)
      | None \<Rightarrow>
          if length (finished st) = n
          then Some (results (map (\<lambda>i. the (map_of (finished st) i)) [0..<n]))
          else None)"

text \<open>Every action is one acquisition or one completion: twice the tasks is fuel enough.\<close>

definition fan_run :: "(nat \<Rightarrow> nat) \<Rightarrow> int \<Rightarrow> 'b outcome list \<Rightarrow> 'b fan_state" where
  "fan_run pick concurrency calls =
     drive fan_enabled (fan_act calls) pick (2 * length calls) (fan_init concurrency (length calls))"

definition fan_out ::
  "(nat \<Rightarrow> nat) \<Rightarrow> int \<Rightarrow> (nat \<Rightarrow> 'a \<Rightarrow> 'b outcome) \<Rightarrow> 'a list \<Rightarrow> 'b list outcome option" where
  "fan_out pick concurrency f xs =
     fan_returned (length xs) (fan_run pick concurrency (item_outcomes f xs))"

definition fan_out_to_service_b ::
  "(nat \<Rightarrow> nat) \<Rightarrow> raise_for_status \<Rightarrow> http_post \<Rightarrow> string \<Rightarrow> int \<Rightarrow> pyfloat list
    \<Rightarrow> pyfloat list outcome option" where
  "fan_out_to_service_b pick rfs post service_b_url concurrency xs =
     fan_out pick concurrency (one rfs post service_b_url) xs"

subsection \<open>The invariant\<close>

text \<open>
  The semaphore's value and the requests in flight add up to the bound; the tasks not yet let
  through are the last ones; every other task is either in flight or in the log, once, and the
  log shows each task's own outcome.
\<close>

definition fan_inv :: "nat \<Rightarrow> 'b outcome list \<Rightarrow> 'b fan_state \<Rightarrow> bool" where
  "fan_inv bound calls st =
     (semaphore st + length (inflight st) = bound \<and>
      (\<exists>k\<le>length calls. waiting st = [k..<length calls] \<and>
         mset (inflight st) + mset (map fst (finished st)) = mset [0..<k]) \<and>
      (\<forall>(i, r)\<in>set (finished st). r = calls ! i))"

definition fan_left :: "'b fan_state \<Rightarrow> nat" where
  "fan_left st = 2 * length (waiting st) + length (inflight st)"

lemma fan_init_inv: "fan_inv (nat (max 1 c)) calls (fan_init c (length calls))"
  by (auto simp: fan_inv_def fan_init_def)

lemma fan_act_inv:
  assumes inv: "fan_inv bound calls st" and a: "a \<in> set (fan_enabled st)"
  shows "fan_inv bound calls (fan_act calls a st)"
proof -
  obtain k where k: "k \<le> length calls" "waiting st = [k..<length calls]"
    "mset (inflight st) + mset (map fst (finished st)) = mset [0..<k]"
    and sem: "semaphore st + length (inflight st) = bound"
    and own: "\<forall>(i, r)\<in>set (finished st). r = calls ! i"
    using inv unfolding fan_inv_def by blast
  show ?thesis
  proof (cases a)
    case Acquire
    then have "0 < semaphore st" "k < length calls"
      using a k by (auto simp: fan_enabled_def split: if_splits)
    then have "semaphore (fan_act calls a st) + length (inflight (fan_act calls a st)) = bound"
      "Suc k \<le> length calls" "waiting (fan_act calls a st) = [Suc k..<length calls]"
      "mset (inflight (fan_act calls a st)) + mset (map fst (finished (fan_act calls a st))) = mset [0..<Suc k]"
      using Acquire k sem by (simp_all add: upt_conv_Cons)
    then show ?thesis unfolding fan_inv_def
      by (intro conjI exI [of _ "Suc k"]) (use own Acquire in simp_all)
  next
    case (Complete i)
    then have i: "i \<in> set (inflight st)"
      using a by (auto simp: fan_enabled_def split: if_splits)
    then have len: "Suc (length (remove1 i (inflight st))) = length (inflight st)"
      using length_pos_if_in_set [OF i] by (simp add: length_remove1)
    have "mset (inflight st) = add_mset i (mset (remove1 i (inflight st)))" using i by simp
    with len have "semaphore (fan_act calls a st) + length (inflight (fan_act calls a st)) = bound"
      "mset (inflight (fan_act calls a st)) + mset (map fst (finished (fan_act calls a st))) = mset [0..<k]"
      using Complete sem k(3) by (simp_all del: mset_upt mset_remove1)
    then show ?thesis unfolding fan_inv_def
      by (intro conjI exI [of _ k]) (use own k Complete in auto)
  qed
qed

lemma fan_act_less:
  assumes "fan_inv bound calls st" and a: "a \<in> set (fan_enabled st)"
  shows "fan_left (fan_act calls a st) < fan_left st"
proof (cases a)
  case Acquire
  then show ?thesis using a
    by (cases "waiting st") (auto simp: fan_enabled_def fan_left_def)
next
  case (Complete i)
  then have "i \<in> set (inflight st)" using a by (auto simp: fan_enabled_def split: if_splits)
  with Complete length_pos_if_in_set [OF this] show ?thesis
    by (simp add: fan_left_def length_remove1)
qed

interpretation fan: scheduled fan_enabled "fan_act calls" "fan_inv bound calls" fan_left
  for calls bound
  by unfold_locales (auto intro: fan_act_inv fan_act_less)

subsection \<open>What a run ends with\<close>

lemma fan_final:
  assumes inv: "fan_inv (nat (max 1 c)) calls st" and fin: "fan_enabled st = []"
  shows "waiting st = []" and "inflight st = []"
    and "mset (map fst (finished st)) = mset [0..<length calls]"
proof -
  show i: "inflight st = []" using fin by (simp add: fan_enabled_def split: if_splits)
  have "0 < semaphore st" using inv i by (simp add: fan_inv_def)
  then show w: "waiting st = []" using fin by (simp add: fan_enabled_def split: if_splits)
  obtain k where "k \<le> length calls" "[] = [k..<length calls]"
    "mset (inflight st) + mset (map fst (finished st)) = mset [0..<k]"
    using inv w unfolding fan_inv_def by auto
  moreover from this(1,2) have "k = length calls"
    by (cases "k < length calls") (auto simp: upt_conv_Cons)
  ultimately show "mset (map fst (finished st)) = mset [0..<length calls]" using i by simp
qed

lemma first_error_None: "first_error ps = None \<longleftrightarrow> (\<forall>(i, r)\<in>set ps. \<exists>x. r = Inr x)"
  by (induction ps rule: first_error.induct) auto

lemma first_error_member: "first_error ps = Some e \<Longrightarrow> \<exists>i. (i, Inl e) \<in> set ps"
  by (induction ps rule: first_error.induct) auto

text \<open>The gather over the log is \<open>gather\<close> with the log's order of completion.\<close>

lemma first_error_gather:
  "\<forall>(i, r)\<in>set ps. i < length calls \<and> r = calls ! i \<Longrightarrow>
   first_error ps = first_failure (map fst ps) calls"
  by (induction ps rule: first_error.induct) (auto split: sum.splits)

lemma fan_returned_gather:
  assumes inv: "fan_inv (nat (max 1 c)) calls st" and fin: "fan_enabled st = []"
  shows "fan_returned (length calls) st = Some (gather (map fst (finished st)) calls)"
proof -
  note perm = fan_final(3) [OF inv fin]
  have set: "fst ` set (finished st) = {0..<length calls}"
    using arg_cong [OF perm, of set_mset] by simp
  have "i < length calls \<and> r = calls ! i" if p: "(i, r) \<in> set (finished st)" for i r
  proof -
    have "i \<in> fst ` set (finished st)" using p by force
    with inv p set show ?thesis unfolding fan_inv_def by auto
  qed
  then have own: "\<forall>(i, r)\<in>set (finished st). i < length calls \<and> r = calls ! i" by blast
  have len: "length (finished st) = length calls"
    using arg_cong [OF perm, of size] by simp
  have dist: "distinct (map fst (finished st))"
    using perm mset_eq_imp_distinct_iff distinct_upt by metis
  have "the (map_of (finished st) i) = calls ! i" if "i < length calls" for i
  proof -
    from that set obtain r where "(i, r) \<in> set (finished st)" by force
    with dist own show ?thesis by auto
  qed
  then have "map (\<lambda>i. the (map_of (finished st) i)) [0..<length calls] = calls"
    by (intro nth_equalityI) auto
  with len first_error_gather [OF own] show ?thesis
    by (simp add: fan_returned_def gather_def split: option.splits)
qed

lemma fan_run_reachable:
  "reachable fan_enabled (fan_act calls) (fan_init c (length calls)) (fan_run pick c calls)"
  unfolding fan_run_def by (rule drive_reachable)

lemma fan_run_inv: "fan_inv (nat (max 1 c)) calls (fan_run pick c calls)"
  by (rule fan.reachable_inv [OF fan_run_reachable fan_init_inv])

lemma fan_run_ends: "fan_enabled (fan_run pick c calls) = []"
  unfolding fan_run_def
  by (rule fan.drive_ends [OF fan_init_inv]) (simp add: fan_left_def fan_init_def)

lemma fan_out_gather:
  "fan_out pick c f xs
     = Some (gather (map fst (finished (fan_run pick c (item_outcomes f xs)))) (item_outcomes f xs))"
  using fan_returned_gather [OF fan_run_inv [of c "item_outcomes f xs" pick] fan_run_ends]
  by (simp add: fan_out_def)

lemma fan_run_order:
  "mset (map fst (finished (fan_run pick c calls))) = mset [0..<length calls]"
  by (rule fan_final(3) [OF fan_run_inv fan_run_ends])

text \<open>With every task in the order, a failing task is found.\<close>

lemma gather_failure:
  assumes "Inl e \<in> set rs" and "set ord = {0..<length rs}"
  shows "\<exists>e'. Inl e' \<in> set rs \<and> gather ord rs = Inl e'"
proof (cases "gather ord rs")
  case (Inr ys)
  with assms(1) show ?thesis by (auto simp: gather.collect_Inr_iff)
qed (use gather.collect_failure in blast)

interpretation fan_pipeline: pipeline "fan_out pick c" "\<lambda>_. True" for pick c
proof
  fix f :: "nat \<Rightarrow> 'a \<Rightarrow> 'b outcome" and xs ys e
  show "item_outcomes f xs = map Inr ys \<Longrightarrow> fan_out pick c f xs = Some (Inr ys)"
    by (simp add: fan_out_gather gather.collect_values)
  assume e: "Inl e \<in> set (item_outcomes f xs)"
  have "set (map fst (finished (fan_run pick c (item_outcomes f xs)))) = {0..<length (item_outcomes f xs)}"
    using arg_cong [OF fan_run_order [where pick = pick and c = c and calls = "item_outcomes f xs"], of set_mset] by simp
  from gather_failure [OF e this]
  show "\<exists>e'. Inl e' \<in> set (item_outcomes f xs) \<and> fan_out pick c f xs = Some (Inl e')"
    by (simp add: fan_out_gather)
qed

subsection \<open>Properties\<close>

text \<open>
  C8: the fan-out returns, whatever order the network answers in, exactly what a gather over
  the items' requests returns for the order in which they finished, and every item's request is
  made and finishes exactly once: the values in the order of the items if all succeed, otherwise
  the exception of the request that failed first.
\<close>

theorem fan_out_matches_gather:
  "fan_out_to_service_b pick rfs post address c xs
     = Some (gather (map fst (finished (fan_run pick c (item_outcomes (one rfs post address) xs))))
               (item_outcomes (one rfs post address) xs))
   \<and> mset (map fst (finished (fan_run pick c (item_outcomes (one rfs post address) xs)))) = mset [0..<length xs]"
  using fan_run_order [where pick = pick and c = c and calls = "item_outcomes (one rfs post address) xs"]
  by (simp add: fan_out_to_service_b_def fan_out_gather)

text \<open>
  C12: the semaphore bounds the requests in flight. In every state that some interleaving of the
  tasks reaches, at most \<open>max(1, concurrency)\<close> requests are in flight, none is in flight twice,
  and the tasks that have not yet started are the last of the list, in order.
\<close>

theorem fan_out_bounded:
  assumes "reachable fan_enabled (fan_act calls) (fan_init c (length calls)) st"
  shows "length (inflight st) \<le> nat (max 1 c) \<and> distinct (inflight st)
       \<and> waiting st = [length calls - length (waiting st)..<length calls]"
proof -
  have inv: "fan_inv (nat (max 1 c)) calls st" by (rule fan.reachable_inv [OF assms fan_init_inv])
  then obtain k where k: "k \<le> length calls" "waiting st = [k..<length calls]"
    "mset (inflight st @ map fst (finished st)) = mset [0..<k]"
    and s: "semaphore st + length (inflight st) = nat (max 1 c)"
    unfolding fan_inv_def by (auto simp del: mset_upt)
  have "distinct (inflight st @ map fst (finished st))"
    using mset_eq_imp_distinct_iff [OF k(3)] by (simp only: distinct_upt)
  with k s show ?thesis by simp
qed

lemma fan_out_bounded_witness:
  "let st = drive fan_enabled (fan_act [Inr True, Inr False, Inr True]) (\<lambda>_. 0) 2 (fan_init 2 3)
   in length (inflight st) = 2 \<and> length (inflight st) \<le> nat (max 1 2) \<and> waiting st = [2]"
  using fan_out_bounded [of "[Inr True, Inr False, Inr True]" 2
      "drive fan_enabled (fan_act [Inr True, Inr False, Inr True]) (\<lambda>_. 0) 2 (fan_init 2 3)"]
    drive_reachable [of fan_enabled "fan_act [Inr True, Inr False, Inr True]" "fan_init 2 3" "\<lambda>_. 0" 2]
  by (simp add: fan_init_def fan_enabled_def numeral_eq_Suc)

text \<open>
  C27: the fan-out makes progress. No interleaving is infinite; a state in which the gather still
  waits has an action; and when no action is left the gather has returned.
\<close>

theorem fan_out_progress:
  "(\<nexists>run. run (0 :: nat) = fan_init c (length calls)
      \<and> (\<forall>i. \<exists>a\<in>set (fan_enabled (run i)). run (Suc i) = fan_act calls a (run i)))
   \<and> (\<nexists>st. reachable fan_enabled (fan_act calls) (fan_init c (length calls)) st
      \<and> fan_returned (length calls) st = None \<and> fan_enabled st = [])"
proof (intro conjI notI)
  assume "\<exists>run. run (0 :: nat) = fan_init c (length calls)
      \<and> (\<forall>i. \<exists>a\<in>set (fan_enabled (run i)). run (Suc i) = fan_act calls a (run i))"
  then obtain run where "run (0 :: nat) = fan_init c (length calls)"
    and step: "\<forall>i. \<exists>a\<in>set (fan_enabled (run i)). run (Suc i) = fan_act calls a (run i)" by blast
  then have "fan_inv (nat (max 1 c)) calls (run 0)" by (simp add: fan_init_inv)
  from fan.no_infinite_schedule [where run = run, OF this] step show False by blast
next
  assume "\<exists>st. reachable fan_enabled (fan_act calls) (fan_init c (length calls)) st
      \<and> fan_returned (length calls) st = None \<and> fan_enabled st = []"
  then obtain st where "reachable fan_enabled (fan_act calls) (fan_init c (length calls)) st"
    and none: "fan_returned (length calls) st = None" "fan_enabled st = []" by blast
  from fan.reachable_inv [OF this(1) fan_init_inv] none show False
    using fan_returned_gather by fastforce
qed

text \<open>
  A failing fan-out does not wait for its other requests, nor cancel them. With two requests
  allowed at a time, one can still be in flight, and a third not yet started, when the first
  failure has already been raised to the caller.
\<close>

theorem failed_fan_out_leaves_requests:
  "\<exists>st. reachable fan_enabled (fan_act [Inl (RequestError ''refused''), Inr True, Inr False]) (fan_init 2 3) st
      \<and> fan_returned 3 st = Some (Inl (RequestError ''refused''))
      \<and> inflight st = [1] \<and> waiting st = [2]"
proof -
  let ?act = "fan_act [Inl (RequestError ''refused''), Inr True, Inr False]"
  let ?st = "\<lparr>semaphore = 1, waiting = [2], inflight = [1], finished = [(0, Inl (RequestError ''refused''))]\<rparr>"
  have "drive fan_enabled ?act (\<lambda>n. 0) 3 (fan_init 2 3) = ?st"
    by (simp add: fan_init_def fan_enabled_def numeral_eq_Suc)
  then have "reachable fan_enabled ?act (fan_init 2 3) ?st"
    using drive_reachable [of fan_enabled ?act "fan_init 2 3" "\<lambda>n. 0" 3] by simp
  then show ?thesis by (intro exI [of _ ?st]) (simp add: fan_returned_def)
qed

end
