(* ===== verification/QueuePipeline.thy ===== *)
theory QueuePipeline
  imports FanOut
begin

text \<open>
  \<open>queue_pipeline\<close> of \<^verbatim>\<open>services/service-a/app/worker.py\<close>: consumers that take the
  items from an \<open>asyncio.Queue\<close>, apply the work function and record the result or the failure.

  A \<open>queue_state\<close> holds the queue, the result slots, the failures in the order in time, the
  queue's count of unfinished items, the consumers and the error log. A consumer is waiting in
  \<open>queue.get()\<close>, working on an item, or ended: an exception that is no \<open>Exception\<close> (a
  cancellation) passes the \<open>except\<close> clause, so it ends the consumer without a record in
  \<open>failures\<close>. \<open>queue.join()\<close> returns when no item is unfinished; then the consumers are
  cancelled, and no action is enabled any more.
\<close>

subsection \<open>State and steps\<close>

datatype 'a consumer = Waiting | Working nat 'a | Ended

record ('a, 'b) queue_state =
  queue :: "(nat \<times> 'a) list"
  slots :: "'b option list"
  failures :: "exn list"
  unfinished :: nat
  consumers :: "'a consumer list"
  error_log :: "(nat \<times> nat \<times> string) list"

datatype queue_action = Get nat | Finish nat

definition queue_init :: "int \<Rightarrow> 'a list \<Rightarrow> ('a, 'b) queue_state" where
  "queue_init workers xs =
     \<lparr>queue = List.enumerate 0 xs, slots = replicate (length xs) None, failures = [],
      unfinished = length xs, consumers = replicate (nat (max 1 workers)) Waiting, error_log = []\<rparr>"

fun consumer_actions :: "bool \<Rightarrow> nat \<Rightarrow> 'a consumer \<Rightarrow> queue_action list" where
  "consumer_actions available w Waiting = (if available then [Get w] else [])"
| "consumer_actions available w (Working i x) = [Finish w]"
| "consumer_actions available w Ended = []"

definition queue_enabled :: "('a, 'b) queue_state \<Rightarrow> queue_action list" where
  "queue_enabled st =
     (if unfinished st = 0 then []
      else concat (map (\<lambda>(w, c). consumer_actions (queue st \<noteq> []) w c) (List.enumerate 0 (consumers st))))"

definition task_done :: "('a, 'b) queue_state \<Rightarrow> ('a, 'b) queue_state" where
  "task_done st = st\<lparr>unfinished := unfinished st - 1\<rparr>"

fun queue_act ::
  "(nat \<Rightarrow> 'a \<Rightarrow> 'b outcome) \<Rightarrow> queue_action \<Rightarrow> ('a, 'b) queue_state \<Rightarrow> ('a, 'b) queue_state" where
  "queue_act work_fn (Get w) st =
     (case queue st of
        [] \<Rightarrow> st
      | (i, x) # q \<Rightarrow> st\<lparr>queue := q, consumers := (consumers st)[w := Working i x]\<rparr>)"
| "queue_act work_fn (Finish w) st =
     (case consumers st ! w of
        Working i x \<Rightarrow>
          (case work_fn i x of
             Inr y \<Rightarrow> task_done (st\<lparr>slots := (slots st)[i := Some y], consumers := (consumers st)[w := Waiting]\<rparr>)
           | Inl e \<Rightarrow>
               if is_Exception e
               then task_done (st\<lparr>failures := failures st @ [e], error_log := error_log st @ [(w, i, exn_str e)],
                                  consumers := (consumers st)[w := Waiting]\<rparr>)
               else task_done (st\<lparr>consumers := (consumers st)[w := Ended]\<rparr>))
      | _ \<Rightarrow> st)"

text \<open>The end of the function, after the join; \<open>zero\<close> is the value of an unfilled slot.\<close>

definition queue_returned :: "'b \<Rightarrow> ('a, 'b) queue_state \<Rightarrow> 'b list outcome option" where
  "queue_returned zero st =
     (if unfinished st \<noteq> 0 then None
      else Some (case failures st of
                   e # _ \<Rightarrow> Inl e
                 | [] \<Rightarrow> Inr (map (\<lambda>r. case r of Some y \<Rightarrow> y | None \<Rightarrow> zero) (slots st))))"

text \<open>An item is taken once and finished once: twice the items is fuel enough.\<close>

definition queue_run ::
  "(nat \<Rightarrow> nat) \<Rightarrow> int \<Rightarrow> (nat \<Rightarrow> 'a \<Rightarrow> 'b outcome) \<Rightarrow> 'a list \<Rightarrow> ('a, 'b) queue_state" where
  "queue_run pick workers work_fn xs =
     drive queue_enabled (queue_act work_fn) pick (2 * length xs) (queue_init workers xs)"

definition queue_pipeline ::
  "(nat \<Rightarrow> nat) \<Rightarrow> 'b \<Rightarrow> int \<Rightarrow> (nat \<Rightarrow> 'a \<Rightarrow> 'b outcome) \<Rightarrow> 'a list \<Rightarrow> 'b list outcome option" where
  "queue_pipeline pick zero workers work_fn xs = queue_returned zero (queue_run pick workers work_fn xs)"

subsection \<open>The invariant\<close>

text \<open>
  Items in the queue, in a consumer's hands, and finished. \<open>finished_items\<close> is the set of the
  items that are neither queued nor held; the invariant says what the slots and failures hold for
  them.
\<close>

fun holding :: "'a consumer \<Rightarrow> (nat \<times> 'a) list" where
  "holding (Working i x) = [(i, x)]"
| "holding _ = []"

definition held :: "('a, 'b) queue_state \<Rightarrow> (nat \<times> 'a) list" where
  "held st = concat (map holding (consumers st))"

definition open_items :: "('a, 'b) queue_state \<Rightarrow> (nat \<times> 'a) list" where
  "open_items st = held st @ queue st"

definition queue_inv :: "nat \<Rightarrow> (nat \<Rightarrow> 'a \<Rightarrow> 'b outcome) \<Rightarrow> 'a list \<Rightarrow> ('a, 'b) queue_state \<Rightarrow> bool" where
  "queue_inv n work_fn xs st =
     (length (consumers st) = n \<and> length (slots st) = length xs \<and>
      unfinished st = length (open_items st) \<and>
      distinct (map fst (open_items st)) \<and>
      (\<forall>(i, x)\<in>set (open_items st). i < length xs \<and> x = xs ! i) \<and>
      (\<forall>i<length xs. slots st ! i =
         (if i \<in> fst ` set (open_items st) then None
          else case work_fn i (xs ! i) of Inr y \<Rightarrow> Some y | Inl _ \<Rightarrow> None)) \<and>
      set (failures st) =
        {e. is_Exception e \<and> (\<exists>i<length xs. i \<notin> fst ` set (open_items st) \<and> work_fn i (xs ! i) = Inl e)} \<and>
      ((\<forall>i<length xs. \<forall>e. work_fn i (xs ! i) = Inl e \<longrightarrow> is_Exception e) \<longrightarrow> Ended \<notin> set (consumers st)))"

definition queue_left :: "('a, 'b) queue_state \<Rightarrow> nat" where
  "queue_left st = 2 * length (queue st) + length (held st)"

lemma enabled_Get:
  "Get w \<in> set (queue_enabled st) \<longleftrightarrow>
   unfinished st \<noteq> 0 \<and> queue st \<noteq> [] \<and> w < length (consumers st) \<and> consumers st ! w = Waiting"
proof -
  have "Get w \<in> set (consumer_actions av v c) \<longleftrightarrow> av \<and> v = w \<and> c = Waiting" for av v and c :: "'a consumer"
    by (cases c) auto
  then show ?thesis by (force simp: queue_enabled_def in_set_enumerate_eq)
qed

lemma enabled_Finish:
  "Finish w \<in> set (queue_enabled st) \<longleftrightarrow>
   unfinished st \<noteq> 0 \<and> w < length (consumers st) \<and> (\<exists>i x. consumers st ! w = Working i x)"
proof -
  have "Finish w \<in> set (consumer_actions av v c) \<longleftrightarrow> v = w \<and> (\<exists>i x. c = Working i x)" for av v and c :: "'a consumer"
    by (cases c) auto
  then show ?thesis by (force simp: queue_enabled_def in_set_enumerate_eq)
qed

text \<open>How an action changes the open items.\<close>

lemma open_items_Get:
  assumes "Get w \<in> set (queue_enabled st)"
  shows "mset (open_items (queue_act work_fn (Get w) st)) = mset (open_items st)"
proof -
  obtain p q where q: "queue st = p # q" using assms by (cases "queue st") (auto simp: enabled_Get)
  obtain i x where p: "p = (i, x)" by fastforce
  from assms mset_concat_update [of w "consumers st" holding "Working i x"] p q show ?thesis
    by (simp add: enabled_Get open_items_def held_def)
qed

lemma queue_act_Finish:
  assumes "Finish w \<in> set (queue_enabled st)" and "consumers st ! w = Working i x"
  obtains c where
    "slots (queue_act work_fn (Finish w) st)
       = (case work_fn i x of Inr y \<Rightarrow> (slots st)[i := Some y] | Inl _ \<Rightarrow> slots st)"
    "failures (queue_act work_fn (Finish w) st)
       = (case work_fn i x of Inl e \<Rightarrow> if is_Exception e then failures st @ [e] else failures st
                            | Inr _ \<Rightarrow> failures st)"
    "consumers (queue_act work_fn (Finish w) st) = (consumers st)[w := c]"
    "unfinished (queue_act work_fn (Finish w) st) = unfinished st - 1"
    "queue (queue_act work_fn (Finish w) st) = queue st"
    "holding c = []" "c = Ended \<longleftrightarrow> (\<exists>e. work_fn i x = Inl e \<and> \<not> is_Exception e)"
  by (rule that [of "if \<exists>e. work_fn i x = Inl e \<and> \<not> is_Exception e then Ended else Waiting"])
     (use assms in \<open>auto simp: task_done_def split: sum.splits\<close>)

lemma open_items_Finish:
  assumes f: "Finish w \<in> set (queue_enabled st)" and c: "consumers st ! w = Working i x"
  shows "mset (open_items st) = add_mset (i, x) (mset (open_items (queue_act work_fn (Finish w) st)))"
proof -
  obtain c where act: "consumers (queue_act work_fn (Finish w) st) = (consumers st)[w := c]"
    "queue (queue_act work_fn (Finish w) st) = queue st" and h: "holding c = []"
    by (rule queue_act_Finish [OF f c, of work_fn])
  have "w < length (consumers st)" using f by (simp add: enabled_Finish)
  from mset_concat_update [OF this, of holding c] act h c show ?thesis
    by (simp add: open_items_def held_def)
qed

lemma mset_items:
  assumes "mset a = mset b"
  shows "length a = length b" and "set a = set b" and "distinct (map fst a) = distinct (map fst b)"
proof -
  show "length a = length b" by (rule mset_eq_length [OF assms])
  show "set a = set b" by (rule mset_eq_setD [OF assms])
  have "mset (map fst a) = mset (map fst b)" using assms by simp
  then show "distinct (map fst a) = distinct (map fst b)" by (rule mset_eq_imp_distinct_iff)
qed

lemma queue_inv_Get:
  assumes inv: "queue_inv n work_fn xs st" and a: "Get w \<in> set (queue_enabled st)"
  shows "queue_inv n work_fn xs (queue_act work_fn (Get w) st)"
proof -
  note O = mset_items [OF open_items_Get [OF a, of work_fn]]
  obtain i x q where q: "queue st = (i, x) # q" using a by (cases "queue st") (auto simp: enabled_Get)
  have frame: "slots (queue_act work_fn (Get w) st) = slots st"
    "failures (queue_act work_fn (Get w) st) = failures st"
    "unfinished (queue_act work_fn (Get w) st) = unfinished st"
    "consumers (queue_act work_fn (Get w) st) = (consumers st)[w := Working i x]"
    using q by simp_all
  have "Ended \<notin> set ((consumers st)[w := Working i x])" if "Ended \<notin> set (consumers st)"
    using that set_update_subset_insert by fastforce
  with inv show ?thesis unfolding queue_inv_def frame O by auto
qed

lemma queue_inv_Finish:
  assumes inv: "queue_inv n work_fn xs st" and a: "Finish w \<in> set (queue_enabled st)"
  shows "queue_inv n work_fn xs (queue_act work_fn (Finish w) st)"
proof -
  let ?st = "queue_act work_fn (Finish w) st"
  obtain i x where w: "consumers st ! w = Working i x" "w < length (consumers st)"
    using a by (auto simp: enabled_Finish)
  have "mset (open_items st) = mset ((i, x) # open_items ?st)"
    using open_items_Finish [OF a w(1), of work_fn] by simp
  note O = mset_items [OF this]
  from inv have I: "length (consumers st) = n" "length (slots st) = length xs"
    "unfinished st = length (open_items st)" "distinct (map fst (open_items st))"
    "\<forall>(j, y)\<in>set (open_items st). j < length xs \<and> y = xs ! j"
    and slots: "\<forall>j<length xs. slots st ! j = (if j \<in> fst ` set (open_items st) then None
         else case work_fn j (xs ! j) of Inr y \<Rightarrow> Some y | Inl _ \<Rightarrow> None)"
    and fails: "set (failures st) = {e. is_Exception e \<and>
         (\<exists>j<length xs. j \<notin> fst ` set (open_items st) \<and> work_fn j (xs ! j) = Inl e)}"
    and ended: "(\<forall>j<length xs. \<forall>e. work_fn j (xs ! j) = Inl e \<longrightarrow> is_Exception e) \<longrightarrow> Ended \<notin> set (consumers st)"
    unfolding queue_inv_def by blast+
  from I(5) O(2) have ix: "i < length xs" "x = xs ! i" by auto
  from I(4) O(3) have ni: "i \<notin> fst ` set (open_items ?st)" and d: "distinct (map fst (open_items ?st))" by auto
  have out: "j \<notin> fst ` set (open_items ?st) \<longleftrightarrow> j = i \<or> j \<notin> fst ` set (open_items st)" for j
    using ni O(2) by auto
  obtain c where act: "slots ?st = (case work_fn i x of Inr y \<Rightarrow> (slots st)[i := Some y] | Inl _ \<Rightarrow> slots st)"
    "failures ?st = (case work_fn i x of Inl e \<Rightarrow> if is_Exception e then failures st @ [e] else failures st
                                          | Inr _ \<Rightarrow> failures st)"
    "consumers ?st = (consumers st)[w := c]" "unfinished ?st = unfinished st - 1"
    and c: "c = Ended \<longleftrightarrow> (\<exists>e. work_fn i x = Inl e \<and> \<not> is_Exception e)"
    by (rule queue_act_Finish [OF a w(1), of work_fn])
  have "i \<in> fst ` set (open_items st)" using O(2) by auto
  then have free: "slots st ! i = None" using slots ix(1) by simp
  have "slots ?st ! j = (if j \<in> fst ` set (open_items ?st) then None
      else case work_fn j (xs ! j) of Inr y \<Rightarrow> Some y | Inl _ \<Rightarrow> None)" if "j < length xs" for j
  proof (cases "j = i")
    case True
    then show ?thesis using act(1) ni ix I(2) free by (auto split: sum.splits)
  next
    case False
    then have "slots ?st ! j = slots st ! j" using act(1) by (auto split: sum.splits)
    with slots that False out [of j] show ?thesis by simp
  qed
  moreover have "set (failures ?st) = {e. is_Exception e \<and>
      (\<exists>j<length xs. j \<notin> fst ` set (open_items ?st) \<and> work_fn j (xs ! j) = Inl e)}"
    using ix unfolding out act(2) by (auto simp: fails split: sum.splits)
  moreover have "(\<forall>j<length xs. \<forall>e. work_fn j (xs ! j) = Inl e \<longrightarrow> is_Exception e) \<longrightarrow> Ended \<notin> set (consumers ?st)"
  proof (intro impI)
    assume ex: "\<forall>j<length xs. \<forall>e. work_fn j (xs ! j) = Inl e \<longrightarrow> is_Exception e"
    with c ix have "c \<noteq> Ended" by auto
    with ended ex show "Ended \<notin> set (consumers ?st)"
      unfolding act(3) using set_update_subset_insert by fastforce
  qed
  moreover have "length (slots ?st) = length xs" using act(1) I(2) by (simp split: sum.splits)
  moreover have "unfinished ?st = length (open_items ?st)" using act(4) I(3) O(1) by simp
  moreover have "\<forall>(j, y)\<in>set (open_items ?st). j < length xs \<and> y = xs ! j" using I(5) O(2) by auto
  ultimately show ?thesis using d I(1) act(3) unfolding queue_inv_def by simp
qed

lemma queue_act_inv:
  "queue_inv n work_fn xs st \<Longrightarrow> a \<in> set (queue_enabled st) \<Longrightarrow> queue_inv n work_fn xs (queue_act work_fn a st)"
  by (cases a) (auto simp del: queue_act.simps intro: queue_inv_Get queue_inv_Finish)

lemma queue_act_less:
  assumes a: "a \<in> set (queue_enabled st)"
  shows "queue_left (queue_act work_fn a st) < queue_left st"
proof (cases a)
  case (Get w)
  have "length (open_items (queue_act work_fn a st)) = length (open_items st)"
    using mset_items(1) open_items_Get a Get by blast
  moreover have "length (queue (queue_act work_fn a st)) < length (queue st)"
    using a Get by (cases "queue st") (auto simp: enabled_Get)
  ultimately show ?thesis by (simp add: queue_left_def open_items_def)
next
  case (Finish w)
  then obtain i x where w: "consumers st ! w = Working i x" using a by (auto simp: enabled_Finish)
  have "size (mset (open_items st)) = Suc (size (mset (open_items (queue_act work_fn a st))))"
    using open_items_Finish [OF a [unfolded Finish] w, of work_fn] Finish by simp
  moreover have "queue (queue_act work_fn a st) = queue st"
    using w Finish by (auto simp: task_done_def split: sum.splits)
  ultimately show ?thesis by (simp add: queue_left_def open_items_def)
qed

interpretation pool: scheduled queue_enabled "queue_act work_fn" "queue_inv n work_fn xs" queue_left
  for work_fn n xs
  by unfold_locales (auto intro: queue_act_inv queue_act_less)

lemma queue_init_open: "open_items (queue_init workers xs) = List.enumerate 0 xs"
  by (simp add: open_items_def held_def queue_init_def)

lemma queue_init_inv: "queue_inv (nat (max 1 workers)) work_fn xs (queue_init workers xs)"
proof -
  have "fst ` set (List.enumerate 0 xs) = {0..<length xs}"
    using arg_cong [OF map_fst_enumerate [of 0 xs], of set] by (simp only: set_map set_upt add_0)
  then have "i \<in> fst ` set (List.enumerate 0 xs)" if "i < length xs" for i using that by auto
  then show ?thesis unfolding queue_inv_def queue_init_open
    by (auto simp: queue_init_def in_set_enumerate_eq)
qed

subsection \<open>What a run ends with\<close>

definition only_exceptions :: "'b outcome list \<Rightarrow> bool" where
  "only_exceptions rs = list_all (\<lambda>r. case r of Inl e \<Rightarrow> is_Exception e | Inr _ \<Rightarrow> True) rs"

lemma only_exceptions_items:
  "only_exceptions (item_outcomes f xs) \<longleftrightarrow> (\<forall>i<length xs. \<forall>e. f i (xs ! i) = Inl e \<longrightarrow> is_Exception e)"
  by (auto simp: only_exceptions_def list_all_length split: sum.splits)

lemma only_exceptions_Inr [simp]: "only_exceptions (map Inr ys)"
  by (simp add: only_exceptions_def list_all_length)

lemma queue_progress:
  assumes inv: "queue_inv n f xs st" and n: "0 < n" and ex: "only_exceptions (item_outcomes f xs)"
    and open_left: "unfinished st \<noteq> 0"
  shows "queue_enabled st \<noteq> []"
proof (cases "\<exists>w i x. w < length (consumers st) \<and> consumers st ! w = Working i x")
  case True
  then obtain w where "Finish w \<in> set (queue_enabled st)" using open_left by (auto simp: enabled_Finish)
  then show ?thesis by auto
next
  case False
  have "Ended \<notin> set (consumers st)" using inv ex unfolding queue_inv_def only_exceptions_items by blast
  with False have wait: "consumers st ! w = Waiting" if "w < length (consumers st)" for w
    using that by (cases "consumers st ! w") (auto, metis nth_mem)
  then have "consumers st = replicate (length (consumers st)) Waiting" by (intro nth_equalityI) auto
  then have "held st = []" unfolding held_def by (metis concat_replicate_trivial holding.simps(2) map_replicate)
  with inv open_left have "queue st \<noteq> []" by (auto simp: queue_inv_def open_items_def)
  moreover have "0 < length (consumers st)" using inv n by (simp add: queue_inv_def)
  ultimately have "Get 0 \<in> set (queue_enabled st)" using open_left wait by (simp add: enabled_Get)
  then show ?thesis by auto
qed

lemma queue_joined:
  assumes inv: "queue_inv n f xs st" and z: "unfinished st = 0"
  shows "slots st = map (\<lambda>r. case r of Inr y \<Rightarrow> Some y | Inl _ \<Rightarrow> None) (item_outcomes f xs)"
    and "set (failures st) = {e. is_Exception e \<and> Inl e \<in> set (item_outcomes f xs)}"
proof -
  have o: "open_items st = []" using inv z by (simp add: queue_inv_def)
  show "slots st = map (\<lambda>r. case r of Inr y \<Rightarrow> Some y | Inl _ \<Rightarrow> None) (item_outcomes f xs)"
    using inv o by (intro nth_equalityI) (simp_all add: queue_inv_def)
  have "Inl e \<in> set (item_outcomes f xs) \<longleftrightarrow> (\<exists>i<length xs. f i (xs ! i) = Inl e)" for e
    by (auto simp: in_set_conv_nth)
  then show "set (failures st) = {e. is_Exception e \<and> Inl e \<in> set (item_outcomes f xs)}"
    using inv o by (simp add: queue_inv_def)
qed

lemma queue_returned_values:
  assumes inv: "queue_inv n f xs st" and z: "unfinished st = 0" and ys: "item_outcomes f xs = map Inr ys"
  shows "queue_returned zero st = Some (Inr ys)"
proof -
  note J = queue_joined [OF inv z, unfolded ys]
  have "set (failures st) = {}" unfolding J(2) by auto
  then show ?thesis using z J(1) by (simp add: queue_returned_def comp_def)
qed

lemma queue_returned_failure:
  assumes inv: "queue_inv n f xs st" and z: "unfinished st = 0"
    and e: "Inl e \<in> set (item_outcomes f xs)" "is_Exception e"
  shows "\<exists>e'. Inl e' \<in> set (item_outcomes f xs) \<and> queue_returned zero st = Some (Inl e')"
proof -
  note J = queue_joined [OF inv z]
  have "e \<in> set (failures st)" using e J(2) by simp
  then obtain e' es where f: "failures st = e' # es" by (cases "failures st") auto
  then have "Inl e' \<in> set (item_outcomes f xs)" using J(2) by auto
  with f z show ?thesis by (simp add: queue_returned_def)
qed

lemma queue_run_inv: "queue_inv (nat (max 1 workers)) f xs (queue_run pick workers f xs)"
  unfolding queue_run_def by (rule pool.drive_inv [OF queue_init_inv])

lemma queue_run_joins:
  assumes "only_exceptions (item_outcomes f xs)"
  shows "unfinished (queue_run pick workers f xs) = 0"
proof -
  have "queue_enabled (queue_run pick workers f xs) = []"
    unfolding queue_run_def
    by (rule pool.drive_ends [OF queue_init_inv]) (simp add: queue_left_def queue_init_def held_def)
  with queue_progress [OF queue_run_inv _ assms] show ?thesis by fastforce
qed

text \<open>Also when consumers were cancelled: every value returned is the default or was computed.\<close>

lemma queue_values_hold:
  assumes "queue_pipeline pick zero workers f xs = Some (Inr ys)"
    and "P zero" and "\<And>i y. i < length xs \<Longrightarrow> f i (xs ! i) = Inr y \<Longrightarrow> P y"
  shows "length ys = length xs \<and> list_all P ys"
proof -
  let ?st = "queue_run pick workers f xs"
  have z: "unfinished ?st = 0" and ys: "ys = map (\<lambda>r. case r of Some y \<Rightarrow> y | None \<Rightarrow> zero) (slots ?st)"
    using assms(1) by (auto simp: queue_pipeline_def queue_returned_def split: if_splits list.splits)
  note J = queue_joined(1) [OF queue_run_inv z]
  show ?thesis using assms(2,3) unfolding ys J
    by (auto simp: list_all_length split: sum.splits)
qed

interpretation queue_pipe: pipeline
  "queue_pipeline pick zero workers :: (nat \<Rightarrow> 'a \<Rightarrow> 'b outcome) \<Rightarrow> 'a list \<Rightarrow> 'b list outcome option"
  only_exceptions
  for pick and zero :: 'b and workers
proof
  fix f :: "nat \<Rightarrow> 'a \<Rightarrow> 'b outcome" and xs ys e
  show "item_outcomes f xs = map Inr ys \<Longrightarrow> queue_pipeline pick zero workers f xs = Some (Inr ys)"
    using queue_run_joins [of f xs pick workers] queue_returned_values [OF queue_run_inv]
    by (simp add: queue_pipeline_def)
  assume adm: "only_exceptions (item_outcomes f xs)" and e: "Inl e \<in> set (item_outcomes f xs)"
  then have "is_Exception e" by (auto simp: only_exceptions_def list_all_iff)
  with queue_returned_failure [OF queue_run_inv queue_run_joins [OF adm] e]
  show "\<exists>e'. Inl e' \<in> set (item_outcomes f xs) \<and> queue_pipeline pick zero workers f xs = Some (Inl e')"
    by (simp add: queue_pipeline_def)
qed

subsection \<open>Properties\<close>

text \<open>
  C7: the consumer pool computes the map. If the work function fails with ordinary exceptions
  only, then whatever the number of workers and the interleaving the pool returns; it returns all
  results in the order of the items if no item fails, and otherwise raises the exception of one of
  the failed items.
\<close>

theorem queue_pipeline_maps:
  assumes "only_exceptions (item_outcomes f xs)"
  shows "case results (item_outcomes f xs) of
           Inr ys \<Rightarrow> queue_pipeline pick zero workers f xs = Some (Inr ys)
         | Inl _ \<Rightarrow> \<exists>e. Inl e \<in> set (item_outcomes f xs) \<and> queue_pipeline pick zero workers f xs = Some (Inl e)"
proof (cases "results (item_outcomes f xs)")
  case (Inl e)
  from queue_pipe.run_failure [OF assms results_Inl_member [OF Inl]] Inl show ?thesis by simp
next
  case (Inr ys)
  with queue_pipe.run_agrees_with_results [OF assms] show ?thesis by simp
qed

lemma queue_pipeline_maps_witness:
  "queue_pipeline (\<lambda>n. n) False 2 (\<lambda>i b. if b then Inr (i = 1) else Inl (ValueError ''odd'')) [True, True, True]
     = Some (Inr [False, True, False])"
  using queue_pipeline_maps [of "\<lambda>i b. if b then Inr (i = 1) else Inl (ValueError ''odd'')" "[True, True, True]" "\<lambda>n. n" False 2]
  by (simp add: item_outcomes_def only_exceptions_def)

lemma length_holdings: "length (concat (map holding cs)) \<le> length cs"
proof (induction cs)
  case (Cons c cs)
  then show ?case by (cases c) auto
qed simp

text \<open>
  C28: every item is in one place. In each state that an interleaving reaches, the number of
  unfinished items is that of the items queued or in a consumer's hands, no item is there twice,
  and at most \<open>max(1, workers)\<close> items are worked on.
\<close>

theorem queue_items_owned_once:
  assumes "reachable queue_enabled (queue_act f) (queue_init workers xs) st"
  shows "unfinished st = length (held st) + length (queue st)
       \<and> distinct (map fst (held st @ queue st))
       \<and> length (held st) \<le> nat (max 1 workers)"
proof -
  have inv: "queue_inv (nat (max 1 workers)) f xs st"
    by (rule pool.reachable_inv [OF assms queue_init_inv])
  with length_holdings [of "consumers st"] show ?thesis by (auto simp: queue_inv_def open_items_def held_def)
qed

lemma queue_items_owned_once_witness:
  "let st = drive queue_enabled (queue_act (\<lambda>_ x. Inr (\<not> x))) (\<lambda>_. 0) 2 (queue_init 2 [True, False, True])
   in unfinished st = 2 \<and> length (held st) + length (queue st) = 2 \<and> distinct (map fst (held st @ queue st))"
proof -
  let ?st = "drive queue_enabled (queue_act (\<lambda>_ x. Inr (\<not> x))) (\<lambda>_. 0) 2 (queue_init 2 [True, False, True])"
  have "unfinished ?st = 2" by code_simp
  moreover have "reachable queue_enabled (queue_act (\<lambda>_ x. Inr (\<not> x))) (queue_init 2 [True, False, True]) ?st"
    by (rule drive_reachable)
  note queue_items_owned_once [OF this]
  ultimately show ?thesis by (simp add: Let_def)
qed

text \<open>
  A cancellation is not a failure. An item whose work raises \<open>CancelledError\<close> ends its
  consumer and leaves no trace: alone it yields the default result, and with a single worker the
  items behind it are never processed, so that the join never returns.
\<close>

theorem queue_pipeline_cancelled_item:
  "queue_pipeline pick zero 1 (\<lambda>_ _. Inl CancelledError) [x] = Some (Inr [zero])
   \<and> queue_pipeline pick zero 1 (\<lambda>_ _. Inl CancelledError) [x, y] = None"
  by (simp add: queue_pipeline_def queue_run_def queue_init_def queue_enabled_def queue_returned_def
      task_done_def is_Exception_def numeral_eq_Suc)

end
