(* ===== verification/Worker.thy ===== *)
theory Worker
  imports QueuePipeline
begin

text \<open>
  The rest of \<^verbatim>\<open>services/service-a/app/worker.py\<close>: \<open>threadpool_pipeline\<close> and
  \<open>call_cpp_worker_square_sum\<close>.

  A \<open>pool_state\<close> is a \<open>ThreadPoolExecutor\<close> inside its \<open>with\<close> block while
  \<open>list(executor.map(f, items))\<close> runs: the submitted jobs not yet started, the jobs that run
  in threads, the futures, what the list has taken from the iterator so far, and the exception it
  got. When a future holds an exception, the iterator cancels the jobs not yet started; the block
  ends when no job runs any more.
\<close>

subsection \<open>The executor\<close>

record ('a, 'b) pool_state =
  jobs :: "(nat \<times> 'a) list"
  running :: "(nat \<times> 'a) list"
  futures :: "'b outcome option list"
  yielded :: "'b list"
  raised :: "exn option"

datatype 'a pool_action = StartJob | EndJob nat 'a | YieldNext

definition pool_init :: "'a list \<Rightarrow> ('a, 'b) pool_state" where
  "pool_init xs =
     \<lparr>jobs = List.enumerate 0 xs, running = [], futures = replicate (length xs) None,
      yielded = [], raised = None\<rparr>"

definition can_yield :: "('a, 'b) pool_state \<Rightarrow> bool" where
  "can_yield st =
     (raised st = None \<and> length (yielded st) < length (futures st) \<and>
      futures st ! length (yielded st) \<noteq> None)"

definition pool_enabled :: "nat \<Rightarrow> ('a, 'b) pool_state \<Rightarrow> 'a pool_action list" where
  "pool_enabled max_workers st =
     (if jobs st \<noteq> [] \<and> length (running st) < max_workers then [StartJob] else [])
     @ map (\<lambda>(i, x). EndJob i x) (running st)
     @ (if can_yield st then [YieldNext] else [])"

fun pool_act ::
  "(nat \<Rightarrow> 'a \<Rightarrow> 'b outcome) \<Rightarrow> 'a pool_action \<Rightarrow> ('a, 'b) pool_state \<Rightarrow> ('a, 'b) pool_state" where
  "pool_act work_fn StartJob st = st\<lparr>jobs := tl (jobs st), running := running st @ [hd (jobs st)]\<rparr>"
| "pool_act work_fn (EndJob i x) st =
     st\<lparr>running := remove1 (i, x) (running st), futures := (futures st)[i := Some (work_fn i x)]\<rparr>"
| "pool_act work_fn YieldNext st =
     (case the (futures st ! length (yielded st)) of
        Inr y \<Rightarrow> st\<lparr>yielded := yielded st @ [y]\<rparr>
      | Inl e \<Rightarrow> st\<lparr>raised := Some e, jobs := []\<rparr>)"

definition pool_returned :: "('a, 'b) pool_state \<Rightarrow> 'b list outcome option" where
  "pool_returned st =
     (if jobs st \<noteq> [] \<or> running st \<noteq> [] then None
      else case raised st of
             Some e \<Rightarrow> Some (Inl e)
           | None \<Rightarrow> if length (yielded st) = length (futures st) then Some (Inr (yielded st)) else None)"

text \<open>Each item is started, ended and yielded at most once, and one step may raise.\<close>

definition threadpool_run ::
  "(nat \<Rightarrow> nat) \<Rightarrow> int \<Rightarrow> (nat \<Rightarrow> 'a \<Rightarrow> 'b outcome) \<Rightarrow> 'a list \<Rightarrow> ('a, 'b) pool_state" where
  "threadpool_run pick workers work_fn xs =
     drive (pool_enabled (nat (max 1 workers))) (pool_act work_fn) pick (3 * length xs + 1) (pool_init xs)"

definition threadpool_pipeline ::
  "(nat \<Rightarrow> nat) \<Rightarrow> int \<Rightarrow> (nat \<Rightarrow> 'a \<Rightarrow> 'b outcome) \<Rightarrow> 'a list \<Rightarrow> 'b list outcome option" where
  "threadpool_pipeline pick workers work_fn xs = pool_returned (threadpool_run pick workers work_fn xs)"

subsection \<open>The call of the C++ worker\<close>

text \<open>
  The request, the log entry (number of items, the result field if any, the time in
  milliseconds), and the result. \<open>data.get\<close> of something that is no object is an
  \<open>AttributeError\<close>.
\<close>

definition call_cpp_worker_square_sum ::
  "raise_for_status \<Rightarrow> http_post \<Rightarrow> string \<Rightarrow> pyfloat list \<Rightarrow> pyfloat \<Rightarrow> pyfloat
    \<Rightarrow> (nat \<times> json option \<times> pyfloat) list \<times> pyfloat outcome" where
  "call_cpp_worker_square_sum rfs post cpp_worker_url xs start stop =
     (case and_then (get_checked rfs (post (cpp_worker_url @ ''/square_sum'')
                                        (JObj [(''items'', JList (map JFloat xs))]))) body of
        Inl e \<Rightarrow> ([], Inl e)
      | Inr (JObj kvs) \<Rightarrow>
          ([(length xs, map_of kvs ''result'', py_round 2 (elapsed_ms start stop))],
           read_result (JObj kvs))
      | Inr _ \<Rightarrow> ([], Inl (OtherException ''object has no attribute get'')))"

subsection \<open>The invariant\<close>

definition open_jobs :: "('a, 'b) pool_state \<Rightarrow> (nat \<times> 'a) list" where
  "open_jobs st = running st @ jobs st"

text \<open>
  Futures are filled with the outcome of their item, and exactly those of jobs neither running
  nor waiting are filled as long as nothing was raised; what was yielded are the results of a
  prefix of the items; what was raised is the exception of the first item not yielded.
\<close>

definition pool_inv :: "nat \<Rightarrow> (nat \<Rightarrow> 'a \<Rightarrow> 'b outcome) \<Rightarrow> 'a list \<Rightarrow> ('a, 'b) pool_state \<Rightarrow> bool" where
  "pool_inv m f xs st =
     (length (futures st) = length xs \<and> length (running st) \<le> m \<and>
      (\<forall>(i, x)\<in>set (open_jobs st). i < length xs \<and> x = xs ! i) \<and>
      (\<forall>i<length xs. \<forall>r. futures st ! i = Some r \<longrightarrow> r = f i (xs ! i)) \<and>
      (raised st = None \<longrightarrow> (\<forall>i<length xs. futures st ! i = None \<longrightarrow> i \<in> fst ` set (open_jobs st))) \<and>
      length (yielded st) \<le> length xs \<and>
      (\<forall>i<length (yielded st). f i (xs ! i) = Inr (yielded st ! i)) \<and>
      (\<forall>e. raised st = Some e \<longrightarrow> jobs st = [] \<and> length (yielded st) < length xs \<and>
         f (length (yielded st)) (xs ! length (yielded st)) = Inl e))"

definition pool_left :: "nat \<Rightarrow> ('a, 'b) pool_state \<Rightarrow> nat" where
  "pool_left n st =
     2 * length (jobs st) + length (running st) + (n - length (yielded st)) + (if raised st = None then 1 else 0)"

lemma pool_init_inv: "pool_inv m f xs (pool_init xs)"
proof -
  have "fst ` set (List.enumerate 0 xs) = {0..<length xs}"
    using arg_cong [OF map_fst_enumerate [of 0 xs], of set] by (simp only: set_map set_upt add_0)
  then have "i \<in> fst ` set (List.enumerate 0 xs)" if "i < length xs" for i using that by auto
  then show ?thesis by (auto simp: pool_inv_def pool_init_def open_jobs_def in_set_enumerate_eq)
qed

lemma pool_enabled_cases:
  assumes "a \<in> set (pool_enabled m st)"
  obtains (start) i x q where "a = StartJob" "jobs st = (i, x) # q" "length (running st) < m"
        | (stop) i x where "a = EndJob i x" "(i, x) \<in> set (running st)"
        | (yield) "a = YieldNext" "can_yield st"
  using assms by (cases "jobs st") (auto simp: pool_enabled_def split: if_splits)

lemma pool_act_inv:
  assumes inv: "pool_inv m f xs st" and a: "a \<in> set (pool_enabled m st)"
  shows "pool_inv m f xs (pool_act f a st)"
  using a
proof (cases rule: pool_enabled_cases)
  case (start i x q)
  with inv show ?thesis by (auto simp: pool_inv_def open_jobs_def)
next
  case (stop i x)
  have ix: "i < length xs" "x = xs ! i" and fut: "length (futures st) = length xs"
    using inv stop by (auto simp: pool_inv_def open_jobs_def)
  have sub: "set (open_jobs (pool_act f a st)) \<subseteq> set (open_jobs st)"
    using stop set_remove1_subset [of "(i, x)" "running st"] by (auto simp: open_jobs_def)
  have keep: "j \<in> fst ` set (open_jobs (pool_act f a st))" if j: "j \<in> fst ` set (open_jobs st)" "j \<noteq> i" for j
  proof -
    obtain y where "(j, y) \<in> set (open_jobs st)" using j(1) by auto
    then have "(j, y) \<in> set (open_jobs (pool_act f a st))"
      using j(2) stop by (auto simp: open_jobs_def)
    then show ?thesis by force
  qed
  have len: "length (running (pool_act f a st)) \<le> m"
    using inv stop by (auto simp: pool_inv_def length_remove1)
  have "futures (pool_act f a st) = (futures st)[i := Some (f i (xs ! i))]" "yielded (pool_act f a st) = yielded st"
    "raised (pool_act f a st) = raised st" "jobs (pool_act f a st) = jobs st" using stop ix by auto
  then show ?thesis using inv sub keep len fut ix
    unfolding pool_inv_def by (auto simp: nth_list_update split: if_splits)
next
  case yield
  then obtain r where r: "raised st = None" "length (yielded st) < length xs" "futures st ! length (yielded st) = Some r"
    using inv by (auto simp: can_yield_def pool_inv_def)
  then have "r = f (length (yielded st)) (xs ! length (yielded st))" using inv by (simp add: pool_inv_def)
  then have f: "f (length (yielded st)) (xs ! length (yielded st)) = r" by simp
  show ?thesis
  proof (cases r)
    case (Inl e)
    with yield r have "pool_act f a st = st\<lparr>raised := Some e, jobs := []\<rparr>" by simp
    moreover have "pool_inv m f xs (st\<lparr>raised := Some e, jobs := []\<rparr>)"
      using inv f Inl r(2) unfolding pool_inv_def by (simp add: open_jobs_def)
    ultimately show ?thesis by simp
  next
    case (Inr y)
    with yield r have "pool_act f a st = st\<lparr>yielded := yielded st @ [y]\<rparr>" by simp
    moreover have "f i (xs ! i) = Inr ((yielded st @ [y]) ! i)" if "i < Suc (length (yielded st))" for i
      using that inv f Inr by (cases "i = length (yielded st)") (auto simp: nth_append pool_inv_def)
    then have "pool_inv m f xs (st\<lparr>yielded := yielded st @ [y]\<rparr>)"
      using inv r(1,2) unfolding pool_inv_def by (simp add: open_jobs_def)
    ultimately show ?thesis by simp
  qed
qed

lemma pool_act_less:
  assumes inv: "pool_inv m f xs st" and a: "a \<in> set (pool_enabled m st)"
  shows "pool_left (length xs) (pool_act f a st) < pool_left (length xs) st"
  using a
proof (cases rule: pool_enabled_cases)
  case (stop i x)
  then show ?thesis using length_pos_if_in_set [OF stop(2)] by (simp add: pool_left_def length_remove1)
next
  case yield
  then have "length (yielded st) < length xs" using inv by (auto simp: can_yield_def pool_inv_def)
  with yield show ?thesis by (auto simp: pool_left_def can_yield_def split: sum.splits)
qed (simp add: pool_left_def)

interpretation threads: scheduled "pool_enabled m" "pool_act f" "pool_inv m f xs" "pool_left (length xs)"
  for m f xs
  by unfold_locales (auto intro: pool_act_inv pool_act_less)

subsection \<open>What a run ends with\<close>

lemma pool_final:
  assumes inv: "pool_inv m f xs st" and m: "0 < m" and fin: "pool_enabled m st = []"
  shows "pool_returned st = Some (results (item_outcomes f xs))"
proof -
  have run: "running st = []" and "\<not> can_yield st" using fin by (auto simp: pool_enabled_def split: if_splits)
  have jobs: "jobs st = []" using fin run m by (auto simp: pool_enabled_def split: if_splits)
  show ?thesis
  proof (cases "raised st")
    case None
    have full: "length (yielded st) = length xs"
    proof (rule ccontr)
      assume "length (yielded st) \<noteq> length xs"
      then have "length (yielded st) < length xs" using inv by (auto simp: pool_inv_def)
      moreover from this have "futures st ! length (yielded st) \<noteq> None"
        using inv None run jobs by (auto simp: pool_inv_def open_jobs_def)
      ultimately show False using \<open>\<not> can_yield st\<close> None inv by (simp add: can_yield_def pool_inv_def)
    qed
    have "item_outcomes f xs = map Inr (yielded st)"
      using inv full by (intro nth_equalityI) (auto simp: pool_inv_def)
    with None full run jobs inv show ?thesis by (simp add: pool_returned_def pool_inv_def)
  next
    case (Some e)
    let ?p = "length (yielded st)"
    have "?p < length xs" "f ?p (xs ! ?p) = Inl e" and pre: "\<forall>i<?p. f i (xs ! i) = Inr (yielded st ! i)"
      using inv Some by (auto simp: pool_inv_def)
    then have "results (item_outcomes f xs) = Inl e"
      by (intro results_first_failure [of ?p]) auto
    with Some run jobs show ?thesis by (simp add: pool_returned_def)
  qed
qed

lemma threadpool_results:
  "threadpool_pipeline pick workers f xs = Some (results (item_outcomes f xs))"
proof -
  let ?m = "nat (max 1 workers)"
  have "pool_inv ?m f xs (threadpool_run pick workers f xs)"
    unfolding threadpool_run_def by (rule threads.drive_inv [OF pool_init_inv])
  moreover have "pool_enabled ?m (threadpool_run pick workers f xs) = []"
    unfolding threadpool_run_def
    by (rule threads.drive_ends [OF pool_init_inv]) (simp add: pool_left_def pool_init_def)
  ultimately show ?thesis unfolding threadpool_pipeline_def by (intro pool_final) auto
qed

interpretation thread_pipe: pipeline "threadpool_pipeline pick workers" "\<lambda>_. True" for pick workers
proof
  fix f :: "nat \<Rightarrow> 'a \<Rightarrow> 'b outcome" and xs ys e
  show "item_outcomes f xs = map Inr ys \<Longrightarrow> threadpool_pipeline pick workers f xs = Some (Inr ys)"
    by (simp add: threadpool_results)
  assume "Inl e \<in> set (item_outcomes f xs)"
  then obtain e' where "results (item_outcomes f xs) = Inl e'"
    by (cases "results (item_outcomes f xs)") (auto simp: results_Inr_iff)
  then show "\<exists>e'. Inl e' \<in> set (item_outcomes f xs) \<and> threadpool_pipeline pick workers f xs = Some (Inl e')"
    using results_Inl_member by (auto simp: threadpool_results)
qed

subsection \<open>Properties\<close>

text \<open>
  C9: the thread pool is deterministic. Whatever the number of workers, the interleaving of the
  threads and the moments at which the caller consumes, \<open>threadpool_pipeline\<close> returns, and what
  it returns is what a sequential loop over the items would: the results in order, or the exception
  of the first item that fails in the order of the items.
\<close>

theorem threadpool_is_sequential:
  "threadpool_pipeline pick workers f xs = Some (results (item_outcomes f xs))"
  by (rule threadpool_results)

text \<open>
  At most \<open>max(1, workers)\<close> jobs run at a time, no interleaving is infinite, and an executor
  on which nothing can happen any more has returned.
\<close>

theorem threadpool_bounded_progress:
  "(\<nexists>st. reachable (pool_enabled (nat (max 1 workers))) (pool_act f) (pool_init xs) st
       \<and> (nat (max 1 workers) < length (running st)
          \<or> pool_enabled (nat (max 1 workers)) st = [] \<and> pool_returned st = None))
   \<and> (\<nexists>run. run (0 :: nat) = pool_init xs
       \<and> (\<forall>i. \<exists>a\<in>set (pool_enabled (nat (max 1 workers)) (run i)). run (Suc i) = pool_act f a (run i)))"
proof (intro conjI notI)
  let ?m = "nat (max 1 workers)"
  assume "\<exists>st. reachable (pool_enabled ?m) (pool_act f) (pool_init xs) st
       \<and> (?m < length (running st) \<or> pool_enabled ?m st = [] \<and> pool_returned st = None)"
  then obtain st where r: "reachable (pool_enabled ?m) (pool_act f) (pool_init xs) st"
    and bad: "?m < length (running st) \<or> pool_enabled ?m st = [] \<and> pool_returned st = None" by blast
  have inv: "pool_inv ?m f xs st" by (rule threads.reachable_inv [OF r pool_init_inv])
  then have "length (running st) \<le> ?m" by (simp add: pool_inv_def)
  with bad have "pool_enabled ?m st = []" "pool_returned st = None" by auto
  moreover have "0 < ?m" by auto
  ultimately show False using pool_final [OF inv] by simp
next
  assume "\<exists>run. run (0 :: nat) = pool_init xs
       \<and> (\<forall>i. \<exists>a\<in>set (pool_enabled (nat (max 1 workers)) (run i)). run (Suc i) = pool_act f a (run i))"
  then obtain run where "run (0 :: nat) = pool_init xs"
    and step: "\<forall>i. \<exists>a\<in>set (pool_enabled (nat (max 1 workers)) (run i)). run (Suc i) = pool_act f a (run i)" by blast
  then have "pool_inv (nat (max 1 workers)) f xs (run 0)" by (simp add: pool_init_inv)
  from threads.no_infinite_schedule [where run = run, OF this] step show False by blast
qed

end
