(* ===== verification/ServiceA.thy ===== *)
theory ServiceA
  imports Worker
begin

text \<open>
  \<^verbatim>\<open>services/service-a/app/config.py\<close> and \<^verbatim>\<open>services/service-a/app/main.py\<close>: the
  data-processing worker. Its three endpoints square the items in three ways (the fan-out with
  retries, the consumer pool, the thread pool) and aggregate the squares.

  What the handlers read from outside is explicit: a \<open>network\<close> gives, for each attempt at the
  fan-out, the order in which the requests are scheduled and what each returns; \<open>handler_clock\<close>
  holds the clock readings. A handler returns \<open>None\<close> if it never answers.
\<close>

subsection \<open>Settings\<close>

record a_settings =
  service_name :: string
  service_port :: int
  service_b_url :: string
  cpp_worker_url :: string
  fanout_concurrency :: int
  queue_workers :: int
  threadpool_workers :: int

definition a_load_settings :: "environ \<Rightarrow> a_settings" where
  "a_load_settings env =
     \<lparr>service_name = env_str env ''SERVICE_NAME'' ''service-a'',
      service_port = env_int env ''SERVICE_PORT'' 8001,
      service_b_url = env_str env ''SERVICE_B_URL'' ''http://service-b:8002'',
      cpp_worker_url = env_str env ''CPP_WORKER_URL'' ''http://cpp-worker:8003'',
      fanout_concurrency = env_int env ''FANOUT_CONCURRENCY'' 16,
      queue_workers = env_int env ''QUEUE_WORKERS'' 4,
      threadpool_workers = env_int env ''THREADPOOL_WORKERS'' 4\<rparr>"

definition info :: "a_settings \<Rightarrow> json" where
  "info s =
     JObj [(''service_name'', JStr (service_name s)), (''service_b_url'', JStr (service_b_url s)),
           (''cpp_worker_url'', JStr (cpp_worker_url s)),
           (''fanout_concurrency'', JInt (fanout_concurrency s)),
           (''queue_workers'', JInt (queue_workers s)),
           (''threadpool_workers'', JInt (threadpool_workers s))]"

subsection \<open>Aggregation\<close>

definition aggregate :: "string \<Rightarrow> pyfloat list \<Rightarrow> pyfloat outcome" where
  "aggregate op fanout =
     (if fanout = [] then Inr (Fin 0)
      else if op = ''sum'' then Inr (py_sum fanout)
      else if op = ''mean'' then and_then (float_of_int (int (length fanout))) (py_div (py_sum fanout))
      else if op = ''square_sum'' then Inr (py_sum fanout)
      else Inl (ValueError (''unsupported operation: '' @ py_repr op)))"

subsection \<open>The main pipeline\<close>

record network =
  schedule :: "nat \<Rightarrow> nat"
  post :: http_post

record handler_clock =
  hc_start :: pyfloat
  hc_stop :: pyfloat
  cpp_start :: pyfloat
  cpp_stop :: pyfloat

datatype a_event =
    Retried retry_event
  | FanoutFailed string
  | CppWorkerCall nat "json option" pyfloat
  | CppWorkerUnreachable string

definition fanout_retry :: retry_config where
  "fanout_retry = \<lparr>attempts = 3, base_delay_seconds = fl (2 / 10), max_delay_seconds = Fin 5,
                   retryable = is_HTTPError, op_name = ''fan_out_to_service_b''\<rparr>"

text \<open>
  The \<open>k\<close>-th attempt at the fan-out; the state is the number of attempts made. The fan-out
  always returns (\<open>fan_out_gather\<close>), so \<open>the\<close> selects its result.
\<close>

definition do_fanout ::
  "a_settings \<Rightarrow> raise_for_status \<Rightarrow> (nat \<Rightarrow> network) \<Rightarrow> pyfloat list \<Rightarrow> nat \<Rightarrow> pyfloat list outcome \<times> nat" where
  "do_fanout s rfs net xs k =
     (the (fan_out_to_service_b (schedule (net k)) rfs (post (net k)) (service_b_url s) (fanout_concurrency s) xs),
      Suc k)"

text \<open>The optional call of the C++ worker: an HTTP error is logged and ignored.\<close>

definition cpp_result_of ::
  "a_settings \<Rightarrow> raise_for_status \<Rightarrow> http_post \<Rightarrow> handler_clock \<Rightarrow> process_request
    \<Rightarrow> a_event list \<times> pyfloat option outcome" where
  "cpp_result_of s rfs cpp_post clk req =
     (if operation req = ''square_sum''
      then (let (calls, r) = call_cpp_worker_square_sum rfs cpp_post (cpp_worker_url s) (items req) (cpp_start clk) (cpp_stop clk);
                evs = map (\<lambda>(n, v, ms). CppWorkerCall n v ms) calls
            in case r of
                 Inr v \<Rightarrow> (evs, Inr (Some v))
               | Inl e \<Rightarrow> if is_HTTPError e then (evs @ [CppWorkerUnreachable (exn_str e)], Inr None)
                          else (evs, Inl e))
      else ([], Inr None))"

definition response_of ::
  "process_request \<Rightarrow> handler_clock \<Rightarrow> pyfloat list \<Rightarrow> pyfloat option \<Rightarrow> pyfloat \<Rightarrow> process_response" where
  "response_of req clk fanout cpp r =
     \<lparr>pr_operation = operation req, pr_result = r, pr_items_processed = int (length (items req)),
      pr_fanout_results = fanout, pr_cpp_result = cpp,
      pr_duration_ms = py_round 2 (elapsed_ms (hc_start clk) (hc_stop clk))\<rparr>"

definition process ::
  "a_settings \<Rightarrow> raise_for_status \<Rightarrow> (nat \<Rightarrow> network) \<Rightarrow> http_post \<Rightarrow> (int \<Rightarrow> pyfloat) \<Rightarrow> handler_clock
    \<Rightarrow> process_request \<Rightarrow> a_event list \<times> process_response outcome" where
  "process s rfs net cpp_post rand clk req =
     (let (r, evs, _) = retry_async fanout_retry (do_fanout s rfs net (items req)) rand 0;
          evs = map Retried evs
      in case r of
           Inl e \<Rightarrow>
             if is_HTTPError e
             then (evs @ [FanoutFailed (exn_str e)], Inl (HTTPException 502 ''service-b unreachable''))
             else (evs, Inl e)
         | Inr fanout \<Rightarrow>
             (let (cpp_evs, c) = cpp_result_of s rfs cpp_post clk req
              in (evs @ cpp_evs,
                  and_then c (\<lambda>cpp.
                    case aggregate (operation req) fanout of
                      Inl e \<Rightarrow> Inl (if is_ValueError e then HTTPException 400 (exn_str e) else e)
                    | Inr result \<Rightarrow> Inr (response_of req clk fanout cpp result)))))"

subsection \<open>The pool flavours\<close>

text \<open>
  What both pool endpoints do around their pipeline \<open>run\<close>: no retry, and no handler for the
  exceptions of the pipeline or of the aggregation.
\<close>

definition pool_flavour ::
  "((nat \<Rightarrow> pyfloat \<Rightarrow> pyfloat outcome) \<Rightarrow> pyfloat list \<Rightarrow> pyfloat list outcome option)
    \<Rightarrow> (nat \<Rightarrow> pyfloat \<Rightarrow> pyfloat outcome) \<Rightarrow> handler_clock \<Rightarrow> process_request
    \<Rightarrow> process_response outcome option" where
  "pool_flavour run work_fn clk req =
     (case run work_fn (items req) of
        None \<Rightarrow> None
      | Some r \<Rightarrow> Some (and_then r (\<lambda>fanout.
          map_outcome (response_of req clk fanout None) (aggregate (operation req) fanout))))"

definition square_one :: "raise_for_status \<Rightarrow> http_post \<Rightarrow> string \<Rightarrow> pyfloat \<Rightarrow> pyfloat outcome" where
  "square_one rfs http address v =
     and_then (get_checked rfs
                 (http (address @ ''/squared'') (JObj [(''key'', JStr ''queued''), (''value'', JFloat v)])))
       (\<lambda>response. and_then (body response) read_result)"

definition process_via_queue ::
  "a_settings \<Rightarrow> raise_for_status \<Rightarrow> (nat \<Rightarrow> nat) \<Rightarrow> (nat \<Rightarrow> http_post) \<Rightarrow> handler_clock \<Rightarrow> process_request
    \<Rightarrow> process_response outcome option" where
  "process_via_queue s rfs pick http clk req =
     pool_flavour (queue_pipeline pick (Fin 0) (queue_workers s))
       (\<lambda>i. square_one rfs (http i) (service_b_url s)) clk req"

definition square_blocking :: "pyfloat \<Rightarrow> pyfloat outcome" where
  "square_blocking v = Inr (v * v)"

definition process_via_threadpool ::
  "a_settings \<Rightarrow> (nat \<Rightarrow> nat) \<Rightarrow> handler_clock \<Rightarrow> process_request \<Rightarrow> process_response outcome option" where
  "process_via_threadpool s pick clk req =
     pool_flavour (threadpool_pipeline pick (threadpool_workers s)) (\<lambda>_. square_blocking) clk req"

subsection \<open>The main pipeline on its fan-out's outcome\<close>

lemma fst_do_fanout_gather:
  "fst (do_fanout s rfs net xs k)
     = gather (map fst (finished (fan_run (schedule (net k)) (fanout_concurrency s)
                 (item_outcomes (one rfs (post (net k)) (service_b_url s)) xs))))
         (item_outcomes (one rfs (post (net k)) (service_b_url s)) xs)"
  by (simp add: do_fanout_def fan_out_to_service_b_def fan_out_gather)

lemma do_fanout_success:
  "item_outcomes (one rfs (post (net k)) (service_b_url s)) xs = map Inr ys \<Longrightarrow>
   do_fanout s rfs net xs k = (Inr ys, Suc k)"
  using fst_do_fanout_gather [of s rfs net xs k]
  by (simp add: prod_eq_iff gather.collect_values) (simp add: do_fanout_def)

lemma do_fanout_failure:
  assumes "item_outcomes (one rfs (post (net k)) (service_b_url s)) xs = rs" and "Inl e \<in> set rs"
  shows "\<exists>e'. Inl e' \<in> set rs \<and> do_fanout s rfs net xs k = (Inl e', Suc k)"
proof -
  obtain e' where "Inl e' \<in> set rs" "fan_out (schedule (net k)) (fanout_concurrency s)
      (one rfs (post (net k)) (service_b_url s)) xs = Some (Inl e')"
    using fan_pipeline.run_failure assms by blast
  then show ?thesis by (auto simp: do_fanout_def fan_out_to_service_b_def)
qed

lemma snd_do_fanout [simp]: "snd (do_fanout s rfs net xs k) = Suc k"
  by (simp add: do_fanout_def)

text \<open>What the retries make of the three possible attempts.\<close>

definition fanout_result ::
  "a_settings \<Rightarrow> raise_for_status \<Rightarrow> (nat \<Rightarrow> network) \<Rightarrow> pyfloat list \<Rightarrow> pyfloat list outcome" where
  "fanout_result s rfs net xs = fst (first_conclusive is_HTTPError (call_outcomes 3 (do_fanout s rfs net xs) 0))"

lemma retry_fanout:
  "\<exists>evs n. retry_async fanout_retry (do_fanout s rfs net xs) rand 0 = (fanout_result s rfs net xs, evs, n)"
  using retry_loop_run [of fanout_retry 1 2 rand "\<lambda>_. True" "do_fanout s rfs net xs" None 0]
  by (auto simp: retry_async_def fanout_retry_def fanout_result_def numeral_eq_Suc)

lemma fanout_result_cases:
  "fanout_result s rfs net xs =
     (let r = (\<lambda>k. fst (do_fanout s rfs net xs k))
      in if conclusive is_HTTPError (r 0) then r 0
         else if conclusive is_HTTPError (r 1) then r 1 else r 2)"
  by (simp add: fanout_result_def numeral_eq_Suc Let_def)

lemma process_failed:
  assumes "fanout_result s rfs net (items req) = Inl e" and "is_HTTPError e"
  shows "snd (process s rfs net cpp_post rand clk req) = Inl (HTTPException 502 ''service-b unreachable'')"
    and "last (fst (process s rfs net cpp_post rand clk req)) = FanoutFailed (exn_str e)"
  using retry_fanout [of s rfs net "items req" rand] assms by (auto simp: process_def)

lemma process_fanned_out:
  assumes "fanout_result s rfs net (items req) = Inr ys"
  shows "snd (process s rfs net cpp_post rand clk req)
       = and_then (snd (cpp_result_of s rfs cpp_post clk req)) (\<lambda>cpp.
           case aggregate (operation req) ys of
             Inl e \<Rightarrow> Inl (if is_ValueError e then HTTPException 400 (exn_str e) else e)
           | Inr result \<Rightarrow> Inr (response_of req clk ys cpp result))"
  using retry_fanout [of s rfs net "items req" rand] assms
  by (auto simp: process_def split: prod.splits)

text \<open>A request on which HTTP fails makes the whole attempt fail.\<close>

definition http_down :: "http_post \<Rightarrow> bool" where
  "http_down p = (\<forall>u j. \<exists>e. p u j = Inl e \<and> is_HTTPError e)"

lemma http_down_fanout:
  assumes "http_down (post (net k))" and "xs \<noteq> []"
  shows "\<exists>e. fst (do_fanout s rfs net xs k) = Inl e \<and> is_HTTPError e"
proof -
  let ?rs = "item_outcomes (one rfs (post (net k)) (service_b_url s)) xs"
  have down: "\<exists>e. one rfs (post (net k)) (service_b_url s) i v = Inl e \<and> is_HTTPError e" for i v
  proof -
    obtain e where "post (net k) (service_b_url s @ ''/squared'')
        (JObj [(''key'', JStr (''item-'' @ show_int (int i))), (''value'', JFloat v)]) = Inl e" "is_HTTPError e"
      using assms(1) unfolding http_down_def by blast
    then show ?thesis by (simp add: one_def get_checked_def)
  qed
  then have all: "\<exists>e. r = Inl e \<and> is_HTTPError e" if "r \<in> set ?rs" for r
    using that by (auto simp: in_set_conv_nth)
  have "?rs ! 0 \<in> set ?rs" using assms(2) by (intro nth_mem) simp
  with all obtain e where "Inl e \<in> set ?rs" by metis
  from do_fanout_failure [where net = net and k = k, OF refl this] all show ?thesis by fastforce
qed

subsection \<open>The pool flavours on their pipeline's outcome\<close>

locale float_pipeline = pipeline run admissible
  for run :: "(nat \<Rightarrow> pyfloat \<Rightarrow> pyfloat outcome) \<Rightarrow> pyfloat list \<Rightarrow> pyfloat list outcome option"
    and admissible :: "pyfloat outcome list \<Rightarrow> bool"
begin

lemma flavour_success:
  "item_outcomes f (items req) = map Inr ys \<Longrightarrow>
   pool_flavour run f clk req
     = Some (map_outcome (response_of req clk ys None) (aggregate (operation req) ys))"
  by (simp add: pool_flavour_def run_values)

lemma flavour_answers:
  "admissible (item_outcomes f (items req)) \<Longrightarrow> \<exists>r. pool_flavour run f clk req = Some r"
  using run_returns [of f "items req"] by (auto simp: pool_flavour_def)

lemma flavour_failure:
  assumes "admissible (item_outcomes f (items req))" and "Inl e \<in> set (item_outcomes f (items req))"
  shows "\<exists>e'. Inl e' \<in> set (item_outcomes f (items req)) \<and> pool_flavour run f clk req = Some (Inl e')"
  using run_failure [OF assms] by (auto simp: pool_flavour_def)

end

interpretation queue_flavour: float_pipeline "queue_pipeline pick (Fin 0) workers" only_exceptions
  for pick workers
  by unfold_locales

interpretation thread_flavour: float_pipeline "threadpool_pipeline pick workers" "\<lambda>_. True"
  for pick workers
  by unfold_locales

lemma aggregate_unsupported:
  "fanout \<noteq> [] \<Longrightarrow> op \<notin> {''sum'', ''mean'', ''square_sum''} \<Longrightarrow>
   aggregate op fanout = Inl (ValueError (''unsupported operation: '' @ py_repr op))"
  by (simp add: aggregate_def)

subsection \<open>Properties\<close>


lemma http_down_attempts:
  assumes "items req \<noteq> []" and "http_down (post (net 0))" and "http_down (post (net 1))" and "http_down (post (net 2))"
  shows "snd (process s rfs net cpp_post rand clk req) = Inl (HTTPException 502 ''service-b unreachable'')
       \<and> (\<exists>msg. last (fst (process s rfs net cpp_post rand clk req)) = FanoutFailed msg)"
proof -
  obtain e0 e1 e2 where "fst (do_fanout s rfs net (items req) 0) = Inl e0" "is_HTTPError e0"
    "fst (do_fanout s rfs net (items req) 1) = Inl e1" "is_HTTPError e1"
    "fst (do_fanout s rfs net (items req) 2) = Inl e2" "is_HTTPError e2"
    using http_down_fanout assms by meson
  then have "fanout_result s rfs net (items req) = Inl e2"
    by (simp add: fanout_result_cases conclusive_def)
  with process_failed [OF this \<open>is_HTTPError e2\<close>] show ?thesis by blast
qed


text \<open>
  The C++ worker is optional. If the fan-out succeeds and the C++ worker's request fails with
  an HTTP error, a \<open>square_sum\<close> is still answered, with the sum of the fan-out and no C++ result.
\<close>

theorem square_sum_without_cpp_worker:
  assumes "operation req = ''square_sum''" and "http_down cpp_post" and "ys \<noteq> []"
    and "item_outcomes (one rfs (post (net 0)) (service_b_url s)) (items req) = map Inr ys"
  shows "snd (process s rfs net cpp_post rand clk req) = Inr (response_of req clk ys None (py_sum ys))"
proof -
  have "fanout_result s rfs net (items req) = Inr ys"
    using do_fanout_success [where net = net and k = 0, OF assms(4)] by (simp add: fanout_result_cases conclusive_def)
  moreover obtain e where "cpp_post (cpp_worker_url s @ ''/square_sum'') (JObj [(''items'', JList (map JFloat (items req)))]) = Inl e"
    "is_HTTPError e" using assms(2) unfolding http_down_def by blast
  then have "snd (cpp_result_of s rfs cpp_post clk req) = Inr None"
    using assms(1) by (simp add: cpp_result_of_def call_cpp_worker_square_sum_def get_checked_def)
  ultimately show ?thesis using assms(1,3) by (simp add: process_fanned_out aggregate_def)
qed

lemma unsupported_fanned_out:
  assumes "operation req \<notin> {''sum'', ''mean'', ''square_sum''}" and "items req \<noteq> []"
    and "item_outcomes (one rfs (post (net 0)) (service_b_url s)) (items req) = map Inr ys"
  shows "snd (process s rfs net cpp_post rand clk req)
       = Inl (HTTPException 400 (''unsupported operation: '' @ py_repr (operation req)))"
proof -
  have "ys \<noteq> []" using assms(2) arg_cong [OF assms(3), of length] by auto
  moreover have "fanout_result s rfs net (items req) = Inr ys"
    using do_fanout_success [where net = net and k = 0, OF assms(3)] by (simp add: fanout_result_cases conclusive_def)
  ultimately show ?thesis
    using assms(1) by (simp add: process_fanned_out aggregate_unsupported cpp_result_of_def)
qed

lemma http_down_square_one: "http_down p \<Longrightarrow> \<exists>e. square_one rfs p a v = Inl e \<and> is_HTTPError e"
proof -
  assume "http_down p"
  then obtain e where "p (a @ ''/squared'') (JObj [(''key'', JStr ''queued''), (''value'', JFloat v)]) = Inl e" "is_HTTPError e"
    unfolding http_down_def by blast
  then show ?thesis by (simp add: square_one_def get_checked_def)
qed

lemma queue_down:
  assumes "items req \<noteq> []" and "\<And>i. http_down (http i)"
  shows "\<exists>e. process_via_queue s rfs pick http clk req = Some (Inl e) \<and> is_HTTPError e"
proof -
  let ?rs = "item_outcomes (\<lambda>i. square_one rfs (http i) (service_b_url s)) (items req)"
  have all: "\<exists>e. r = Inl e \<and> is_HTTPError e" if "r \<in> set ?rs" for r
    using that http_down_square_one [OF assms(2)] by (auto simp: in_set_conv_nth)
  have "only_exceptions ?rs"
    unfolding only_exceptions_items
    using http_down_square_one [OF assms(2), where rfs = rfs and a = "service_b_url s"] is_HTTPError_is_Exception
    by (metis sum.inject(1))
  moreover have "?rs ! 0 \<in> set ?rs" using assms(1) by (intro nth_mem) simp
  with all obtain e where "Inl e \<in> set ?rs" by metis
  ultimately obtain e' where "Inl e' \<in> set ?rs" "process_via_queue s rfs pick http clk req = Some (Inl e')"
    using queue_flavour.flavour_failure unfolding process_via_queue_def by blast
  with all show ?thesis by fastforce
qed

text \<open>
  C36: an unsupported operation is noticed only after the work. The same request is answered by
  what becomes of its squares. While service-b is down (\<open>down\<close>, \<open>dead\<close>), it gets the answer of a
  supported operation: 502 after the three attempts of the fan-out, and the HTTP error of an item from
  the queue. Only when all squares have been computed (\<open>net\<close>, \<open>http\<close>) is it rejected: the main
  pipeline answers 400, but the two pool endpoints let the \<open>ValueError\<close> through (which FastAPI turns
  into a 500).
\<close>

theorem unsupported_operation:
  assumes "operation req \<notin> {''sum'', ''mean'', ''square_sum''}" and "items req \<noteq> []"
    and "http_down (post (down 0))" and "http_down (post (down 1))" and "http_down (post (down 2))"
    and "\<And>i. http_down (dead i)"
    and "item_outcomes (one rfs (post (net 0)) (service_b_url s)) (items req) = map Inr ys"
    and "item_outcomes (\<lambda>i. square_one rfs (http i) (service_b_url s)) (items req) = map Inr zs"
  shows "snd (process s rfs down cpp_post rand clk req) = Inl (HTTPException 502 ''service-b unreachable'')
       \<and> (\<exists>e. process_via_queue s rfs pick dead clk req = Some (Inl e) \<and> is_HTTPError e)
       \<and> snd (process s rfs net cpp_post rand clk req)
           = Inl (HTTPException 400 (''unsupported operation: '' @ py_repr (operation req)))
       \<and> process_via_queue s rfs pick http clk req
           = Some (Inl (ValueError (''unsupported operation: '' @ py_repr (operation req))))
       \<and> process_via_threadpool s pick clk req
           = Some (Inl (ValueError (''unsupported operation: '' @ py_repr (operation req))))"
proof (intro conjI)
  show "snd (process s rfs down cpp_post rand clk req) = Inl (HTTPException 502 ''service-b unreachable'')"
    using http_down_attempts [where net = down] assms(2-5) by blast
  show "\<exists>e. process_via_queue s rfs pick dead clk req = Some (Inl e) \<and> is_HTTPError e"
    using queue_down assms(2,6) by blast
  show "snd (process s rfs net cpp_post rand clk req)
      = Inl (HTTPException 400 (''unsupported operation: '' @ py_repr (operation req)))"
    by (rule unsupported_fanned_out [where net = net, OF assms(1,2,7)])
  have "zs \<noteq> []" using assms(2) arg_cong [OF assms(8), of length] by auto
  then show "process_via_queue s rfs pick http clk req
      = Some (Inl (ValueError (''unsupported operation: '' @ py_repr (operation req))))"
    unfolding process_via_queue_def queue_flavour.flavour_success [OF assms(8)]
    by (simp add: aggregate_unsupported [OF _ assms(1)])
  have "item_outcomes (\<lambda>_. square_blocking) (items req) = map Inr (map (\<lambda>v. v * v) (items req))"
    by (simp add: item_outcomes_const square_blocking_def)
  from thread_flavour.flavour_success [OF this]
  show "process_via_threadpool s pick clk req
      = Some (Inl (ValueError (''unsupported operation: '' @ py_repr (operation req))))"
    using assms(1,2) by (simp add: process_via_threadpool_def aggregate_unsupported)
qed

text \<open>
  The thread-pool endpoint needs no other service and always answers: with the aggregate of
  the products \<open>v * v\<close>, in order, for any number of workers and any interleaving.
\<close>

theorem threadpool_endpoint_total:
  "process_via_threadpool s pick clk req
     = Some (map_outcome (response_of req clk (map (\<lambda>v. v * v) (items req)) None)
               (aggregate (operation req) (map (\<lambda>v. v * v) (items req))))"
  unfolding process_via_threadpool_def
  by (rule thread_flavour.flavour_success) (simp add: item_outcomes_const square_blocking_def)

text \<open>
  Aggregation of whole numbers is exact. For non-empty lists of non-negative integers whose
  total is at most \<open>2 ^ 53\<close> (and at most \<open>2 ^ 53\<close> of them), \<open>sum\<close> and \<open>square_sum\<close> give
  the exact total and \<open>mean\<close> the correctly rounded quotient of the exact total by the number.
\<close>

theorem aggregate_integers_exact:
  assumes "ns \<noteq> []" and "list_all (\<lambda>n. 0 \<le> n) ns" and "sum_list ns \<le> 2 ^ 53"
    and "0 < sum_list ns" and "int (length ns) \<le> 2 ^ 53"
  shows "aggregate ''sum'' (map (\<lambda>n. Fin (of_int n)) ns) = Inr (Fin (of_int (sum_list ns)))
       \<and> aggregate ''square_sum'' (map (\<lambda>n. Fin (of_int n)) ns) = Inr (Fin (of_int (sum_list ns)))
       \<and> aggregate ''mean'' (map (\<lambda>n. Fin (of_int n)) ns)
           = Inr (fl (of_int (sum_list ns) / of_int (int (length ns))))"
proof -
  have s: "py_sum (map (\<lambda>n. Fin (of_int n)) ns) = Fin (of_int (sum_list ns))"
    using assms(2,3) by (intro py_sum_ints) (auto simp: list_all_iff)
  have "fl (of_int (int (length ns))) = Fin (of_int (int (length ns)))"
    using assms(5) by (intro fl_of_int_exact) simp
  then have "float_of_int (int (length ns)) = Inr (Fin (of_int (int (length ns))))"
    by (simp only: float_of_int_def Let_def is_inf.simps) simp
  with s assms(1,4) show ?thesis
    by (simp add: aggregate_def py_div_def Let_def is_neg.simps)
qed

subsection \<open>Witnesses\<close>

text \<open>A service-b that answers with the product, one that is down, and sample requests.\<close>

definition squaring_post :: http_post where
  "squaring_post u j =
     (case and_then (json_item ''value'' j) json_to_float of
        Inl e \<Rightarrow> Inl e
      | Inr v \<Rightarrow> Inr \<lparr>status_code = 200, body = Inr (JObj [(''result'', JFloat (v * v))])\<rparr>)"

definition refusing_post :: http_post where
  "refusing_post u j = Inl (RequestError ''refused'')"

definition sample_net :: "nat \<Rightarrow> nat \<Rightarrow> network" where
  "sample_net down k = \<lparr>schedule = (\<lambda>n. n), post = (if k < down then refusing_post else squaring_post)\<rparr>"

definition sample_request :: "string \<Rightarrow> process_request" where
  "sample_request op = \<lparr>items = [Fin 1, Fin 2, Fin 3], operation = op\<rparr>"

definition sample_clock :: handler_clock where
  "sample_clock = \<lparr>hc_start = Fin 0, hc_stop = Fin 1, cpp_start = Fin 0, cpp_stop = Fin 1\<rparr>"

lemma refusing_post_down: "http_down refusing_post"
  by (simp add: http_down_def refusing_post_def)

lemma squaring_post_ok [simp]:
  "one plain_rfs squaring_post a i v = Inr (v * v)" "square_one plain_rfs squaring_post a v = Inr (v * v)"
  by (simp_all add: one_def square_one_def squaring_post_def json_item_def json_to_float_def get_checked_def
      plain_rfs_def is_success_def read_result_def)

lemma small_products:
  "map (\<lambda>v. v * v) [Fin 1, Fin 2, Fin 3] = map (\<lambda>n. Fin (of_int n)) [1, 4, 9]"
  using float_mult_ints [of 1 1] float_mult_ints [of 2 2] float_mult_ints [of 3 3] by simp

lemma small_outcomes:
  "item_outcomes (\<lambda>i v. Inr (v * v)) [Fin 1, Fin 2, Fin 3] = map Inr (map (\<lambda>n. Fin (of_int n)) [1, 4, 9])"
  using small_products by (simp add: item_outcomes_def)


lemma sample_outcomes:
  "item_outcomes (one plain_rfs squaring_post a) (items (sample_request op))
     = map Inr (map (\<lambda>n. Fin (of_int n)) [1, 4, 9])"
proof -
  have "one plain_rfs squaring_post a = (\<lambda>i v. Inr (v * v))" by (simp add: fun_eq_iff)
  then show ?thesis using small_outcomes by (simp add: sample_request_def)
qed



lemma square_sum_without_cpp_worker_witness:
  "map_outcome pr_cpp_result (snd (process (a_load_settings (\<lambda>_. None)) plain_rfs (sample_net 0) refusing_post
      (\<lambda>_. Fin 0) sample_clock (sample_request ''square_sum''))) = Inr None"
  using square_sum_without_cpp_worker [of "sample_request ''square_sum''" refusing_post
      "map (\<lambda>n. Fin (of_int n)) [1, 4, 9]" plain_rfs "sample_net 0" "a_load_settings (\<lambda>_. None)" "\<lambda>_. Fin 0" sample_clock]
    sample_outcomes [of "service_b_url (a_load_settings (\<lambda>_. None))" "''square_sum''"] refusing_post_down
  by (simp add: sample_net_def sample_request_def response_of_def)

lemma unsupported_operation_witness:
  "snd (process (a_load_settings (\<lambda>_. None)) plain_rfs (sample_net 3) refusing_post (\<lambda>_. Fin 0) sample_clock
      (sample_request ''max'')) = Inl (HTTPException 502 ''service-b unreachable'')
   \<and> snd (process (a_load_settings (\<lambda>_. None)) plain_rfs (sample_net 0) refusing_post (\<lambda>_. Fin 0) sample_clock
      (sample_request ''max'')) = Inl (HTTPException 400 (''unsupported operation: '' @ py_repr ''max''))"
proof -
  let ?s = "a_load_settings (\<lambda>_. None)"
  have "square_one plain_rfs squaring_post (service_b_url ?s) = (\<lambda>v. Inr (v * v))"
    by (simp add: fun_eq_iff)
  then have "item_outcomes (\<lambda>i. square_one plain_rfs ((\<lambda>_. squaring_post) i) (service_b_url ?s)) (items (sample_request ''max''))
      = map Inr (map (\<lambda>n. Fin (of_int n)) [1, 4, 9])"
    using small_outcomes by (simp add: sample_request_def)
  with unsupported_operation [of "sample_request ''max''" "sample_net 3" "\<lambda>_. refusing_post" plain_rfs "sample_net 0" ?s
      "map (\<lambda>n. Fin (of_int n)) [1, 4, 9]" "\<lambda>_. squaring_post" "map (\<lambda>n. Fin (of_int n)) [1, 4, 9]"
      refusing_post "\<lambda>_. Fin 0" sample_clock "\<lambda>n. n"]
    sample_outcomes [of "service_b_url ?s" "''max''"] refusing_post_down
  show ?thesis by (simp add: sample_net_def sample_request_def)
qed

lemma aggregate_integers_exact_witness:
  "aggregate ''sum'' (map (\<lambda>n. Fin (of_int n)) [1, 4, 9]) = Inr (Fin 14)"
  using aggregate_integers_exact [of "[1, 4, 9]"] by simp

end
