(* ===== verification/ApiGateway.thy ===== *)
theory ApiGateway
  imports HealthCheck FanOut
begin

text \<open>
  \<^verbatim>\<open>services/api-gateway/app/config.py\<close> and \<^verbatim>\<open>services/api-gateway/app/main.py\<close>: the
  gateway forwards requests to service-a and aggregates the health of the fleet.

  The HTTP client is an argument (\<open>http\<close>, \<open>get\<close>), and so is pydantic's validation of
  service-a's answer (\<open>validate\<close>); \<open>text\<close> is the text of a response. \<open>decodes\<close> is what the
  composition needs of \<open>validate\<close>: it reads back what FastAPI wrote. The events of a handler
  are the requests it sends and its log entries, in order.
\<close>

subsection \<open>Settings\<close>

record g_settings =
  g_service_name :: string
  g_service_port :: int
  service_a_url :: string
  g_service_b_url :: string
  g_cpp_worker_url :: string
  request_timeout_seconds :: pyfloat

definition g_load_settings :: "environ \<Rightarrow> g_settings outcome" where
  "g_load_settings env =
     map_outcome
       (\<lambda>timeout.
          \<lparr>g_service_name = env_str env ''SERVICE_NAME'' ''api-gateway'',
           g_service_port = env_int env ''SERVICE_PORT'' 8000,
           service_a_url = env_str env ''SERVICE_A_URL'' ''http://service-a:8001'',
           g_service_b_url = env_str env ''SERVICE_B_URL'' ''http://service-b:8002'',
           g_cpp_worker_url = env_str env ''CPP_WORKER_URL'' ''http://cpp-worker:8003'',
           request_timeout_seconds = timeout\<rparr>)
       (py_float (env_str env ''REQUEST_TIMEOUT_SECONDS'' ''10''))"

subsection \<open>The proxy\<close>

text \<open>The JSON documents of a request and of a response, as pydantic and FastAPI write them.\<close>

definition json_of_request :: "process_request \<Rightarrow> json" where
  "json_of_request r = JObj [(''items'', JList (map JFloat (items r))), (''operation'', JStr (operation r))]"

definition json_of_response :: "process_response \<Rightarrow> json" where
  "json_of_response r =
     JObj [(''operation'', JStr (pr_operation r)), (''result'', JFloat (pr_result r)),
           (''items_processed'', JInt (pr_items_processed r)),
           (''fanout_results'', JList (map JFloat (pr_fanout_results r))),
           (''cpp_result'', (case pr_cpp_result r of None \<Rightarrow> JNull | Some x \<Rightarrow> JFloat x)),
           (''duration_ms'', JFloat (pr_duration_ms r))]"

definition decodes :: "(json \<Rightarrow> process_response outcome) \<Rightarrow> bool" where
  "decodes validate = (\<forall>r. validate (json_of_response r) = Inr r)"

datatype g_event =
    Posted string json
  | ServiceAReturnedError string nat string
  | ServiceAUnreachable string string

text \<open>
  An \<open>HTTPStatusError\<close> comes from \<open>raise_for_status\<close>, so its response is the one received;
  \<open>client.post\<close> itself raises none (the first case below is there for completeness).
\<close>

definition proxy_to_service_a ::
  "g_settings \<Rightarrow> raise_for_status \<Rightarrow> (http_response \<Rightarrow> string) \<Rightarrow> (json \<Rightarrow> process_response outcome)
    \<Rightarrow> http_post \<Rightarrow> process_request \<Rightarrow> string \<Rightarrow> g_event list \<times> process_response outcome" where
  "proxy_to_service_a s rfs text validate http req path =
     (let url = service_a_url s @ path;
          sent = Posted url (json_of_request req);
          status_error = Inl (HTTPException 502 ''service-a error'');
          unreachable = Inl (HTTPException 502 ''service-a unreachable'')
      in case http url (json_of_request req) of
           Inl (HTTPStatusError st m) \<Rightarrow> ([sent, ServiceAReturnedError url st []], status_error)
         | Inl e \<Rightarrow>
             if is_HTTPError e then ([sent, ServiceAUnreachable url (exn_str e)], unreachable)
             else ([sent], Inl e)
         | Inr response \<Rightarrow>
             (case rfs response of
                Inl (HTTPStatusError st m) \<Rightarrow>
                  ([sent, ServiceAReturnedError url (status_code response) (take 200 (text response))], status_error)
              | Inl e \<Rightarrow>
                  if is_HTTPError e then ([sent, ServiceAUnreachable url (exn_str e)], unreachable)
                  else ([sent], Inl e)
              | Inr _ \<Rightarrow> ([sent], and_then (body response) validate)))"

definition flavour_paths :: "string \<rightharpoonup> string" where
  "flavour_paths = map_of [(''default'', ''/process''), (''queue'', ''/process/queue''),
                           (''threadpool'', ''/process/threadpool'')]"

definition gateway_process ::
  "g_settings \<Rightarrow> raise_for_status \<Rightarrow> (http_response \<Rightarrow> string) \<Rightarrow> (json \<Rightarrow> process_response outcome)
    \<Rightarrow> http_post \<Rightarrow> process_request \<Rightarrow> g_event list \<times> process_response outcome" where
  "gateway_process s rfs text validate http req =
     proxy_to_service_a s rfs text validate http req (the (flavour_paths ''default''))"

definition process_flavour ::
  "g_settings \<Rightarrow> raise_for_status \<Rightarrow> (http_response \<Rightarrow> string) \<Rightarrow> (json \<Rightarrow> process_response outcome)
    \<Rightarrow> http_post \<Rightarrow> string \<Rightarrow> process_request \<Rightarrow> g_event list \<times> process_response outcome" where
  "process_flavour s rfs text validate http flavour req =
     (if flavour_paths flavour = None \<or> flavour = ''default''
      then ([], Inl (HTTPException 400 (''unknown flavour '' @ py_repr flavour)))
      else proxy_to_service_a s rfs text validate http req (the (flavour_paths flavour)))"

subsection \<open>Fleet health\<close>

record probe_report =
  pb_url :: string
  pb_ok :: bool
  pb_detail :: json

definition gateway_probe ::
  "raise_for_status \<Rightarrow> (string \<Rightarrow> http_response outcome) \<Rightarrow> string \<Rightarrow> probe_report outcome" where
  "gateway_probe rfs get u =
     (case get_checked rfs (get u) of
        Inr resp \<Rightarrow> map_outcome (\<lambda>j. \<lparr>pb_url = u, pb_ok = True, pb_detail = j\<rparr>) (body resp)
      | Inl e \<Rightarrow>
          if is_HTTPError e then Inr \<lparr>pb_url = u, pb_ok = False, pb_detail = JStr (exn_str e)\<rparr>
          else Inl e)"

definition health_targets :: "g_settings \<Rightarrow> string list" where
  "health_targets s =
     [service_a_url s @ ''/health'', g_service_b_url s @ ''/health'', g_cpp_worker_url s @ ''/health'']"

definition system_health ::
  "g_settings \<Rightarrow> raise_for_status \<Rightarrow> (string \<Rightarrow> http_response outcome) \<Rightarrow> nat list \<Rightarrow> json outcome" where
  "system_health s rfs get ord =
     map_outcome
       (\<lambda>rs. JObj [(''ok'', JBool (list_all pb_ok rs)),
                   (''services'', JList (map (\<lambda>r. JObj [(''url'', JStr (pb_url r)), (''ok'', JBool (pb_ok r)),
                                                        (''detail'', pb_detail r)]) rs))])
       (gather ord (map (gateway_probe rfs get) (health_targets s)))"

subsection \<open>Facts\<close>

lemma proxy_cases:
  assumes "raises_on_error rfs"
  shows "proxy_to_service_a s rfs text validate http req path =
    (let u = service_a_url s @ path; j = json_of_request req
     in case http u j of
          Inl (HTTPStatusError st m) \<Rightarrow>
            ([Posted u j, ServiceAReturnedError u st []], Inl (HTTPException 502 ''service-a error''))
        | Inl e \<Rightarrow>
            if is_HTTPError e
            then ([Posted u j, ServiceAUnreachable u (exn_str e)], Inl (HTTPException 502 ''service-a unreachable''))
            else ([Posted u j], Inl e)
        | Inr resp \<Rightarrow>
            if is_success (status_code resp) then ([Posted u j], and_then (body resp) validate)
            else ([Posted u j, ServiceAReturnedError u (status_code resp) (take 200 (text resp))],
                  Inl (HTTPException 502 ''service-a error'')))"
proof -
  have "rfs resp = Inr ()" if "is_success (status_code resp)" for resp
    using assms that unfolding raises_on_error_def by presburger
  moreover have "\<exists>m. rfs resp = Inl (HTTPStatusError (status_code resp) m)" if "\<not> is_success (status_code resp)" for resp
    using assms that unfolding raises_on_error_def by presburger
  ultimately show ?thesis
    by (force simp: proxy_to_service_a_def Let_def split: sum.splits exn.splits)
qed

lemma flavour_paths_known:
  "flavour_paths ''default'' = Some ''/process''" "flavour_paths ''queue'' = Some ''/process/queue''"
  "flavour_paths ''threadpool'' = Some ''/process/threadpool''"
  by (simp_all add: flavour_paths_def)

lemma flavour_paths_dom: "flavour_paths f \<noteq> None \<longleftrightarrow> f \<in> {''default'', ''queue'', ''threadpool''}"
  by (auto simp: flavour_paths_def)

lemma probe_answers:
  assumes "raises_on_error rfs" and "http_client get" and "json_bodies get"
  shows "\<exists>r. gateway_probe rfs get u = Inr r \<and> pb_url r = u
    \<and> pb_ok r = url_answers get u"
proof (cases "get u")
  case (Inl e)
  then have "is_HTTPError e" using assms(2) by (simp add: http_client_def)
  with Inl show ?thesis by (simp add: gateway_probe_def get_checked_def url_answers_def)
next
  case (Inr resp)
  obtain j where j: "body resp = Inr j" using assms(3) Inr unfolding json_bodies_def by blast
  show ?thesis
  proof (cases "is_success (status_code resp)")
    case True
    then have "get_checked rfs (get u) = Inr resp" using Inr get_checked_Inr [OF assms(1)] by simp
    with True Inr j show ?thesis by (simp add: gateway_probe_def url_answers_def)
  next
    case False
    then obtain m where "rfs resp = Inl (HTTPStatusError (status_code resp) m)"
      using assms(1) unfolding raises_on_error_def by presburger
    with False Inr show ?thesis by (simp add: gateway_probe_def get_checked_def url_answers_def)
  qed
qed

subsection \<open>Properties\<close>

definition sample_g_settings :: g_settings where
  "sample_g_settings =
     \<lparr>g_service_name = ''g'', g_service_port = 1, service_a_url = ''http://a'', g_service_b_url = ''http://b'',
      g_cpp_worker_url = ''http://c'', request_timeout_seconds = Fin 10\<rparr>"

text \<open>
  The flavours. \<open>queue\<close> and \<open>threadpool\<close> are forwarded to the path of that name; every
  other flavour, \<open>default\<close> included, is answered 400 without a request to service-a.
\<close>

theorem flavour_routing:
  "process_flavour s rfs text validate http f req =
     (if f = ''queue'' \<or> f = ''threadpool''
      then proxy_to_service_a s rfs text validate http req (''/process/'' @ f)
      else ([], Inl (HTTPException 400 (''unknown flavour '' @ py_repr f))))"
proof -
  have "flavour_paths f = None" if "f \<noteq> ''queue''" "f \<noteq> ''threadpool''" "f \<noteq> ''default''"
    using that flavour_paths_dom [of f] by auto
  then show ?thesis
    by (auto simp: process_flavour_def flavour_paths_known)
qed

text \<open>
  Fleet health. If the client only fails with HTTP errors and the services answer JSON, then
  \<open>GET /system/health\<close> always answers, whatever order the probes finish in; it reports service-a,
  service-b and the C++ worker, in this order, each as healthy exactly if it answered with a
  success status, and the fleet as healthy exactly if all three are.
\<close>

theorem system_health_reports:
  assumes "raises_on_error rfs" and "http_client get" and "json_bodies get"
  shows "\<exists>rs. gather ord (map (gateway_probe rfs get) (health_targets s)) = Inr rs
    \<and> map pb_url rs = health_targets s
    \<and> map pb_ok rs = map (url_answers get) (health_targets s)
    \<and> (\<exists>js. system_health s rfs get ord = Inr (JObj [(''ok'', JBool (list_all pb_ok rs)), (''services'', JList js)]) \<and> length js = 3)"
proof -
  have ex: "\<forall>u\<in>set (health_targets s). \<exists>r. gateway_probe rfs get u = Inr r"
    using probe_answers [OF assms] by blast
  then obtain rs where rs: "gather ord (map (gateway_probe rfs get) (health_targets s)) = Inr rs"
    using gather.collect_never_fails by blast
  then have nth: "length rs = length (health_targets s)"
    "\<forall>i<length (health_targets s). gateway_probe rfs get (health_targets s ! i) = Inr (rs ! i)"
    by (auto simp: gather.collect_map)
  have each: "pb_url (rs ! i) = health_targets s ! i \<and> pb_ok (rs ! i) = url_answers get (health_targets s ! i)" if "i < length (health_targets s)" for i
    using probe_answers [OF assms, of "health_targets s ! i"] nth(2) that by auto
  have "map pb_url rs = health_targets s" using nth(1) each by (intro nth_equalityI) auto
  moreover have "map pb_ok rs = map (url_answers get) (health_targets s)"
    using nth(1) each by (intro nth_equalityI) auto
  moreover have "length rs = 3" using nth(1) by (simp add: health_targets_def)
  ultimately show ?thesis using rs by (auto simp: system_health_def)
qed

lemma system_health_reports_witness:
  "\<exists>js. system_health sample_g_settings plain_rfs sample_get [2, 0, 1]
      = Inr (JObj [(''ok'', JBool False), (''services'', JList js)])"
proof -
  have "json_bodies sample_get" by (auto simp: json_bodies_def sample_get_def)
  from system_health_reports [OF plain_rfs_raises sample_get_client this, of "[2, 0, 1]" sample_g_settings]
  obtain rs :: "probe_report list" where ok: "map pb_ok rs = map (url_answers sample_get) (health_targets sample_g_settings)"
    and ex: "\<exists>js. system_health sample_g_settings plain_rfs sample_get [2, 0, 1]
      = Inr (JObj [(''ok'', JBool (list_all pb_ok rs)), (''services'', JList js)]) \<and> length js = 3"
    by blast
  have "list_all pb_ok rs = list_all id (map pb_ok rs)" by (simp add: list_all_iff)
  then have "\<not> list_all pb_ok rs" unfolding ok
    by (simp add: health_targets_def sample_g_settings_def sample_get_def url_answers_def)
  with ex show ?thesis by auto
qed

end
