(* ===== verification/ThreadPool.thy ===== *)
theory ThreadPool
  imports Scheduler "HOL-Library.Word"
begin

text \<open>
  \<^verbatim>\<open>services/cpp-worker/src/thread_pool.hpp\<close>, and the machine of the calls of
  \<open>ComputeSquareSumThreaded\<close> that share one pool.

  A \<open>thread_pool\<close> has its worker threads, the queue of tasks and the stop flag. A worker is
  awake (about to take the mutex and look at the queue), asleep on the condition variable, running
  a task, or gone. \<open>Submit\<close>, \<open>Loop_check\<close> and the parts of the destructor are the mutex
  sections; \<open>notify_one\<close> and \<open>notify_all\<close> happen after the mutex was released, so they are steps
  of their own. Spurious wake-ups are left out: they only repeat the check.

  The pool exists as often as its caller can construct it: the number of elements a
  \<open>std::vector\<close> can reserve and the number of threads the system starts are parameters.
\<close>

subsection \<open>The pool\<close>

type_synonym size = "64 word"

text \<open>The exceptions of the C++ sources; \<open>Terminate\<close> is \<open>std::terminate\<close>.\<close>

datatype cpp_error =
    InvalidArgument string
  | OutOfRange string
  | LengthError string
  | RuntimeError string
  | Terminate

datatype 'j thread = Awake | Asleep | Running 'j | Left

record 'j thread_pool =
  tp_workers :: "'j thread list"
  tp_tasks :: "'j list"
  tp_stop :: bool

text \<open>
  The constructor. \<open>reserve\<close> throws for more than \<open>max_size\<close> elements; if the system refuses to
  start a thread, the exception unwinds over threads that are still joinable, which terminates.
\<close>

definition ThreadPool :: "nat \<Rightarrow> nat \<Rightarrow> size \<Rightarrow> cpp_error + 'j thread_pool" where
  "ThreadPool max_size startable worker_count =
     (if worker_count = 0 then Inl (InvalidArgument ''ThreadPool: worker_count must be > 0'')
      else if max_size < unat worker_count then Inl (LengthError ''vector::reserve'')
      else if startable < unat worker_count then Inl Terminate
      else Inr \<lparr>tp_workers = replicate (unat worker_count) Awake, tp_tasks = [], tp_stop = False\<rparr>)"

definition Size :: "'j thread_pool \<Rightarrow> size" where
  "Size p = of_nat (length (tp_workers p))"

definition Submit :: "'j \<Rightarrow> 'j thread_pool \<Rightarrow> cpp_error + 'j thread_pool" where
  "Submit fn p =
     (if tp_stop p then Inl (RuntimeError ''ThreadPool: submit after stop'')
      else Inr (p\<lparr>tp_tasks := tp_tasks p @ [fn]\<rparr>))"

definition set_worker :: "nat \<Rightarrow> 'j thread \<Rightarrow> 'j thread_pool \<Rightarrow> 'j thread_pool" where
  "set_worker w t p = p\<lparr>tp_workers := (tp_workers p)[w := t]\<rparr>"

text \<open>The mutex section of \<open>Loop\<close>: wait for a task or the stop flag, leave, or take a task.\<close>

definition Loop_check :: "nat \<Rightarrow> 'j thread_pool \<Rightarrow> 'j thread_pool" where
  "Loop_check w p =
     (if \<not> (tp_stop p \<or> tp_tasks p \<noteq> []) then set_worker w Asleep p
      else if tp_stop p \<and> tp_tasks p = [] then set_worker w Left p
      else set_worker w (Running (hd (tp_tasks p))) (p\<lparr>tp_tasks := tl (tp_tasks p)\<rparr>))"

fun woken :: "'j thread \<Rightarrow> 'j thread" where
  "woken Asleep = Awake"
| "woken t = t"

definition notify_all :: "'j thread_pool \<Rightarrow> 'j thread_pool" where
  "notify_all p = p\<lparr>tp_workers := map woken (tp_workers p)\<rparr>"

text \<open>The threads one of which \<open>notify_one\<close> wakes.\<close>

definition asleep :: "'j thread_pool \<Rightarrow> nat list" where
  "asleep p = filter (\<lambda>w. case tp_workers p ! w of Asleep \<Rightarrow> True | _ \<Rightarrow> False) [0..<length (tp_workers p)]"

text \<open>The destructor: the stop flag, the notification, and the join of threads that have left.\<close>

definition stop_pool :: "'j thread_pool \<Rightarrow> 'j thread_pool" where
  "stop_pool p = p\<lparr>tp_stop := True\<rparr>"

definition joined :: "'j thread_pool \<Rightarrow> bool" where
  "joined p = list_all (\<lambda>t. case t of Left \<Rightarrow> True | _ \<Rightarrow> False) (tp_workers p)"

subsection \<open>Calls that share a pool\<close>

text \<open>
  A call of \<open>ComputeSquareSumThreaded\<close>: the chunk its loop submits next, whether it has to
  notify first, the chunks whose futures are ready (in the order of the merges) and its
  accumulator. A task is a call and a chunk. \<open>nch r\<close> is the number of chunks of call \<open>r\<close> and
  \<open>part r k\<close> the partial sum of its chunk \<open>k\<close>; the items do not change during the call.
\<close>

record sum_call =
  next_chunk :: nat
  to_notify :: bool
  ready :: "nat list"
  accumulator :: pyfloat

record sum_state =
  tpool :: "(nat \<times> nat) thread_pool"
  calls :: "sum_call list"
  notified :: bool

datatype sum_action =
    Push nat
  | NotifyOne nat nat
  | NotifyNobody nat
  | Check nat
  | Merge nat
  | StopPool
  | NotifyAll

definition new_call :: sum_call where
  "new_call = \<lparr>next_chunk = 0, to_notify = False, ready = [], accumulator = Fin 0\<rparr>"

definition sum_init :: "(nat \<times> nat) thread_pool \<Rightarrow> nat \<Rightarrow> sum_state" where
  "sum_init p m = \<lparr>tpool = p, calls = replicate m new_call, notified = False\<rparr>"

text \<open>\<open>f.get()\<close> of all the futures: the call returns when they are ready.\<close>

definition call_done :: "nat \<Rightarrow> sum_call \<Rightarrow> bool" where
  "call_done n c = (next_chunk c = n \<and> \<not> to_notify c \<and> length (ready c) = n)"

definition all_done :: "(nat \<Rightarrow> nat) \<Rightarrow> sum_state \<Rightarrow> bool" where
  "all_done nch st = list_all (\<lambda>(r, c). call_done (nch r) c) (List.enumerate 0 (calls st))"

definition call_actions :: "nat list \<Rightarrow> nat \<Rightarrow> nat \<Rightarrow> sum_call \<Rightarrow> sum_action list" where
  "call_actions sleepers n r c =
     (if to_notify c then (if sleepers = [] then [NotifyNobody r] else map (NotifyOne r) sleepers)
      else if next_chunk c < n then [Push r] else [])"

fun worker_actions :: "nat \<Rightarrow> 'j thread \<Rightarrow> sum_action list" where
  "worker_actions w Awake = [Check w]"
| "worker_actions w (Running j) = [Merge w]"
| "worker_actions w Asleep = []"
| "worker_actions w Left = []"

text \<open>The pool is destroyed at the end of \<open>main\<close>, after the server and its calls.\<close>

definition owner_actions :: "(nat \<Rightarrow> nat) \<Rightarrow> sum_state \<Rightarrow> sum_action list" where
  "owner_actions nch st =
     (if \<not> all_done nch st then []
      else if \<not> tp_stop (tpool st) then [StopPool]
      else if \<not> notified st then [NotifyAll] else [])"

definition sum_enabled :: "(nat \<Rightarrow> nat) \<Rightarrow> sum_state \<Rightarrow> sum_action list" where
  "sum_enabled nch st =
     concat (map (\<lambda>(r, c). call_actions (asleep (tpool st)) (nch r) r c) (List.enumerate 0 (calls st)))
     @ concat (map (\<lambda>(w, t). worker_actions w t) (List.enumerate 0 (tp_workers (tpool st))))
     @ owner_actions nch st"

text \<open>
  \<open>Merge\<close> is the task: the partial sum is computed without shared state, then added to the
  accumulator under its mutex, and the future becomes ready. An exception of \<open>Submit\<close> leaves the
  state as it is; \<open>sum_inv\<close> shows that no call ever meets it.
\<close>

fun sum_act :: "(nat \<Rightarrow> nat \<Rightarrow> pyfloat) \<Rightarrow> sum_action \<Rightarrow> sum_state \<Rightarrow> sum_state" where
  "sum_act part (Push r) st =
     (case Submit (r, next_chunk (calls st ! r)) (tpool st) of
        Inl _ \<Rightarrow> st
      | Inr p \<Rightarrow> st\<lparr>tpool := p,
                   calls := (calls st)[r := (calls st ! r)\<lparr>next_chunk := Suc (next_chunk (calls st ! r)),
                                                           to_notify := True\<rparr>]\<rparr>)"
| "sum_act part (NotifyOne r w) st =
     st\<lparr>tpool := set_worker w Awake (tpool st),
        calls := (calls st)[r := (calls st ! r)\<lparr>to_notify := False\<rparr>]\<rparr>"
| "sum_act part (NotifyNobody r) st =
     st\<lparr>calls := (calls st)[r := (calls st ! r)\<lparr>to_notify := False\<rparr>]\<rparr>"
| "sum_act part (Check w) st = st\<lparr>tpool := Loop_check w (tpool st)\<rparr>"
| "sum_act part (Merge w) st =
     (case tp_workers (tpool st) ! w of
        Running (r, k) \<Rightarrow>
          st\<lparr>tpool := set_worker w Awake (tpool st),
             calls := (calls st)[r := (calls st ! r)\<lparr>ready := ready (calls st ! r) @ [k],
                                  accumulator := accumulator (calls st ! r) + part r k\<rparr>]\<rparr>
      | _ \<Rightarrow> st)"
| "sum_act part StopPool st = st\<lparr>tpool := stop_pool (tpool st)\<rparr>"
| "sum_act part NotifyAll st = st\<lparr>tpool := notify_all (tpool st), notified := True\<rparr>"

definition call_result :: "(nat \<Rightarrow> nat) \<Rightarrow> nat \<Rightarrow> sum_state \<Rightarrow> pyfloat option" where
  "call_result nch r st =
     (if call_done (nch r) (calls st ! r) then Some (accumulator (calls st ! r)) else None)"

text \<open>
  Five steps suffice for a chunk (submitted, notified, taken, merged, and the look at the queue
  after that), and three for a worker besides, and two for the owner of the pool.
\<close>

definition sum_fuel :: "(nat \<Rightarrow> nat) \<Rightarrow> nat \<Rightarrow> nat \<Rightarrow> nat" where
  "sum_fuel nch m workers = 5 * (\<Sum>r\<leftarrow>[0..<m]. nch r) + 2 * workers + 2"

definition sum_run ::
  "(nat \<Rightarrow> nat) \<Rightarrow> (nat \<Rightarrow> nat) \<Rightarrow> (nat \<Rightarrow> nat \<Rightarrow> pyfloat) \<Rightarrow> (nat \<times> nat) thread_pool \<Rightarrow> nat \<Rightarrow> sum_state" where
  "sum_run pick nch part p m =
     drive (sum_enabled nch) (sum_act part) pick (sum_fuel nch m (length (tp_workers p))) (sum_init p m)"



subsection \<open>Which actions are enabled\<close>

lemma asleep_member: "w \<in> set (asleep p) \<longleftrightarrow> w < length (tp_workers p) \<and> tp_workers p ! w = Asleep"
  by (auto simp: asleep_def split: thread.splits)

lemma asleep_none: "asleep p = [] \<longleftrightarrow> Asleep \<notin> set (tp_workers p)"
  using asleep_member [of _ p] by (metis empty_iff empty_set in_set_conv_nth last_in_set)

lemma all_done_iff: "all_done nch st \<longleftrightarrow> (\<forall>r<length (calls st). call_done (nch r) (calls st ! r))"
  by (auto simp: all_done_def list_all_iff in_set_enumerate_eq)

lemma enabled_iff:
  "a \<in> set (sum_enabled nch st) \<longleftrightarrow>
     (\<exists>r<length (calls st). a \<in> set (call_actions (asleep (tpool st)) (nch r) r (calls st ! r))) \<or>
     (\<exists>w<length (tp_workers (tpool st)). a \<in> set (worker_actions w (tp_workers (tpool st) ! w))) \<or>
     a \<in> set (owner_actions nch st)"
  by (force simp: sum_enabled_def in_set_enumerate_eq)

lemma worker_actions_member:
  "a \<in> set (worker_actions w t) \<longleftrightarrow> a = Check w \<and> t = Awake \<or> a = Merge w \<and> (\<exists>j. t = Running j)"
  by (cases t) auto

lemma sum_enabled_cases:
  assumes "a \<in> set (sum_enabled nch st)"
  obtains (push) r where "a = Push r" "r < length (calls st)" "\<not> to_notify (calls st ! r)" "next_chunk (calls st ! r) < nch r"
  | (one) r w where "a = NotifyOne r w" "r < length (calls st)" "to_notify (calls st ! r)"
      "w < length (tp_workers (tpool st))" "tp_workers (tpool st) ! w = Asleep"
  | (nobody) r where "a = NotifyNobody r" "r < length (calls st)" "to_notify (calls st ! r)"
      "Asleep \<notin> set (tp_workers (tpool st))"
  | (check) w where "a = Check w" "w < length (tp_workers (tpool st))" "tp_workers (tpool st) ! w = Awake"
  | (merge) w r k where "a = Merge w" "w < length (tp_workers (tpool st))" "tp_workers (tpool st) ! w = Running (r, k)"
  | (stop) "a = StopPool" "all_done nch st" "\<not> tp_stop (tpool st)"
  | (all) "a = NotifyAll" "all_done nch st" "tp_stop (tpool st)" "\<not> notified st"
proof -
  from assms consider (c) r where "r < length (calls st)" "a \<in> set (call_actions (asleep (tpool st)) (nch r) r (calls st ! r))"
    | (w) w where "w < length (tp_workers (tpool st))" "a \<in> set (worker_actions w (tp_workers (tpool st) ! w))"
    | (o) "a \<in> set (owner_actions nch st)"
    by (auto simp: enabled_iff)
  then show thesis
  proof cases
    case c
    then show thesis using push one nobody
      by (auto simp: call_actions_def asleep_member asleep_none split: if_splits)
  next
    case w
    then show thesis using check merge by (auto simp: worker_actions_member)
  next
    case o
    then show thesis using stop all by (auto simp: owner_actions_def split: if_splits)
  qed
qed

subsection \<open>The invariant\<close>

fun carried :: "'j thread \<Rightarrow> 'j list" where
  "carried (Running j) = [j]"
| "carried t = []"

definition open_tasks :: "'j thread_pool \<Rightarrow> 'j multiset" where
  "open_tasks p = mset (tp_tasks p) + mset (concat (map carried (tp_workers p)))"

definition chunks_of :: "nat \<Rightarrow> (nat \<times> nat) multiset \<Rightarrow> nat multiset" where
  "chunks_of r js = image_mset snd (filter_mset (\<lambda>j. fst j = r) js)"

definition call_inv :: "nat \<Rightarrow> (nat \<Rightarrow> pyfloat) \<Rightarrow> nat multiset \<Rightarrow> sum_call \<Rightarrow> bool" where
  "call_inv n f js c =
     (next_chunk c \<le> n \<and> js + mset (ready c) = mset [0..<next_chunk c] \<and>
      accumulator c = foldl (+) (Fin 0) (map f (ready c)))"

fun active :: "'j thread \<Rightarrow> bool" where
  "active Awake = True"
| "active (Running j) = True"
| "active t = False"

text \<open>
  Every chunk submitted so far is in the queue, in the hands of a worker or merged, once; the
  accumulator is the sum of what was merged, in the order of the merges. A task in the queue has
  somebody to see it: a worker that is active, or a notification that is still to come.
\<close>

definition sum_inv :: "nat \<Rightarrow> (nat \<Rightarrow> nat) \<Rightarrow> (nat \<Rightarrow> nat \<Rightarrow> pyfloat) \<Rightarrow> sum_state \<Rightarrow> bool" where
  "sum_inv n nch part st =
     (length (tp_workers (tpool st)) = n \<and> 0 < n \<and>
      (\<forall>j\<in>#open_tasks (tpool st). fst j < length (calls st)) \<and>
      (\<forall>r<length (calls st). call_inv (nch r) (part r) (chunks_of r (open_tasks (tpool st))) (calls st ! r)) \<and>
      (tp_stop (tpool st) \<longrightarrow> all_done nch st) \<and>
      (Left \<in> set (tp_workers (tpool st)) \<longrightarrow> tp_stop (tpool st)) \<and>
      (notified st \<longrightarrow> tp_stop (tpool st) \<and> Asleep \<notin> set (tp_workers (tpool st))) \<and>
      (tp_tasks (tpool st) \<noteq> [] \<longrightarrow>
         list_ex active (tp_workers (tpool st)) \<or> list_ex to_notify (calls st)))"

lemma open_set_worker:
  "w < length (tp_workers p) \<Longrightarrow>
   open_tasks (set_worker w t p) + mset (carried (tp_workers p ! w)) = open_tasks p + mset (carried t)"
  using mset_concat_update [of w "tp_workers p" carried t]
  by (simp add: open_tasks_def set_worker_def ac_simps)

lemma open_wake:
  "w < length (tp_workers p) \<Longrightarrow> tp_workers p ! w = Asleep \<Longrightarrow> open_tasks (set_worker w Awake p) = open_tasks p"
  using open_set_worker [of w p Awake] by simp

lemma open_check:
  assumes "w < length (tp_workers p)" and "tp_workers p ! w = Awake"
  shows "open_tasks (Loop_check w p) = open_tasks p"
proof (cases "tp_tasks p")
  case (Cons j q)
  then show ?thesis
    using assms open_set_worker [of w "p\<lparr>tp_tasks := q\<rparr>" "Running j"] by (simp add: Loop_check_def open_tasks_def)
qed (use assms open_set_worker [of w p] in \<open>auto simp: Loop_check_def\<close>)

lemma open_merge:
  "w < length (tp_workers p) \<Longrightarrow> tp_workers p ! w = Running j \<Longrightarrow>
   open_tasks p = add_mset j (open_tasks (set_worker w Awake p))"
  using open_set_worker [of w p Awake] by simp

lemma carried_woken [simp]: "carried (woken t) = carried t"
  by (cases t) auto

lemma open_notify_all: "open_tasks (notify_all p) = open_tasks p"
  by (simp add: open_tasks_def notify_all_def comp_def)

lemma open_stop: "open_tasks (stop_pool p) = open_tasks p"
  by (simp add: open_tasks_def stop_pool_def)

lemma chunks_of_add: "chunks_of r (add_mset (q, k) js) = (if q = r then add_mset k (chunks_of r js) else chunks_of r js)"
  by (simp add: chunks_of_def)

lemma all_done_open:
  assumes inv: "sum_inv n nch part st" and d: "all_done nch st"
  shows "open_tasks (tpool st) = {#}"
proof (rule ccontr)
  assume "open_tasks (tpool st) \<noteq> {#}"
  then obtain r k where j: "(r, k) \<in># open_tasks (tpool st)" by auto
  with inv have r: "r < length (calls st)" by (auto simp: sum_inv_def)
  with inv have "call_inv (nch r) (part r) (chunks_of r (open_tasks (tpool st))) (calls st ! r)" by (simp add: sum_inv_def)
  then have "size (chunks_of r (open_tasks (tpool st))) + length (ready (calls st ! r)) = next_chunk (calls st ! r)"
    unfolding call_inv_def by (metis size_mset size_union length_upt minus_nat.diff_0)
  then have "chunks_of r (open_tasks (tpool st)) = {#}" using d r by (auto simp: all_done_iff call_done_def)
  with j show False by (auto simp: chunks_of_def)
qed


lemma sum_inv_D:
  assumes "sum_inv n nch part st" and "r < length (calls st)"
  shows "call_inv (nch r) (part r) (chunks_of r (open_tasks (tpool st))) (calls st ! r)"
    and "\<not> call_done (nch r) (calls st ! r) \<Longrightarrow> \<not> tp_stop (tpool st)"
    and "to_notify (calls st ! r) \<Longrightarrow> \<not> tp_stop (tpool st)"
  using assms by (auto simp: sum_inv_def all_done_iff call_done_def)

lemma sum_inv_push:
  assumes inv: "sum_inv n nch part st" and r: "r < length (calls st)"
    and c: "\<not> to_notify (calls st ! r)" "next_chunk (calls st ! r) < nch r"
  shows "sum_inv n nch part (sum_act part (Push r) st)"
proof -
  let ?k = "next_chunk (calls st ! r)" and ?p = "tpool st"
  have ns: "\<not> tp_stop ?p" using sum_inv_D(2) [OF inv r] c by (simp add: call_done_def)
  have o: "open_tasks (?p\<lparr>tp_tasks := tp_tasks ?p @ [(r, ?k)]\<rparr>) = add_mset (r, ?k) (open_tasks ?p)"
    by (simp add: open_tasks_def)
  have act: "sum_act part (Push r) st =
      st\<lparr>tpool := ?p\<lparr>tp_tasks := tp_tasks ?p @ [(r, ?k)]\<rparr>,
         calls := (calls st)[r := (calls st ! r)\<lparr>next_chunk := Suc ?k, to_notify := True\<rparr>]\<rparr>"
    using ns by (simp add: Submit_def)
  have "list_ex to_notify ((calls st)[r := (calls st ! r)\<lparr>next_chunk := Suc ?k, to_notify := True\<rparr>])"
    using r by (auto simp: list_ex_length intro!: exI [of _ r])
  then show ?thesis
    using inv ns r c sum_inv_D(1) [OF inv r] unfolding act sum_inv_def
    by (auto simp: o chunks_of_add call_inv_def nth_list_update simp del: mset_upt)
qed

lemma sum_inv_notified:
  assumes inv: "sum_inv n nch part st" and r: "r < length (calls st)" and t: "to_notify (calls st ! r)"
    and ws: "length (tp_workers p) = length (tp_workers (tpool st))" "open_tasks p = open_tasks (tpool st)"
      "tp_tasks p = tp_tasks (tpool st)" "tp_stop p = tp_stop (tpool st)"
      "Left \<in> set (tp_workers p) \<longrightarrow> Left \<in> set (tp_workers (tpool st))" "list_ex active (tp_workers p)"
  shows "sum_inv n nch part (st\<lparr>tpool := p, calls := (calls st)[r := (calls st ! r)\<lparr>to_notify := False\<rparr>]\<rparr>)"
  using inv r ws sum_inv_D [OF inv r] t
  unfolding sum_inv_def by (auto simp: call_inv_def nth_list_update)

lemma sum_inv_one:
  assumes inv: "sum_inv n nch part st" and r: "r < length (calls st)" and t: "to_notify (calls st ! r)"
    and w: "w < length (tp_workers (tpool st))" "tp_workers (tpool st) ! w = Asleep"
  shows "sum_inv n nch part (sum_act part (NotifyOne r w) st)"
proof -
  have "list_ex active (tp_workers (set_worker w Awake (tpool st)))"
    using w by (auto simp: set_worker_def list_ex_length intro!: exI [of _ w])
  with sum_inv_notified [OF inv r t, of "set_worker w Awake (tpool st)"] w open_wake [OF w] show ?thesis
    by (auto simp: set_worker_def dest: set_update_subset_insert [THEN subsetD])
qed

lemma sum_inv_nobody:
  assumes inv: "sum_inv n nch part st" and r: "r < length (calls st)" and t: "to_notify (calls st ! r)"
    and none: "Asleep \<notin> set (tp_workers (tpool st))"
  shows "sum_inv n nch part (sum_act part (NotifyNobody r) st)"
proof -
  have "Left \<notin> set (tp_workers (tpool st))" "0 < length (tp_workers (tpool st))"
    using inv sum_inv_D(3) [OF inv r t] by (auto simp: sum_inv_def)
  moreover from this have h: "tp_workers (tpool st) ! 0 \<in> set (tp_workers (tpool st))" by auto
  ultimately have "active (tp_workers (tpool st) ! 0)"
    using none by (cases "tp_workers (tpool st) ! 0") auto
  with h have "list_ex active (tp_workers (tpool st))" by (auto simp: list_ex_iff)
  with sum_inv_notified [OF inv r t, of "tpool st"] show ?thesis by simp
qed

lemma sum_inv_check:
  assumes inv: "sum_inv n nch part st"
    and w: "w < length (tp_workers (tpool st))" "tp_workers (tpool st) ! w = Awake"
  shows "sum_inv n nch part (sum_act part (Check w) st)"
proof -
  let ?p = "tpool st"
  have len: "length (tp_workers (Loop_check w ?p)) = length (tp_workers ?p)" "tp_stop (Loop_check w ?p) = tp_stop ?p"
    by (simp_all add: Loop_check_def set_worker_def)
  have left: "Left \<in> set (tp_workers (Loop_check w ?p)) \<Longrightarrow> tp_stop ?p"
    using inv by (auto simp: Loop_check_def set_worker_def sum_inv_def split: if_splits
        dest!: set_update_subset_insert [THEN subsetD])
  have slp: "Asleep \<in> set (tp_workers (Loop_check w ?p)) \<Longrightarrow> Asleep \<in> set (tp_workers ?p) \<or> \<not> tp_stop ?p"
    by (auto simp: Loop_check_def set_worker_def split: if_splits dest!: set_update_subset_insert [THEN subsetD])
  have act: "tp_tasks (Loop_check w ?p) \<noteq> [] \<Longrightarrow> list_ex active (tp_workers (Loop_check w ?p))"
    using w by (auto simp: Loop_check_def set_worker_def list_ex_length split: if_splits intro!: exI [of _ w])
  show ?thesis
    using inv len left slp act open_check [OF w] unfolding sum_inv_def by (auto simp: all_done_def)
qed

lemma sum_inv_merge:
  assumes inv: "sum_inv n nch part st"
    and w: "w < length (tp_workers (tpool st))" "tp_workers (tpool st) ! w = Running (r, k)"
  shows "sum_inv n nch part (sum_act part (Merge w) st)"
proof -
  let ?p = "set_worker w Awake (tpool st)"
  note o = open_merge [OF w]
  have r: "r < length (calls st)" using inv o by (auto simp: sum_inv_def)
  have ns: "\<not> tp_stop (tpool st)"
  proof
    assume "tp_stop (tpool st)"
    with inv have "all_done nch st" by (simp add: sum_inv_def)
    from all_done_open [OF inv this] o show False by simp
  qed
  have act: "sum_act part (Merge w) st =
      st\<lparr>tpool := ?p, calls := (calls st)[r := (calls st ! r)\<lparr>ready := ready (calls st ! r) @ [k],
                                  accumulator := accumulator (calls st ! r) + part r k\<rparr>]\<rparr>"
    using w by simp
  have "list_ex active (tp_workers ?p)"
    using w by (auto simp: set_worker_def list_ex_length intro!: exI [of _ w])
  moreover have "length (tp_workers ?p) = length (tp_workers (tpool st))" "tp_stop ?p = tp_stop (tpool st)"
    by (simp_all add: set_worker_def)
  moreover have "Left \<notin> set (tp_workers ?p)"
    using inv ns by (auto simp: set_worker_def sum_inv_def dest!: set_update_subset_insert [THEN subsetD])
  ultimately show ?thesis
    using inv ns r sum_inv_D(1) [OF inv r] unfolding act sum_inv_def
    by (auto simp: o chunks_of_add call_inv_def nth_list_update simp del: mset_upt)
qed

lemma sum_inv_stop:
  assumes inv: "sum_inv n nch part st" and d: "all_done nch st"
  shows "sum_inv n nch part (sum_act part StopPool st)"
  using inv d all_done_open [OF inv d] unfolding sum_inv_def
  by (auto simp: open_stop all_done_def) (auto simp: open_tasks_def stop_pool_def)

lemma sum_inv_all:
  assumes inv: "sum_inv n nch part st" and d: "all_done nch st" and s: "tp_stop (tpool st)"
  shows "sum_inv n nch part (sum_act part NotifyAll st)"
proof -
  have "tp_tasks (tpool st) = []" using all_done_open [OF inv d] by (simp add: open_tasks_def)
  moreover have "Asleep \<noteq> woken t" for t :: "(nat \<times> nat) thread" by (cases t) auto
  ultimately show ?thesis
    using inv d s unfolding sum_inv_def by (auto simp: open_notify_all all_done_def) (auto simp: notify_all_def)
qed

lemma sum_act_inv:
  assumes "sum_inv n nch part st" and "a \<in> set (sum_enabled nch st)"
  shows "sum_inv n nch part (sum_act part a st)"
  using assms(2)
proof (cases rule: sum_enabled_cases)
  case (push r)
  with sum_inv_push [OF assms(1)] show ?thesis by blast
next
  case (one r w)
  with sum_inv_one [OF assms(1)] show ?thesis by blast
next
  case (nobody r)
  with sum_inv_nobody [OF assms(1)] show ?thesis by blast
next
  case (check w)
  with sum_inv_check [OF assms(1)] show ?thesis by blast
next
  case (merge w r k)
  with sum_inv_merge [OF assms(1)] show ?thesis by blast
next
  case stop
  with sum_inv_stop [OF assms(1)] show ?thesis by blast
next
  case all
  with sum_inv_all [OF assms(1)] show ?thesis by blast
qed


subsection \<open>Every schedule ends\<close>

fun thread_left :: "'j thread \<Rightarrow> nat" where
  "thread_left Awake = 1"
| "thread_left (Running j) = 2"
| "thread_left t = 0"

definition call_left :: "nat \<Rightarrow> sum_call \<Rightarrow> nat" where
  "call_left n c = 5 * (n - next_chunk c) + (if to_notify c then 2 else 0)"

definition calls_left :: "(nat \<Rightarrow> nat) \<Rightarrow> sum_call list \<Rightarrow> nat" where
  "calls_left nch cs = (\<Sum>r<length cs. call_left (nch r) (cs ! r))"

definition workers_left :: "'j thread list \<Rightarrow> nat" where
  "workers_left ws = (\<Sum>w<length ws. thread_left (ws ! w))"

definition owner_left :: "sum_state \<Rightarrow> nat" where
  "owner_left st =
     (if \<not> tp_stop (tpool st) then length (tp_workers (tpool st)) + 2
      else if \<not> notified st then length (tp_workers (tpool st)) + 1 else 0)"

definition sum_left :: "(nat \<Rightarrow> nat) \<Rightarrow> sum_state \<Rightarrow> nat" where
  "sum_left nch st =
     calls_left nch (calls st) + 2 * length (tp_tasks (tpool st)) + workers_left (tp_workers (tpool st)) + owner_left st"

lemma calls_left_update:
  "r < length cs \<Longrightarrow>
   calls_left nch (cs[r := c]) + call_left (nch r) (cs ! r) = calls_left nch cs + call_left (nch r) c"
  using sum_update [of r cs "\<lambda>i. call_left (nch i)" c] by (simp add: calls_left_def)

lemma workers_left_update:
  "w < length ws \<Longrightarrow> workers_left (ws[w := t]) + thread_left (ws ! w) = workers_left ws + thread_left t"
  using sum_update [of w ws "\<lambda>_. thread_left" t] by (simp add: workers_left_def)

lemma workers_left_woken: "workers_left (map woken ws) \<le> workers_left ws + length ws"
proof -
  have "thread_left (woken t) \<le> thread_left t + 1" for t :: "'a thread" by (cases t) auto
  then have "(\<Sum>w<length ws. thread_left (woken (ws ! w))) \<le> (\<Sum>w<length ws. thread_left (ws ! w) + 1)"
    by (intro sum_mono)
  then show ?thesis by (simp add: workers_left_def sum_Suc)
qed

lemma sum_act_less:
  assumes inv: "sum_inv n nch part st" and a: "a \<in> set (sum_enabled nch st)"
  shows "sum_left nch (sum_act part a st) < sum_left nch st"
  using a
proof (cases rule: sum_enabled_cases)
  case (push r)
  have "\<not> tp_stop (tpool st)" using sum_inv_D(2) [OF inv push(2)] push by (simp add: call_done_def)
  with push calls_left_update [OF push(2), of nch "(calls st ! r)\<lparr>next_chunk := Suc (next_chunk (calls st ! r)), to_notify := True\<rparr>"]
  show ?thesis by (auto simp: Submit_def sum_left_def call_left_def owner_left_def)
next
  case (one r w)
  with calls_left_update [OF one(2), of nch "(calls st ! r)\<lparr>to_notify := False\<rparr>"] workers_left_update [OF one(4), of Awake]
  show ?thesis by (simp add: sum_left_def call_left_def owner_left_def set_worker_def)
next
  case (nobody r)
  with calls_left_update [OF nobody(2), of nch "(calls st ! r)\<lparr>to_notify := False\<rparr>"]
  show ?thesis by (simp add: sum_left_def call_left_def owner_left_def)
next
  case (check w)
  with workers_left_update [OF check(2), of Asleep] workers_left_update [OF check(2), of Left]
    workers_left_update [OF check(2), of "Running (hd (tp_tasks (tpool st)))"]
  show ?thesis
    by (cases "tp_tasks (tpool st)") (auto simp: sum_left_def owner_left_def Loop_check_def set_worker_def)
next
  case (merge w r k)
  have r: "r < length (calls st)" using inv open_merge [OF merge(2,3)] by (auto simp: sum_inv_def)
  from merge workers_left_update [OF merge(2), of Awake]
    calls_left_update [OF r, of nch "(calls st ! r)\<lparr>ready := ready (calls st ! r) @ [k],
      accumulator := accumulator (calls st ! r) + part r k\<rparr>"]
  show ?thesis by (simp add: sum_left_def call_left_def owner_left_def set_worker_def)
next
  case stop
  then show ?thesis by (simp add: sum_left_def owner_left_def stop_pool_def)
next
  case all
  then show ?thesis
    using workers_left_woken [of "tp_workers (tpool st)"] by (simp add: sum_left_def owner_left_def notify_all_def)
qed

interpretation summing: scheduled "sum_enabled nch" "sum_act part" "sum_inv n nch part" "sum_left nch"
  for nch part n
  by unfold_locales (auto intro: sum_act_inv sum_act_less)

subsection \<open>What a run ends with\<close>

definition fresh_pool :: "(nat \<times> nat) thread_pool \<Rightarrow> bool" where
  "fresh_pool p = (tp_workers p \<noteq> [] \<and> tp_workers p = replicate (length (tp_workers p)) Awake \<and>
                   tp_tasks p = [] \<and> \<not> tp_stop p)"

lemma ThreadPool_fresh: "ThreadPool max_size startable n = Inr p \<Longrightarrow> fresh_pool p \<and> length (tp_workers p) = unat n"
  by (auto simp: ThreadPool_def fresh_pool_def unat_eq_zero split: if_splits)

lemma sum_init_inv:
  assumes "fresh_pool p"
  shows "sum_inv (length (tp_workers p)) nch part (sum_init p m)"
proof -
  obtain k where k: "tp_workers p = replicate k Awake" "0 < k" using assms unfolding fresh_pool_def by (metis length_greater_0_conv)
  then have "open_tasks p = {#}" using assms by (simp add: open_tasks_def fresh_pool_def)
  with assms k show ?thesis
    by (auto simp: sum_inv_def sum_init_def fresh_pool_def call_inv_def new_call_def chunks_of_def)
qed

lemma sum_init_left:
  assumes "fresh_pool p"
  shows "sum_left nch (sum_init p m) = sum_fuel nch m (length (tp_workers p))"
proof -
  obtain k where k: "tp_workers p = replicate k Awake" using assms unfolding fresh_pool_def by metis
  then have "workers_left (tp_workers p) = k" by (simp add: workers_left_def)
  moreover have "calls_left nch (replicate m new_call) = 5 * (\<Sum>r\<leftarrow>[0..<m]. nch r)"
    by (simp add: calls_left_def call_left_def new_call_def sum_distrib_left interv_sum_list_conv_sum_set_nat lessThan_atLeast0)
  ultimately show ?thesis using assms k
    by (simp add: sum_left_def sum_init_def sum_fuel_def owner_left_def fresh_pool_def)
qed

lemma sum_final:
  assumes inv: "sum_inv n nch part st" and fin: "sum_enabled nch st = []"
  shows "all_done nch st" and "joined (tpool st)"
proof -
  have ws: "tp_workers (tpool st) ! w = Asleep \<or> tp_workers (tpool st) ! w = Left" if "w < length (tp_workers (tpool st))" for w
  proof -
    have "worker_actions w (tp_workers (tpool st) ! w) = []"
      using that fin enabled_iff [of _ nch st] by (metis empty_iff empty_set last_in_set)
    then show ?thesis by (cases "tp_workers (tpool st) ! w") auto
  qed
  then have idle: "\<not> list_ex active (tp_workers (tpool st))"
    unfolding list_ex_length by (metis active.simps(3,4))
  have cs: "\<not> to_notify (calls st ! r) \<and> next_chunk (calls st ! r) = nch r" if r: "r < length (calls st)" for r
  proof -
    have "call_actions (asleep (tpool st)) (nch r) r (calls st ! r) = []"
      using r fin enabled_iff [of _ nch st] by (metis empty_iff empty_set last_in_set)
    then have "\<not> to_notify (calls st ! r)" "\<not> next_chunk (calls st ! r) < nch r"
      by (auto simp: call_actions_def split: if_splits)
    with sum_inv_D(1) [OF inv r] show ?thesis by (simp add: call_inv_def)
  qed
  then have "\<not> list_ex to_notify (calls st)" by (auto simp: list_ex_length)
  with idle inv have "tp_tasks (tpool st) = []" by (auto simp: sum_inv_def)
  moreover have "carried t = []" if "t \<in> set (tp_workers (tpool st))" for t
    using that ws unfolding in_set_conv_nth by (metis carried.simps(3,4))
  ultimately have "open_tasks (tpool st) = {#}" by (auto simp: open_tasks_def)
  with cs show d: "all_done nch st"
    using sum_inv_D(1) [OF inv] unfolding all_done_iff call_done_def call_inv_def
    by (metis chunks_of_def add_0 filter_empty_mset image_mset_empty length_upt minus_nat.diff_0 size_mset)
  have "owner_actions nch st = []" using fin by (simp add: sum_enabled_def)
  with d have "notified st" by (auto simp: owner_actions_def split: if_splits)
  with inv have "Asleep \<notin> set (tp_workers (tpool st))" by (simp add: sum_inv_def)
  with ws have "tp_workers (tpool st) ! w = Left" if "w < length (tp_workers (tpool st))" for w
    using that nth_mem by fastforce
  then show "joined (tpool st)" by (simp add: joined_def list_all_length)
qed

lemma length_calls: "length (calls (sum_act part a st)) = length (calls st)"
  by (cases a) (auto split: sum.splits thread.splits)

lemma length_calls_reachable:
  "reachable (sum_enabled nch) (sum_act part) (sum_init p m) st \<Longrightarrow> length (calls st) = m"
  by (induction rule: reachable.induct) (auto simp: length_calls sum_init_def)

text \<open>What a call that is done has computed.\<close>

lemma call_done_value:
  assumes inv: "sum_inv n nch part st" and r: "r < length (calls st)" and d: "call_done (nch r) (calls st ! r)"
  shows "\<exists>ks. mset ks = mset [0..<nch r] \<and> accumulator (calls st ! r) = foldl (+) (Fin 0) (map (part r) ks)"
proof -
  note C = sum_inv_D(1) [OF inv r]
  then have e: "chunks_of r (open_tasks (tpool st)) + mset (ready (calls st ! r)) = mset [0..<nch r]"
    using d by (simp add: call_inv_def call_done_def)
  then have "size (chunks_of r (open_tasks (tpool st))) + length (ready (calls st ! r)) = nch r"
    by (metis size_mset size_union length_upt minus_nat.diff_0)
  with d have "chunks_of r (open_tasks (tpool st)) = {#}" by (simp add: call_done_def)
  with e C show ?thesis by (intro exI [of _ "ready (calls st ! r)"]) (simp add: call_inv_def)
qed

lemma sum_run_final:
  assumes "fresh_pool p"
  shows "sum_inv (length (tp_workers p)) nch part (sum_run pick nch part p m)"
    and "sum_enabled nch (sum_run pick nch part p m) = []"
    and "length (calls (sum_run pick nch part p m)) = m"
  unfolding sum_run_def
  using summing.drive_inv [OF sum_init_inv [OF assms]]
    summing.drive_ends [OF sum_init_inv [OF assms]] sum_init_left [OF assms] length_calls_reachable [OF drive_reachable]
  by auto

subsection \<open>Properties\<close>

text \<open>
  C10: no task and no wake-up is lost. Whatever calls share a pool and however their threads and
  the workers interleave, each chunk a call has submitted is in exactly one place: in the queue,
  with one worker, or merged into the accumulator of its own call; and there is no state in which a
  task waits while every worker sleeps and no notification is to come.
\<close>

theorem tasks_owned_once:
  assumes "ThreadPool max_size startable n = Inr p"
    and "reachable (sum_enabled nch) (sum_act part) (sum_init p m) st"
  shows "list_all (\<lambda>(r, c).
             mset (map snd (filter (\<lambda>j. fst j = r)
               (tp_tasks (tpool st) @ concat (map carried (tp_workers (tpool st))))) @ ready c)
               = mset [0..<next_chunk c]
             \<and> accumulator c = foldl (+) (Fin 0) (map (part r) (ready c)))
           (List.enumerate 0 (calls st))
       \<and> (tp_tasks (tpool st) = [] \<or> list_ex active (tp_workers (tpool st)) \<or> list_ex to_notify (calls st))"
proof -
  have inv: "sum_inv (length (tp_workers p)) nch part st"
    using summing.reachable_inv [OF assms(2) sum_init_inv] ThreadPool_fresh [OF assms(1)] by blast
  have "call_inv (nch r) (part r) (chunks_of r (open_tasks (tpool st))) (calls st ! r)" if "r < length (calls st)" for r
    by (rule sum_inv_D(1) [OF inv that])
  moreover have "mset (map snd (filter (\<lambda>j. fst j = r) (tp_tasks q @ concat (map carried (tp_workers q)))) @ ks)
      = chunks_of r (open_tasks q) + mset ks" for r ks and q :: "(nat \<times> nat) thread_pool"
    by (simp add: chunks_of_def open_tasks_def)
  ultimately show ?thesis using inv
    unfolding sum_inv_def by (simp add: list_all_length nth_enumerate_eq call_inv_def del: mset_append map_append mset_upt) blast
qed

text \<open>
  C11: the pool never hangs. No interleaving is infinite, and where nothing can happen any more,
  every call has got all its futures and every worker of the destroyed pool has returned from its loop.
\<close>

theorem shared_pool_ends:
  assumes "ThreadPool max_size startable n = Inr p"
  shows "(\<nexists>st. reachable (sum_enabled nch) (sum_act part) (sum_init p m) st \<and> sum_enabled nch st = []
           \<and> \<not> (all_done nch st \<and> joined (tpool st)))
       \<and> (\<nexists>run. run (0 :: nat) = sum_init p m
           \<and> (\<forall>i. \<exists>a\<in>set (sum_enabled nch (run i)). run (Suc i) = sum_act part a (run i)))"
proof -
  have i0: "sum_inv (length (tp_workers p)) nch part (sum_init p m)"
    using sum_init_inv ThreadPool_fresh [OF assms] by blast
  show ?thesis
  proof (intro conjI notI; elim exE conjE)
    fix st
    assume "reachable (sum_enabled nch) (sum_act part) (sum_init p m) st" "sum_enabled nch st = []"
      "\<not> (all_done nch st \<and> joined (tpool st))"
    with sum_final [OF summing.reachable_inv [OF _ i0]] show False by blast
  next
    fix run :: "nat \<Rightarrow> sum_state"
    assume "run 0 = sum_init p m" and step: "\<forall>i. \<exists>a\<in>set (sum_enabled nch (run i)). run (Suc i) = sum_act part a (run i)"
    with i0 have "sum_inv (length (tp_workers p)) nch part (run 0)" by simp
    from summing.no_infinite_schedule [where run = run, OF this] step show False by blast
  qed
qed

subsection \<open>Witnesses\<close>

text \<open>Two workers and one call of three chunks, after seven steps.\<close>

definition two_workers :: "(nat \<times> nat) thread_pool" where
  "two_workers = \<lparr>tp_workers = [Awake, Awake], tp_tasks = [], tp_stop = False\<rparr>"

lemma two_workers_made: "ThreadPool 100 100 2 = Inr two_workers"
proof -
  have "replicate 2 Awake = [Awake, Awake :: (nat \<times> nat) thread]" by (simp add: numeral_2_eq_2)
  moreover have "unat (2 :: size) = 2" by simp
  ultimately show ?thesis by (simp add: ThreadPool_def two_workers_def)
qed

lemma tasks_owned_once_witness:
  "let st = drive (sum_enabled (\<lambda>_. 3)) (sum_act (\<lambda>_ _. Fin 1)) (\<lambda>_. 0) 4 (sum_init two_workers 1)
   in tp_tasks (tpool st) = [(0, 0), (0, 1)]
      \<and> (list_ex active (tp_workers (tpool st)) \<or> list_ex to_notify (calls st))"
proof -
  let ?st = "drive (sum_enabled (\<lambda>_. 3)) (sum_act (\<lambda>_ _. Fin 1)) (\<lambda>_. 0) 4 (sum_init two_workers 1)"
  have "tp_tasks (tpool ?st) = [(0, 0), (0, 1)]" by code_simp
  with tasks_owned_once [OF two_workers_made drive_reachable [of "sum_enabled (\<lambda>_. 3)" "sum_act (\<lambda>_ _. Fin 1)"
      "sum_init two_workers 1" "\<lambda>_. 0" 4]]
  show ?thesis by (auto simp: Let_def)
qed

lemma shared_pool_ends_witness:
  "\<nexists>st. reachable (sum_enabled (\<lambda>_. 3)) (sum_act (\<lambda>_ _. Fin 1)) (sum_init two_workers 1) st
     \<and> sum_enabled (\<lambda>_. 3) st = [] \<and> \<not> (all_done (\<lambda>_. 3) st \<and> joined (tpool st))"
  using shared_pool_ends [OF two_workers_made, of "\<lambda>_. 3" "\<lambda>_ _. Fin 1" 1] by blast

end
