(* ===== verification/SquareSum.thy ===== *)
theory SquareSum
  imports ThreadPool
begin

text \<open>
  \<open>ComputeSquareSumThreaded\<close> of \<^verbatim>\<open>services/cpp-worker/src/main.cpp\<close>: the items are cut
  into chunks, one for each worker of the pool, in \<open>std::size_t\<close> arithmetic; every task squares and
  adds the items of its chunk and merges its partial sum into an accumulator under a mutex.
\<close>

subsection \<open>The chunks\<close>

definition chunk_size :: "size \<Rightarrow> size \<Rightarrow> size" where
  "chunk_size n workers = (n + workers - 1) div workers"

text \<open>The submitting loop over \<open>w\<close>, with \<open>m\<close> rounds to go.\<close>

fun chunk_loop :: "nat \<Rightarrow> size \<Rightarrow> size \<Rightarrow> size \<Rightarrow> (size \<times> size) list" where
  "chunk_loop 0 w chunk n = []"
| "chunk_loop (Suc m) w chunk n =
     (let start = w * chunk
      in if n \<le> start then []
         else (start, min (start + chunk) n) # chunk_loop m (w + 1) chunk n)"

definition chunk_bounds :: "size \<Rightarrow> size \<Rightarrow> (size \<times> size) list" where
  "chunk_bounds n pool_size =
     (let workers = max 1 pool_size
      in if n = 0 then [] else chunk_loop (unat workers) 0 (chunk_size n workers) n)"

definition indices :: "size \<times> size \<Rightarrow> nat list" where
  "indices b = [unat (fst b)..<unat (snd b)]"

lemma unat_plus_small: "unat (a :: size) + unat b < 2 ^ 64 \<Longrightarrow> unat (a + b) = unat a + unat b"
  by (subst unat_plus_if_size) (simp add: word_size)

lemma unat_times_small: "unat (a :: size) * unat b < 2 ^ 64 \<Longrightarrow> unat (a * b) = unat a * unat b"
  by (simp add: unat_word_ariths)

lemma unat_chunk_size:
  assumes "unat n + unat workers < 2 ^ 64" and "workers \<noteq> 0"
  shows "unat (chunk_size n workers) = (unat n + unat workers - 1) div unat workers"
proof -
  have "1 \<le> n + workers" "unat (n + workers) = unat n + unat workers"
    using assms unat_plus_small [OF assms(1)] by (auto simp: word_le_nat_alt unat_eq_zero unat_gt_0 simp flip: unat_gt_0)
  then have "unat (n + workers - 1) = unat n + unat workers - 1" by (simp add: unat_sub)
  then show ?thesis by (simp add: chunk_size_def unat_div)
qed

lemma upt_split: "i \<le> j \<Longrightarrow> j \<le> k \<Longrightarrow> [i..<j] @ [j..<k] = [i..<k]"
  using upt_add_eq_append [of i j "k - j"] by simp

lemma chunk_loop_covers:
  fixes W :: size
  assumes "unat W * unat chunk < 2 ^ 64" and "unat n \<le> unat W * unat chunk" and "unat w + m = unat W"
  shows "concat (map indices (chunk_loop m w chunk n)) = [unat w * unat chunk..<unat n]
       \<and> list_all (\<lambda>b. fst b < snd b) (chunk_loop m w chunk n)"
  using assms(3)
proof (induction m arbitrary: w)
  case 0
  then show ?case using assms(2) by simp
next
  case (Suc m)
  let ?c = "unat chunk"
  have le: "(unat w + 1) * ?c \<le> unat W * ?c" using Suc.prems by (intro mult_le_mono1) simp
  then have start: "unat (w * chunk) = unat w * ?c" using assms(1) by (intro unat_times_small) (simp add: algebra_simps)
  have stop: "unat (w * chunk + chunk) = (unat w + 1) * ?c"
    using le assms(1) start by (subst unat_plus_small) (simp_all add: algebra_simps)
  have "unat W < 2 ^ 64" using unsigned_less [of W, where ?'a = nat] by (simp del: unsigned_less)
  then have w1: "unat (w + 1) = unat w + 1" using Suc.prems by (subst unat_plus_small) simp_all
  show ?case
  proof (cases "n \<le> w * chunk")
    case True
    then show ?thesis using start by (simp add: word_le_nat_alt)
  next
    case False
    then have lt: "unat w * ?c < unat n" using start by (simp add: word_le_nat_alt not_le)
    have b: "unat (min (w * chunk + chunk) n) = min ((unat w + 1) * ?c) (unat n)"
      using stop by (auto simp: min_def word_le_nat_alt)
    have hd: "indices (w * chunk, min (w * chunk + chunk) n) = [unat w * ?c..<min ((unat w + 1) * ?c) (unat n)]"
      using start b by (simp add: indices_def)
    have "0 < ?c" using assms(2) lt by (cases "?c = 0") auto
    then have ne: "w * chunk < min (w * chunk + chunk) n"
      using lt start b by (simp add: word_less_nat_alt)
    have IH: "concat (map indices (chunk_loop m (w + 1) chunk n)) = [(unat w + 1) * ?c..<unat n]
        \<and> list_all (\<lambda>b. fst b < snd b) (chunk_loop m (w + 1) chunk n)"
      using Suc.IH [of "w + 1"] Suc.prems w1 by simp
    then have "concat (map indices (chunk_loop m (w + 1) chunk n)) = [(unat w + 1) * ?c..<unat n]" ..
    also have "\<dots> = [min ((unat w + 1) * ?c) (unat n)..<unat n]" by (simp add: min_def)
    finally show ?thesis
      using False lt hd ne IH upt_split [of "unat w * ?c" "min ((unat w + 1) * ?c) (unat n)" "unat n"]
      by (simp add: Let_def del: min_less_iff_conj)
  qed
qed

lemma chunk_loop_length: "length (chunk_loop m w chunk n) \<le> m"
  by (induction m arbitrary: w) (auto simp: Let_def)

lemma chunk_bounds_cover:
  assumes "unat n + unat pool_size < 2 ^ 64" and "pool_size \<noteq> 0"
  shows "concat (map indices (chunk_bounds n pool_size)) = [0..<unat n]
       \<and> list_all (\<lambda>b. fst b < snd b) (chunk_bounds n pool_size)"
proof (cases "n = 0")
  case False
  let ?W = "max 1 pool_size"
  have "1 \<le> pool_size" using assms(2) by (simp add: word_le_nat_alt Suc_le_eq unat_gt_0)
  then have m: "?W = pool_size" by (simp add: max_def)
  have W: "?W \<noteq> 0" "unat ?W \<ge> 1" using assms(2) unfolding m by (simp_all add: Suc_le_eq unat_gt_0)
  have n1: "1 \<le> unat n" using False unat_gt_0 [of n] by linarith
  have bound: "unat n + unat ?W < 2 ^ 64" using assms(1) unfolding m .
  have c: "unat (chunk_size n ?W) = (unat n + unat ?W - 1) div unat ?W"
    by (rule unat_chunk_size [OF bound W(1)])
  have up: "unat ?W * unat (chunk_size n ?W) \<le> unat n + unat ?W - 1" unfolding c by simp
  have "unat n \<le> unat ?W * unat (chunk_size n ?W)"
  proof -
    have "unat n + unat ?W - 1 = unat ?W * unat (chunk_size n ?W) + (unat n + unat ?W - 1) mod unat ?W"
      unfolding c by simp
    moreover have "(unat n + unat ?W - 1) mod unat ?W < unat ?W" using W(2) by (intro mod_less_divisor) linarith
    ultimately show ?thesis by linarith
  qed
  then have "concat (map indices (chunk_loop (unat ?W) 0 (chunk_size n ?W) n)) = [0..<unat n]
      \<and> list_all (\<lambda>b. fst b < snd b) (chunk_loop (unat ?W) 0 (chunk_size n ?W) n)"
    using chunk_loop_covers [of ?W "chunk_size n ?W" n 0 "unat ?W"] up bound by simp
  with False show ?thesis by (simp add: chunk_bounds_def Let_def)
qed (simp add: chunk_bounds_def)

lemma chunk_bounds_length: "length (chunk_bounds n pool_size) \<le> unat (max 1 pool_size)"
  using chunk_loop_length by (simp add: chunk_bounds_def Let_def)

subsection \<open>The sum\<close>

definition partial_sum :: "pyfloat list \<Rightarrow> size \<times> size \<Rightarrow> pyfloat" where
  "partial_sum xs b = foldl (\<lambda>p i. p + xs ! i * xs ! i) (Fin 0) (indices b)"

definition bounds_of :: "'j thread_pool \<Rightarrow> pyfloat list \<Rightarrow> (size \<times> size) list" where
  "bounds_of p xs = chunk_bounds (of_nat (length xs)) (Size p)"

text \<open>
  The calls of one pool: \<open>itemss ! r\<close> are the items of the call \<open>r\<close>. The value is what this call
  returns in the interleaving that \<open>pick\<close> selects.
\<close>

definition ComputeSquareSumThreaded ::
  "(nat \<Rightarrow> nat) \<Rightarrow> (nat \<times> nat) thread_pool \<Rightarrow> pyfloat list list \<Rightarrow> nat \<Rightarrow> pyfloat option" where
  "ComputeSquareSumThreaded pick p itemss r =
     (let bounds = (\<lambda>r. bounds_of p (itemss ! r));
          nch = (\<lambda>r. length (bounds r));
          part = (\<lambda>r k. partial_sum (itemss ! r) (bounds r ! k))
      in call_result nch r (sum_run pick nch part p (length itemss)))"

lemma compute_value:
  assumes "fresh_pool p" and "r < length itemss"
  shows "\<exists>ks. mset ks = mset [0..<length (bounds_of p (itemss ! r))]
           \<and> ComputeSquareSumThreaded pick p itemss r
             = Some (foldl (+) (Fin 0) (map (\<lambda>k. partial_sum (itemss ! r) (bounds_of p (itemss ! r) ! k)) ks))"
proof -
  let ?nch = "\<lambda>r. length (bounds_of p (itemss ! r))"
  let ?part = "\<lambda>r k. partial_sum (itemss ! r) (bounds_of p (itemss ! r) ! k)"
  let ?st = "sum_run pick ?nch ?part p (length itemss)"
  note F = sum_run_final [OF assms(1), where nch = ?nch and part = ?part and pick = pick and m = "length itemss"]
  have r: "r < length (calls ?st)" using F(3) assms(2) by simp
  have d: "call_done (?nch r) (calls ?st ! r)" using sum_final(1) [OF F(1,2)] r by (simp add: all_done_iff)
  from call_done_value [OF F(1) r d] d show ?thesis
    by (auto simp: ComputeSquareSumThreaded_def call_result_def)
qed

text \<open>Whole numbers: no rounding, so the order of the merges does not matter.\<close>

definition int_floats :: "int list \<Rightarrow> pyfloat list" where
  "int_floats ns = map (\<lambda>n. Fin (of_int n)) ns"

definition exact_squares :: "int list \<Rightarrow> bool" where
  "exact_squares ns = (list_all (\<lambda>n. \<bar>n\<bar> \<le> 2 ^ 26) ns \<and> (\<Sum>n\<leftarrow>ns. n * n) \<le> 2 ^ 53)"

lemma sum_list_perm: "mset xs = mset ys \<Longrightarrow> sum_list xs = sum_list (ys :: int list)"
  by (metis sum_mset_sum_list)

lemma partial_sum_ints:
  assumes "exact_squares ns" and "set (indices b) \<subseteq> {..<length ns}"
    and "(\<Sum>i\<leftarrow>indices b. ns ! i * ns ! i) \<le> 2 ^ 53"
  shows "partial_sum (int_floats ns) b = Fin (of_int (\<Sum>i\<leftarrow>indices b. ns ! i * ns ! i))"
proof -
  have sq: "int_floats ns ! i * int_floats ns ! i = Fin (of_int (ns ! i * ns ! i))" if "i \<in> set (indices b)" for i
  proof -
    have "i < length ns" using that assms(2) by auto
    then show ?thesis using assms(1) product_int [of "ns ! i"]
      by (simp add: int_floats_def exact_squares_def list_all_length)
  qed
  have "partial_sum (int_floats ns) b = foldl (+) (Fin 0) (map (\<lambda>i. int_floats ns ! i * int_floats ns ! i) (indices b))"
    by (simp add: partial_sum_def foldl_map)
  also have "map (\<lambda>i. int_floats ns ! i * int_floats ns ! i) (indices b)
      = map (\<lambda>k. Fin (of_int k)) (map (\<lambda>i. ns ! i * ns ! i) (indices b))"
    using sq by simp
  also have "foldl (+) (Fin 0) \<dots> = Fin (of_int (\<Sum>i\<leftarrow>indices b. ns ! i * ns ! i))"
    using py_sum_ints [of "map (\<lambda>i. ns ! i * ns ! i) (indices b)"] assms(3) by (simp add: py_sum_def)
  finally show ?thesis .
qed

lemma sum_chunks: "(\<Sum>b\<leftarrow>bs. \<Sum>i\<leftarrow>indices b. f i) = (\<Sum>i\<leftarrow>concat (map indices bs). f i)" for f :: "nat \<Rightarrow> int"
  by (induction bs) auto

lemma compute_ints:
  assumes "fresh_pool p" and "r < length itemss" and "itemss ! r = int_floats ns" and "exact_squares ns"
    and "length ns + length (tp_workers p) < 2 ^ 64"
  shows "ComputeSquareSumThreaded pick p itemss r = Some (Fin (of_int (\<Sum>n\<leftarrow>ns. n * n)))"
proof -
  let ?bs = "bounds_of p (itemss ! r)" and ?f = "\<lambda>i. ns ! i * ns ! i"
  let ?g = "\<lambda>b. \<Sum>i\<leftarrow>indices b. ?f i"
  obtain ks where ks: "mset ks = mset [0..<length ?bs]"
    and v: "ComputeSquareSumThreaded pick p itemss r = Some (foldl (+) (Fin 0) (map (\<lambda>k. partial_sum (itemss ! r) (?bs ! k)) ks))"
    using compute_value [OF assms(1,2)] by blast
  have n: "unat (of_nat (length ns) :: size) = length ns" "unat (Size p) = length (tp_workers p)"
    using assms(5) by (simp_all add: Size_def unsigned_of_nat take_bit_nat_eq_self)
  moreover have "Size p \<noteq> 0" using assms(1) n(2) by (auto simp: fresh_pool_def)
  ultimately have cover: "concat (map indices ?bs) = [0..<length ns]"
    using chunk_bounds_cover [of "of_nat (length ns)" "Size p"] assms(3,5) by (simp add: bounds_of_def int_floats_def)
  have total: "(\<Sum>b\<leftarrow>?bs. ?g b) = (\<Sum>n\<leftarrow>ns. n * n)"
  proof -
    have "map ?f [0..<length ns] = map (\<lambda>n. n * n) ns" by (rule nth_equalityI) auto
    then show ?thesis unfolding sum_chunks cover by simp
  qed
  have sub: "set (indices b) \<subseteq> {..<length ns}" if "b \<in> set ?bs" for b
    using that arg_cong [OF cover, of set] by auto
  have "?g b \<le> (\<Sum>b\<leftarrow>?bs. ?g b)" if "b \<in> set ?bs" for b
    using that by (intro member_le_sum_list) (auto intro!: sum_list_nonneg)
  then have part: "partial_sum (itemss ! r) b = Fin (of_int (?g b))" if "b \<in> set ?bs" for b
    using that sub assms(3,4) partial_sum_ints [of ns b] total by (fastforce simp: exact_squares_def)
  have in_bs: "k \<in> set ks \<Longrightarrow> ?bs ! k \<in> set ?bs" for k using mset_eq_setD [OF ks] by auto
  have "map (\<lambda>k. ?g (?bs ! k)) [0..<length ?bs] = map ?g ?bs" by (rule nth_equalityI) auto
  moreover have "mset (map (\<lambda>k. ?g (?bs ! k)) ks) = mset (map (\<lambda>k. ?g (?bs ! k)) [0..<length ?bs])"
    unfolding mset_map ks ..
  ultimately have s: "(\<Sum>k\<leftarrow>ks. ?g (?bs ! k)) = (\<Sum>n\<leftarrow>ns. n * n)"
    using sum_list_perm [of "map (\<lambda>k. ?g (?bs ! k)) ks" "map ?g ?bs"] total by simp
  have "foldl (+) (Fin 0) (map (\<lambda>k. partial_sum (itemss ! r) (?bs ! k)) ks)
      = py_sum (map (\<lambda>n. Fin (of_int n)) (map (\<lambda>k. ?g (?bs ! k)) ks))"
    unfolding py_sum_def map_map comp_def
    by (rule arg_cong [where f = "foldl (+) (Fin 0)"], rule map_cong [OF refl], rule part [OF in_bs])
  also have "\<dots> = Fin (of_int (\<Sum>k\<leftarrow>ks. ?g (?bs ! k)))"
    using s assms(4) by (intro py_sum_ints) (auto simp: exact_squares_def intro!: sum_list_nonneg)
  finally show ?thesis using v s by simp
qed

subsection \<open>Properties\<close>

text \<open>
  C13: the chunks. As long as the number of items plus the number of workers fits in a
  \<open>std::size_t\<close>, no product or sum of the loop wraps around: the chunks are at most as many as the
  workers, none is empty, and one after the other they are all the indices of the items.
\<close>

theorem chunks_partition_items:
  assumes "unat n + unat pool_size < 2 ^ 64" and "pool_size \<noteq> 0"
  shows "concat (map indices (chunk_bounds n pool_size)) = [0..<unat n]
       \<and> length (chunk_bounds n pool_size) \<le> unat pool_size
       \<and> list_all (\<lambda>b. fst b < snd b) (chunk_bounds n pool_size)"
proof -
  have "1 \<le> pool_size" using assms(2) by (simp add: word_le_nat_alt Suc_le_eq unat_gt_0)
  then have "max 1 pool_size = pool_size" by (simp add: max_def)
  then show ?thesis using chunk_bounds_cover [OF assms] chunk_bounds_length [of n pool_size] by simp
qed

text \<open>
  The parallel sum of squares is exact on whole numbers. For any number of calls that
  share the pool, any number of workers and any interleaving, the call that was given integers of at
  most 26 bits whose squares add up to at most \<open>2 ^ 53\<close> returns the exact sum of the squares.
\<close>

theorem square_sum_threaded_exact:
  assumes "ThreadPool max_size startable worker_count = Inr p" and "r < length itemss"
    and "itemss ! r = int_floats ns" and "exact_squares ns" and "length ns + unat worker_count < 2 ^ 64"
  shows "ComputeSquareSumThreaded pick p itemss r = Some (Fin (of_int (\<Sum>n\<leftarrow>ns. n * n)))"
  using compute_ints [where pick = pick, OF _ assms(2-4)] ThreadPool_fresh [OF assms(1)] assms(5) by simp

text \<open>
  The order of the merges matters where sums are rounded. Two schedules of the same call merge its
  four chunks in different orders; for the squares of 1, 1, 1 and \<open>2 ^ 27\<close> the sums in these
  orders differ.
\<close>

definition four_workers :: "(nat \<times> nat) thread_pool" where
  "four_workers = \<lparr>tp_workers = [Awake, Awake, Awake, Awake], tp_tasks = [], tp_stop = False\<rparr>"

lemma merge_orders_differ:
  "map ready (calls (sum_run (\<lambda>_. 0) (\<lambda>_. 4) (\<lambda>_ _. NaN) four_workers 1)) = [[0, 1, 2, 3]]"
  "map ready (calls (sum_run (\<lambda>n. 3 * n) (\<lambda>_. 4) (\<lambda>_ _. NaN) four_workers 1)) = [[0, 2, 3, 1]]"
  by code_simp+

lemma merge_order_matters:
  "foldl (+) (Fin 0) [Fin 1, Fin 1, Fin 1, Fin 18014398509481984] = Fin 18014398509481988"
  "foldl (+) (Fin 0) [Fin 1, Fin 1, Fin 18014398509481984, Fin 1] = Fin 18014398509481984"
  by code_simp+

subsection \<open>Witnesses\<close>

text \<open>Seven items for three workers; two concurrent calls on two workers.\<close>

lemma chunks_partition_items_witness:
  "concat (map indices (chunk_bounds 7 3)) = [0, 1, 2, 3, 4, 5, 6]"
  using chunks_partition_items [of 7 3] by (simp add: upt_conv_Cons)

lemma square_sum_threaded_exact_witness:
  "ComputeSquareSumThreaded (\<lambda>n. n) two_workers [[PosInf], int_floats [3, - 4, 12]] 1 = Some (Fin 169)"
  using square_sum_threaded_exact [OF two_workers_made, of 1 "[[PosInf], int_floats [3, - 4, 12]]" "[3, - 4, 12]" "\<lambda>n. n"]
  by (simp add: exact_squares_def)

end
