(* ===== verification/CppWorker.thy ===== *)
theory CppWorker
  imports SquareSum Models "HOL-Library.AList"
begin

text \<open>
  The rest of \<^verbatim>\<open>services/cpp-worker/src/main.cpp\<close>: configuration, metrics, the HTTP handlers and
  \<open>main\<close>. JSON documents are the values before \<open>dump()\<close> prints them; the request body is the value
  \<open>json::parse\<close> made of it, \<open>None\<close> if it threw. \<open>cpp_response\<close> is what a handler has set in
  httplib's response: a status (\<open>None\<close> if it set none, which the server sends as 200) and a document.
  \<open>unset\<close> is the number httplib keeps in the status field until one is set.
\<close>

subsection \<open>Numbers in the environment\<close>







subsection \<open>Metrics\<close>

record cpp_metrics =
  cm_request_count :: size
  cm_error_count :: size
  cm_total_latency_ms :: pyfloat
  cm_started_at :: int

text \<open>The atomic steps of \<open>Record\<close>: two atomic additions and a section of the latency mutex.\<close>

datatype metric_step = AddRequest | AddError | AddLatency pyfloat

fun metric_act :: "metric_step \<Rightarrow> cpp_metrics \<Rightarrow> cpp_metrics" where
  "metric_act AddRequest m = m\<lparr>cm_request_count := cm_request_count m + 1\<rparr>"
| "metric_act AddError m = m\<lparr>cm_error_count := cm_error_count m + 1\<rparr>"
| "metric_act (AddLatency d) m = m\<lparr>cm_total_latency_ms := cm_total_latency_ms m + d\<rparr>"

definition Record_steps :: "pyfloat \<Rightarrow> bool \<Rightarrow> metric_step list" where
  "Record_steps duration_ms is_error =
     [AddRequest] @ (if is_error then [AddError] else []) @ [AddLatency duration_ms]"

definition Record :: "pyfloat \<Rightarrow> bool \<Rightarrow> cpp_metrics \<Rightarrow> cpp_metrics" where
  "Record duration_ms is_error m = fold metric_act (Record_steps duration_ms is_error) m"

text \<open>\<open>std::chrono\<close>: a count of nanoseconds as a double in a coarser unit.\<close>

definition duration_in :: "rat \<Rightarrow> int \<Rightarrow> pyfloat" where
  "duration_in ticks ns =
     (case py_div (fl (of_int ns)) (Fin ticks) of Inr x \<Rightarrow> x | Inl _ \<Rightarrow> NaN)"

definition kServiceName :: string where
  "kServiceName = ''cpp-worker''"

text \<open>What \<open>Snapshot\<close> makes of the three values it has loaded, one after the other.\<close>

definition Snapshot :: "size \<Rightarrow> size \<Rightarrow> pyfloat \<Rightarrow> int \<Rightarrow> int \<Rightarrow> json" where
  "Snapshot rc ec latency start now =
     JObj [(''service'', JStr kServiceName),
           (''request_count'', JInt (uint rc)),
           (''error_count'', JInt (uint ec)),
           (''avg_latency_ms'',
            JFloat (if 0 < rc then (case py_div latency (fl (of_int (uint rc))) of Inr x \<Rightarrow> x | Inl _ \<Rightarrow> NaN) else Fin 0)),
           (''uptime_seconds'', JFloat (duration_in 1000000000 (now - start)))]"

subsection \<open>Time stamps and the log\<close>

definition IsoNowUtc :: "nat \<Rightarrow> string" where
  "IsoNowUtc ms = iso_seconds (ms div 1000) @ ''.'' @ pad 3 (ms mod 1000) @ ''Z''"

text \<open>The line is an object; the extra members are assigned to it one by one.\<close>

definition LogJson :: "nat \<Rightarrow> string \<Rightarrow> string \<Rightarrow> (string \<times> json) list \<Rightarrow> json" where
  "LogJson now level message extra =
     JObj (fold (\<lambda>(k, v). AList.update k v) extra
             [(''timestamp'', JStr (IsoNowUtc now)), (''level'', JStr level),
              (''service'', JStr kServiceName), (''message'', JStr message)])"

subsection \<open>Handlers\<close>

record cpp_request =
  cq_method :: string
  cq_path :: string
  cq_body :: "json option"

record cpp_response =
  cr_status :: "nat option"
  cr_content :: "json option"

definition reply :: "json \<Rightarrow> cpp_response" where
  "reply j = \<lparr>cr_status = None, cr_content = Some j\<rparr>"

definition reject :: "nat \<Rightarrow> string \<Rightarrow> cpp_response" where
  "reject status detail = \<lparr>cr_status = Some status, cr_content = Some (JObj [(''detail'', JStr detail)])\<rparr>"

definition handle_health :: "nat \<Rightarrow> cpp_response" where
  "handle_health now =
     reply (JObj [(''status'', JStr ''ok''), (''service'', JStr kServiceName), (''timestamp'', JStr (IsoNowUtc now))])"

definition handle_metrics :: "int \<Rightarrow> cpp_metrics \<Rightarrow> cpp_response" where
  "handle_metrics now m =
     reply (Snapshot (cm_request_count m) (cm_error_count m) (cm_total_latency_ms m) (cm_started_at m) now)"

text \<open>\<open>get<double>()\<close> of a number.\<close>

fun number_of :: "json \<Rightarrow> pyfloat option" where
  "number_of (JInt n) = Some (fl (of_int n))"
| "number_of (JFloat x) = Some x"
| "number_of _ = None"

fun read_numbers :: "json list \<Rightarrow> pyfloat list option" where
  "read_numbers [] = Some []"
| "read_numbers (j # js) =
     (case number_of j of None \<Rightarrow> None | Some x \<Rightarrow> map_option (Cons x) (read_numbers js))"

definition items_array :: "json \<Rightarrow> json list option" where
  "items_array j =
     (case j of
        JObj kvs \<Rightarrow> (case map_of kvs ''items'' of Some (JList js) \<Rightarrow> Some js | _ \<Rightarrow> None)
      | _ \<Rightarrow> None)"

text \<open>\<open>compute\<close> is the call of \<open>ComputeSquareSumThreaded\<close>, \<open>t0\<close> and \<open>t1\<close> the clock around it.\<close>

definition handle_square_sum ::
  "(pyfloat list \<Rightarrow> pyfloat option) \<Rightarrow> size \<Rightarrow> int \<Rightarrow> int \<Rightarrow> json option \<Rightarrow> cpp_response option" where
  "handle_square_sum compute pool_size t0 t1 req_body =
     (case req_body of
        None \<Rightarrow> Some (reject 400 ''invalid json'')
      | Some b \<Rightarrow>
          (case items_array b of
             None \<Rightarrow> Some (reject 400 ''missing 'items' array'')
           | Some js \<Rightarrow>
               (case read_numbers js of
                  None \<Rightarrow> Some (reject 400 ''items must be numbers'')
                | Some xs \<Rightarrow>
                    (case compute xs of
                       None \<Rightarrow> None
                     | Some result \<Rightarrow>
                         Some (reply (JObj [(''service'', JStr kServiceName),
                                            (''items_processed'', JInt (int (length xs))),
                                            (''result'', JFloat result),
                                            (''workers'', JInt (uint pool_size)),
                                            (''duration_ms'', JFloat (duration_in 1000000 (t1 - t0)))]))))))"

fun what :: "cpp_error \<Rightarrow> string" where
  "what (InvalidArgument m) = m"
| "what (OutOfRange m) = m"
| "what (LengthError m) = m"
| "what (RuntimeError m) = m"
| "what Terminate = []"

text \<open>
  The wrapper of every handler: an exception becomes a 500; the request is recorded, as an error
  for an exception or a status from 500, and logged. The result is the response, the metrics and the
  log line.
\<close>

definition InstrumentHandler ::
  "int \<Rightarrow> (cpp_request \<Rightarrow> cpp_error + cpp_response) \<Rightarrow> cpp_request \<Rightarrow> int \<Rightarrow> int \<Rightarrow> nat \<Rightarrow> cpp_metrics
    \<Rightarrow> cpp_response \<times> cpp_metrics \<times> json" where
  "InstrumentHandler unset handler req start end_time now m =
     (let (res, is_error) =
            (case handler req of
               Inr r \<Rightarrow> (r, (case cr_status r of Some s \<Rightarrow> 500 \<le> s | None \<Rightarrow> 500 \<le> unset))
             | Inl e \<Rightarrow> (reject 500 (what e), True));
          duration_ms = duration_in 1000000 (end_time - start)
      in (res, Record duration_ms is_error m,
          LogJson now ''info'' ''request_completed''
            [(''path'', JStr (cq_path req)), (''method'', JStr (cq_method req)),
             (''status_code'', JInt (case cr_status res of Some s \<Rightarrow> int s | None \<Rightarrow> unset)),
             (''duration_ms'', JFloat duration_ms), (''is_error'', JBool is_error)]))"

subsection \<open>The program\<close>



subsection \<open>Facts\<close>



lemma read_numbers_floats: "read_numbers (map JFloat xs) = Some xs"
  by (induction xs) auto

lemma read_numbers_fails: "read_numbers js = None \<longleftrightarrow> list_ex (\<lambda>j. number_of j = None) js"
  by (induction js) (auto split: option.splits)

lemma read_numbers_length: "read_numbers js = Some xs \<Longrightarrow> length xs = length js"
  by (induction js arbitrary: xs) (auto split: option.splits)

subsection \<open>Properties\<close>

text \<open>
  C22: the endpoint of the C++ worker. A body that is not JSON, has no array \<open>items\<close>, or has an
  item that is no number is answered 400 with the reason. Otherwise, whatever other calls the pool
  serves and in whatever order its threads run, the handler returns, sets no error status, and reports
  the number of items and a result that is the sum of the partial sums of all the chunks, in
  some order.
\<close>

theorem square_sum_endpoint:
  assumes "ThreadPool max_size startable worker_count = Inr p"
  shows "let h = handle_square_sum (\<lambda>xs. ComputeSquareSumThreaded pick p (xs # others) 0) (Size p) t0 t1
         in h None = Some (reject 400 ''invalid json'')
          \<and> (case items_array b of
               None \<Rightarrow> h (Some b) = Some (reject 400 ''missing 'items' array'')
             | Some js \<Rightarrow>
                 (case read_numbers js of
                    None \<Rightarrow> h (Some b) = Some (reject 400 ''items must be numbers'')
                  | Some xs \<Rightarrow>
                      \<exists>r ks. h (Some b)
                            = Some (reply (JObj [(''service'', JStr ''cpp-worker''),
                                (''items_processed'', JInt (int (length js))), (''result'', JFloat r),
                                (''workers'', JInt (uint worker_count)),
                                (''duration_ms'', JFloat (duration_in 1000000 (t1 - t0)))]))
                        \<and> mset ks = mset [0..<length (bounds_of p xs)]
                        \<and> r = foldl (+) (Fin 0) (map (\<lambda>k. partial_sum xs (bounds_of p xs ! k)) ks)))"
proof -
  have size: "Size p = worker_count" using ThreadPool_fresh [OF assms] by (simp add: Size_def)
  have sums: "\<exists>ks. mset ks = mset [0..<length (bounds_of p xs)]
      \<and> ComputeSquareSumThreaded pick p (xs # others) 0
        = Some (foldl (+) (Fin 0) (map (\<lambda>k. partial_sum xs (bounds_of p xs ! k)) ks))" for xs
    using compute_value [where r = 0 and itemss = "xs # others" and p = p and pick = pick] ThreadPool_fresh [OF assms] by simp
  show ?thesis
  proof (cases "items_array b")
    case (Some js)
    show ?thesis
    proof (cases "read_numbers js")
      case (Some xs)
      obtain ks where "mset ks = mset [0..<length (bounds_of p xs)]"
        "ComputeSquareSumThreaded pick p (xs # others) 0
          = Some (foldl (+) (Fin 0) (map (\<lambda>k. partial_sum xs (bounds_of p xs ! k)) ks))" using sums by blast
      with Some \<open>items_array b = Some js\<close> read_numbers_length [OF Some] show ?thesis
        by (simp add: handle_square_sum_def size kServiceName_def del: mset_upt) blast
    qed (use Some in \<open>simp add: handle_square_sum_def\<close>)
  qed (simp add: handle_square_sum_def)
qed


subsection \<open>Witnesses\<close>

lemma square_sum_endpoint_witness:
  "handle_square_sum (\<lambda>xs. ComputeSquareSumThreaded (\<lambda>n. n) two_workers (xs # []) 0) (Size two_workers) 0 1
     (Some (JObj [(''items'', JList [JFloat (Fin 3), JBool True])])) = Some (reject 400 ''items must be numbers'')"
  using square_sum_endpoint [OF two_workers_made, where b = "JObj [(''items'', JList [JFloat (Fin 3), JBool True])]"
      and pick = "\<lambda>n. n" and others = "[]" and ?t0.0 = 0 and ?t1.0 = 1]
  by (simp add: items_array_def Let_def)


end
