(* ===== verification/EndToEnd.thy ===== *)
theory EndToEnd
  imports ServiceB ServiceA ApiGateway CppWorker
begin

text \<open>
  The services together: the gateway in front of service-a, service-a in front of service-b, each
  \<open>client.post\<close> being the other service's handler behind FastAPI. FastAPI answers a returned model
  with 200 and its document, an \<open>HTTPException\<close> with its status, any other exception with 500, and
  a body that does not validate with 422.

  \<open>exact_pow\<close> is what the composition needs of the C library: its \<open>pow\<close> is exact on the squares of
  integers up to \<open>2 ^ 26\<close>, which are representable.
\<close>

definition respond :: "json outcome \<Rightarrow> http_response" where
  "respond r =
     (case r of
        Inr j \<Rightarrow> \<lparr>status_code = 200, body = Inr j\<rparr>
      | Inl (HTTPException c d) \<Rightarrow> \<lparr>status_code = c, body = Inr (JObj [(''detail'', JStr d)])\<rparr>
      | Inl _ \<Rightarrow> \<lparr>status_code = 500, body = Inl (JSONDecodeError ''Internal Server Error'')\<rparr>)"

definition unprocessable :: http_response where
  "unprocessable = \<lparr>status_code = 422, body = Inr JNull\<rparr>"

text \<open>service-b's \<open>POST /squared\<close>, and service-a's three endpoints, as HTTP servers.\<close>

definition b_server :: "(pyfloat \<Rightarrow> pyfloat \<Rightarrow> pyfloat) \<Rightarrow> http_post" where
  "b_server c_pow u j =
     Inr (case (json_item ''key'' j, json_item ''value'' j) of
            (Inr (JStr k), Inr (JFloat v)) \<Rightarrow> respond (squared c_pow \<lparr>sr_key = k, sr_value = v\<rparr>)
          | _ \<Rightarrow> unprocessable)"

fun floats_of :: "json list \<Rightarrow> pyfloat list option" where
  "floats_of [] = Some []"
| "floats_of (JFloat x # js) = map_option (Cons x) (floats_of js)"
| "floats_of (_ # js) = None"

definition request_of :: "json \<Rightarrow> process_request option" where
  "request_of j =
     (case (json_item ''items'' j, json_item ''operation'' j) of
        (Inr (JList js), Inr (JStr op)) \<Rightarrow>
          (case floats_of js of
             Some xs \<Rightarrow> if valid_process_request \<lparr>items = xs, operation = op\<rparr>
                        then Some \<lparr>items = xs, operation = op\<rparr> else None
           | None \<Rightarrow> None)
      | _ \<Rightarrow> None)"

record a_world =
  aw_settings :: a_settings
  aw_net :: "nat \<Rightarrow> network"
  aw_cpp :: http_post
  aw_rand :: "int \<Rightarrow> pyfloat"
  aw_clock :: handler_clock
  aw_pick :: "nat \<Rightarrow> nat"

text \<open>A request that is never answered is a timeout at the gateway.\<close>

definition a_server :: "raise_for_status \<Rightarrow> string \<Rightarrow> a_world \<Rightarrow> http_post" where
  "a_server rfs base w u j =
     (case request_of j of
        None \<Rightarrow> Inr unprocessable
      | Some req \<Rightarrow>
          (let answer = (\<lambda>r. Inr (respond (map_outcome json_of_response r)))
           in if u = base @ ''/process''
              then answer (snd (process (aw_settings w) rfs (aw_net w) (aw_cpp w) (aw_rand w) (aw_clock w) req))
              else if u = base @ ''/process/queue''
              then (case process_via_queue (aw_settings w) rfs (aw_pick w) (\<lambda>i. post (aw_net w 0)) (aw_clock w) req of
                      None \<Rightarrow> Inl (RequestError ''timed out'')
                    | Some r \<Rightarrow> answer r)
              else if u = base @ ''/process/threadpool''
              then (case process_via_threadpool (aw_settings w) (aw_pick w) (aw_clock w) req of
                      None \<Rightarrow> Inl (RequestError ''timed out'')
                    | Some r \<Rightarrow> answer r)
              else Inr \<lparr>status_code = 404, body = Inr (JObj [(''detail'', JStr ''Not Found'')])\<rparr>))"

definition exact_pow :: "(pyfloat \<Rightarrow> pyfloat \<Rightarrow> pyfloat) \<Rightarrow> bool" where
  "exact_pow c_pow =
     (\<forall>n. \<bar>n\<bar> \<le> 2 ^ 26 \<longrightarrow> c_pow (Fin (of_int n)) (Fin 2) = Fin (of_int (n * n)))"

definition int_squares :: "int list \<Rightarrow> pyfloat list" where
  "int_squares ns = map (\<lambda>n. Fin (of_int (n * n))) ns"

definition sum_request :: "int list \<Rightarrow> process_request" where
  "sum_request ns = \<lparr>items = int_floats ns, operation = ''sum''\<rparr>"

subsection \<open>One request\<close>

lemma py_square_int:
  assumes "exact_pow c_pow" and "\<bar>n\<bar> \<le> 2 ^ 26"
  shows "py_square c_pow (Fin (of_int n)) = Inr (Fin (of_int (n * n)))"
proof -
  have abs: "\<bar>of_int n :: rat\<bar> = of_int \<bar>n\<bar>" by simp
  have "c_pow (Fin (of_int \<bar>n\<bar>)) (Fin 2) = Fin (of_int (\<bar>n\<bar> * \<bar>n\<bar>))"
    using assms unfolding exact_pow_def by (metis abs_idempotent)
  moreover have "\<bar>n\<bar> * \<bar>n\<bar> = n * n" by simp
  ultimately have pow: "c_pow (Fin \<bar>of_int n\<bar>) (Fin 2) = Fin (of_int (n * n))" unfolding abs by simp
  consider "n = 0" | "\<bar>n\<bar> = 1" | "n \<noteq> 0" "\<bar>n\<bar> \<noteq> 1" by blast
  then show ?thesis
  proof cases
    case 2
    then have "n = 1 \<or> n = - 1" by linarith
    then have "n * n = 1" by auto
    with 2 show ?thesis by (auto simp: py_square_def abs simp del: of_int_abs)
  next
    case 3
    then have "\<bar>of_int n :: rat\<bar> \<noteq> 1" unfolding abs by (metis of_int_eq_1_iff)
    with 3 show ?thesis by (simp add: py_square_def Let_def pow del: of_int_mult)
  qed (simp add: py_square_def)
qed

lemma b_server_squares:
  assumes "raises_on_error rfs" and "exact_pow c_pow" and "\<bar>n\<bar> \<le> 2 ^ 26"
  shows "one rfs (b_server c_pow) a i (Fin (of_int n)) = Inr (Fin (of_int (n * n)))"
    and "square_one rfs (b_server c_pow) a (Fin (of_int n)) = Inr (Fin (of_int (n * n)))"
proof -
  have get: "get_checked rfs (Inr \<lparr>status_code = 200, body = b\<rparr>) = Inr \<lparr>status_code = 200, body = b\<rparr>" for b
    using get_checked_Inr [OF assms(1)] by (simp add: is_success_def)
  show "one rfs (b_server c_pow) a i (Fin (of_int n)) = Inr (Fin (of_int (n * n)))"
    "square_one rfs (b_server c_pow) a (Fin (of_int n)) = Inr (Fin (of_int (n * n)))"
    by (simp_all add: one_def square_one_def b_server_def json_item_def respond_def squared_def get
        py_square_int [OF assms(2,3)] read_result_def json_to_float_def del: of_int_mult)
qed

subsection \<open>service-a in front of service-b\<close>

lemma map_int_floats: "map g (int_floats ns) = map (\<lambda>n. g (Fin (of_int n))) ns"
  by (simp add: int_floats_def)

lemma outcomes_of_ints:
  assumes "\<And>i n. \<bar>n\<bar> \<le> 2 ^ 26 \<Longrightarrow> f i (Fin (of_int n)) = Inr (Fin (of_int (n * n)))"
    and "list_all (\<lambda>n. \<bar>n\<bar> \<le> 2 ^ 26) ns"
  shows "item_outcomes f (int_floats ns) = map Inr (int_squares ns)"
proof (rule nth_equalityI)
  show "length (item_outcomes f (int_floats ns)) = length (map Inr (int_squares ns))"
    by (simp add: int_floats_def int_squares_def)
next
  fix i assume "i < length (item_outcomes f (int_floats ns))"
  then have i: "i < length ns" by (simp add: int_floats_def)
  with assms(2) have "\<bar>ns ! i\<bar> \<le> 2 ^ 26" by (simp add: list_all_length)
  with i assms(1) [of "ns ! i" i] show "item_outcomes f (int_floats ns) ! i = map Inr (int_squares ns) ! i"
    by (simp add: int_floats_def int_squares_def del: of_int_mult)
qed

lemma sum_of_squares:
  assumes "ns \<noteq> []" and "(\<Sum>n\<leftarrow>ns. n * n) \<le> 2 ^ 53"
  shows "aggregate ''sum'' (int_squares ns) = Inr (Fin (of_int (\<Sum>n\<leftarrow>ns. n * n)))"
proof -
  have "int_squares ns = map (\<lambda>k. Fin (of_int k)) (map (\<lambda>n. n * n) ns)" by (simp add: int_squares_def comp_def)
  moreover have "py_sum (map (\<lambda>k. Fin (of_int k)) (map (\<lambda>n. n * n) ns)) = Fin (of_int (\<Sum>n\<leftarrow>ns. n * n))"
    using assms(2) by (intro py_sum_ints) auto
  ultimately show ?thesis using assms(1) by (simp add: aggregate_def)
qed

text \<open>The answer all flavours give to the sum of squares of integers.\<close>

definition sum_response :: "handler_clock \<Rightarrow> int list \<Rightarrow> process_response" where
  "sum_response clk ns =
     response_of (sum_request ns) clk (int_squares ns) None (Fin (of_int (\<Sum>n\<leftarrow>ns. n * n)))"

definition small_ints :: "int list \<Rightarrow> bool" where
  "small_ints ns = (ns \<noteq> [] \<and> list_all (\<lambda>n. \<bar>n\<bar> \<le> 2 ^ 26) ns \<and> (\<Sum>n\<leftarrow>ns. n * n) \<le> 2 ^ 53)"

lemma a_process_sum:
  assumes "raises_on_error rfs" and "exact_pow c_pow" and "small_ints ns" and "post (net 0) = b_server c_pow"
  shows "snd (process s rfs net cpp_post rand clk (sum_request ns)) = Inr (sum_response clk ns)"
proof -
  have "item_outcomes (one rfs (b_server c_pow) (service_b_url s)) (int_floats ns) = map Inr (int_squares ns)"
    using outcomes_of_ints [of "one rfs (b_server c_pow) (service_b_url s)" ns] b_server_squares(1) [OF assms(1,2)] assms(3)
    by (simp add: small_ints_def)
  then have "fst (do_fanout s rfs net (items (sum_request ns)) 0) = Inr (int_squares ns)"
    using do_fanout_success [where net = net and k = 0 and s = s and rfs = rfs and xs = "int_floats ns" and ys = "int_squares ns"]
      assms(4) by (simp add: sum_request_def)
  then have "fanout_result s rfs net (items (sum_request ns)) = Inr (int_squares ns)"
    by (simp add: fanout_result_cases conclusive_def)
  from process_fanned_out [OF this, of cpp_post rand clk] assms(3) sum_of_squares [of ns] show ?thesis
    by (simp add: sum_request_def cpp_result_of_def sum_response_def small_ints_def)
qed

lemma a_queue_sum:
  assumes "raises_on_error rfs" and "exact_pow c_pow" and "small_ints ns"
  shows "process_via_queue s rfs pick (\<lambda>_. b_server c_pow) clk (sum_request ns) = Some (Inr (sum_response clk ns))"
proof -
  have "item_outcomes (\<lambda>i. square_one rfs (b_server c_pow) (service_b_url s)) (items (sum_request ns)) = map Inr (int_squares ns)"
    using outcomes_of_ints [of "\<lambda>i. square_one rfs (b_server c_pow) (service_b_url s)" ns]
      b_server_squares(2) [OF assms(1,2)] assms(3) by (simp add: small_ints_def sum_request_def)
  from queue_flavour.flavour_success [OF this] assms(3) sum_of_squares [of ns] show ?thesis
    by (simp add: process_via_queue_def sum_request_def sum_response_def small_ints_def)
qed

lemma a_threadpool_sum:
  assumes "small_ints ns"
  shows "process_via_threadpool s pick clk (sum_request ns) = Some (Inr (sum_response clk ns))"
proof -
  have "item_outcomes (\<lambda>_. square_blocking) (items (sum_request ns)) = map Inr (int_squares ns)"
    using outcomes_of_ints [of "\<lambda>_. square_blocking" ns] product_int assms
    by (simp add: small_ints_def sum_request_def square_blocking_def)
  from thread_flavour.flavour_success [OF this] assms sum_of_squares [of ns] show ?thesis
    by (simp add: process_via_threadpool_def sum_request_def sum_response_def small_ints_def)
qed

subsection \<open>The gateway in front\<close>

lemma floats_of_map: "floats_of (map JFloat xs) = Some xs"
  by (induction xs) auto

lemma request_round_trip: "valid_process_request req \<Longrightarrow> request_of (json_of_request req) = Some req"
  by (cases req) (simp add: request_of_def json_of_request_def json_item_def floats_of_map)

lemma gateway_answers:
  assumes "raises_on_error rfs" and "decodes validate"
    and "http (service_a_url s @ path) (json_of_request req) = Inr (respond (Inr (json_of_response r)))"
  shows "snd (proxy_to_service_a s rfs text validate http req path) = Inr r"
  using assms(2,3) proxy_cases [OF assms(1), of s "text" validate http req path]
  by (simp add: Let_def respond_def is_success_def decodes_def)

text \<open>
  C1: the system computes sums of squares. With service-b in front of a C library whose \<open>pow\<close> is
  exact on small integers, the gateway's three flavours return, for every schedule of the concurrent
  requests, the same answer to a request for the sum of integers of at most 26 bits: each square,
  in order, and their exact sum, as long as it is at most \<open>2 ^ 53\<close>.
\<close>

theorem sum_of_squares_end_to_end:
  assumes "raises_on_error rfs" and "exact_pow c_pow" and "decodes validate" and "small_ints ns"
    and "post (aw_net w 0) = b_server c_pow"
  shows "snd (gateway_process s rfs text validate (a_server rfs (service_a_url s) w) (sum_request ns))
           = Inr (sum_response (aw_clock w) ns)
       \<and> snd (process_flavour s rfs text validate (a_server rfs (service_a_url s) w) ''queue'' (sum_request ns))
           = Inr (sum_response (aw_clock w) ns)
       \<and> snd (process_flavour s rfs text validate (a_server rfs (service_a_url s) w) ''threadpool'' (sum_request ns))
           = Inr (sum_response (aw_clock w) ns)"
proof -
  have "valid_process_request (sum_request ns)"
    using assms(4) by (cases ns) (simp_all add: valid_process_request_def sum_request_def int_floats_def small_ints_def)
  note req = request_round_trip [OF this]
  let ?http = "a_server rfs (service_a_url s) w"
  let ?j = "json_of_request (sum_request ns)" and ?r = "respond (Inr (json_of_response (sum_response (aw_clock w) ns)))"
  have "?http (service_a_url s @ ''/process'') ?j = Inr ?r"
    using a_process_sum [where net = "aw_net w", OF assms(1,2,4,5)] by (simp add: a_server_def req)
  moreover have "?http (service_a_url s @ ''/process/queue'') ?j = Inr ?r"
    using a_queue_sum [OF assms(1,2,4)] assms(5) by (simp add: a_server_def req)
  moreover have "?http (service_a_url s @ ''/process/threadpool'') ?j = Inr ?r"
    using a_threadpool_sum [OF assms(4)] by (simp add: a_server_def req)
  ultimately show ?thesis
    using gateway_answers [OF assms(1,3)]
    by (simp add: gateway_process_def process_flavour_def flavour_paths_known)
qed

subsection \<open>With the C++ worker\<close>

text \<open>
  The C++ worker as an HTTP server. \<open>parse\<close> is what \<open>json::parse\<close> makes of the text httpx sends
  for a value, \<open>wire\<close> what httpx decodes from the text \<open>dump()\<close> prints. Of these libraries the
  composition needs that numbers survive: \<open>parses_floats\<close> for the request, \<open>keeps_numbers\<close> for the members of
  a response (nlohmann prints a member that is not finite as \<open>null\<close>, so only for finite ones).
\<close>

definition sent :: "(json \<Rightarrow> json) \<Rightarrow> cpp_response \<Rightarrow> http_response" where
  "sent wire r =
     \<lparr>status_code = (case cr_status r of Some st \<Rightarrow> st | None \<Rightarrow> 200),
      body = (case cr_content r of Some j \<Rightarrow> Inr (wire j) | None \<Rightarrow> Inl (JSONDecodeError ''Expecting value''))\<rparr>"

definition cpp_server ::
  "(json \<Rightarrow> json option) \<Rightarrow> (json \<Rightarrow> json) \<Rightarrow> string \<Rightarrow> (nat \<Rightarrow> nat) \<Rightarrow> (nat \<times> nat) thread_pool
    \<Rightarrow> pyfloat list list \<Rightarrow> int \<Rightarrow> int \<Rightarrow> http_post" where
  "cpp_server parse wire base pick p others t0 t1 u j =
     (if u = base @ ''/square_sum''
      then (case handle_square_sum (\<lambda>xs. ComputeSquareSumThreaded pick p (xs # others) 0) (Size p) t0 t1 (parse j) of
              None \<Rightarrow> Inl (RequestError ''timed out'')
            | Some r \<Rightarrow> Inr (sent wire r))
      else Inr \<lparr>status_code = 404, body = Inl (JSONDecodeError ''Expecting value'')\<rparr>)"

definition parses_floats :: "(json \<Rightarrow> json option) \<Rightarrow> bool" where
  "parses_floats parse =
     (\<forall>xs. list_all is_finite xs \<longrightarrow>
        parse (JObj [(''items'', JList (map JFloat xs))]) = Some (JObj [(''items'', JList (map JFloat xs))]))"

definition keeps_numbers :: "(json \<Rightarrow> json) \<Rightarrow> bool" where
  "keeps_numbers wire =
     (\<forall>kvs. \<exists>kvs'. wire (JObj kvs) = JObj kvs'
        \<and> (\<forall>k x. map_of kvs k = Some (JFloat x) \<longrightarrow> is_finite x \<longrightarrow> map_of kvs' k = Some (JFloat x)))"

definition square_sum_request :: "int list \<Rightarrow> process_request" where
  "square_sum_request ns = \<lparr>items = int_floats ns, operation = ''square_sum''\<rparr>"

lemma cpp_worker_sums:
  assumes "raises_on_error rfs" and "parses_floats parse" and "keeps_numbers wire"
    and "ThreadPool max_size startable worker_count = Inr p" and "exact_squares ns"
    and "length ns + unat worker_count < 2 ^ 64"
  shows "snd (call_cpp_worker_square_sum rfs (cpp_server parse wire base pick p others t0 t1) base (int_floats ns) start stop)
       = Inr (Fin (of_int (\<Sum>n\<leftarrow>ns. n * n)))"
proof -
  let ?doc = "JObj [(''items'', JList (map JFloat (int_floats ns)))]"
  have "list_all is_finite (int_floats ns)" by (simp add: int_floats_def list_all_iff is_finite_def)
  then have parse: "parse ?doc = Some ?doc" using assms(2) unfolding parses_floats_def by blast
  have sum: "ComputeSquareSumThreaded pick p (int_floats ns # others) 0 = Some (Fin (of_int (\<Sum>n\<leftarrow>ns. n * n)))"
    using compute_ints [where r = 0 and itemss = "int_floats ns # others" and pick = pick and p = p and ns = ns]
      ThreadPool_fresh [OF assms(4)] assms(5,6) by simp
  let ?kvs = "[(''service'', JStr kServiceName), (''items_processed'', JInt (int (length (int_floats ns)))),
    (''result'', JFloat (Fin (of_int (\<Sum>n\<leftarrow>ns. n * n)))), (''workers'', JInt (uint (Size p))),
    (''duration_ms'', JFloat (duration_in 1000000 (t1 - t0)))]"
  obtain kvs' where w: "wire (JObj ?kvs) = JObj kvs'"
    and k: "\<And>k x. map_of ?kvs k = Some (JFloat x) \<Longrightarrow> is_finite x \<Longrightarrow> map_of kvs' k = Some (JFloat x)"
    using assms(3) unfolding keeps_numbers_def by meson
  have r: "map_of kvs' ''result'' = Some (JFloat (Fin (of_int (\<Sum>n\<leftarrow>ns. n * n))))"
    by (rule k) (simp_all add: is_finite_def)
  have "cpp_server parse wire base pick p others t0 t1 (base @ ''/square_sum'') ?doc
      = Inr \<lparr>status_code = 200, body = Inr (JObj kvs')\<rparr>"
    by (simp add: cpp_server_def parse handle_square_sum_def items_array_def read_numbers_floats sum reply_def sent_def w)
  moreover have "get_checked rfs (Inr \<lparr>status_code = 200, body = Inr (JObj kvs')\<rparr>)
      = Inr \<lparr>status_code = 200, body = Inr (JObj kvs')\<rparr>"
    using get_checked_Inr [OF assms(1)] by (simp add: is_success_def)
  ultimately show ?thesis
    by (simp add: call_cpp_worker_square_sum_def read_result_def json_item_def r json_to_float_def)
qed

text \<open>
  C2: two computations, one result. A request for the \<open>square_sum\<close> of small integers goes through
  the gateway to service-a, from there item by item to service-b and as a whole to the C++
  worker. For every schedule of the concurrent requests, whatever else the C++ worker computes and in
  whatever order its threads merge their chunks, the answer carries the same exact sum twice: the one
  service-a has added up and the one of the C++ worker.
\<close>

theorem square_sum_end_to_end:
  assumes "raises_on_error rfs" and "exact_pow c_pow" and "decodes validate" and "small_ints ns"
    and "post (aw_net w 0) = b_server c_pow" and "parses_floats parse" and "keeps_numbers wire"
    and "ThreadPool max_size startable worker_count = Inr p" and "length ns + unat worker_count < 2 ^ 64"
    and "aw_cpp w = cpp_server parse wire (cpp_worker_url (aw_settings w)) pick p others t0 t1"
  shows "snd (gateway_process s rfs text validate (a_server rfs (service_a_url s) w) (square_sum_request ns))
       = Inr (response_of (square_sum_request ns) (aw_clock w) (int_squares ns)
           (Some (Fin (of_int (\<Sum>n\<leftarrow>ns. n * n)))) (Fin (of_int (\<Sum>n\<leftarrow>ns. n * n))))"
proof -
  let ?req = "square_sum_request ns" and ?sum = "Fin (of_int (\<Sum>n\<leftarrow>ns. n * n))"
  have "valid_process_request ?req"
    using assms(4) by (cases ns) (simp_all add: valid_process_request_def square_sum_request_def int_floats_def small_ints_def)
  note req = request_round_trip [OF this]
  have "item_outcomes (one rfs (b_server c_pow) (service_b_url (aw_settings w))) (int_floats ns) = map Inr (int_squares ns)"
    using outcomes_of_ints [of "one rfs (b_server c_pow) (service_b_url (aw_settings w))" ns]
      b_server_squares(1) [OF assms(1,2)] assms(4) by (simp add: small_ints_def)
  then have "fst (do_fanout (aw_settings w) rfs (aw_net w) (items ?req) 0) = Inr (int_squares ns)"
    using do_fanout_success [where net = "aw_net w" and k = 0 and s = "aw_settings w" and rfs = rfs
        and xs = "int_floats ns" and ys = "int_squares ns"] assms(5) by (simp add: square_sum_request_def)
  then have fan: "fanout_result (aw_settings w) rfs (aw_net w) (items ?req) = Inr (int_squares ns)"
    by (simp add: fanout_result_cases conclusive_def)
  have "snd (cpp_result_of (aw_settings w) rfs (aw_cpp w) (aw_clock w) ?req) = Inr (Some ?sum)"
  proof -
    have "exact_squares ns" using assms(4) by (simp add: small_ints_def exact_squares_def)
    from cpp_worker_sums [OF assms(1,6,7,8) this assms(9), of "cpp_worker_url (aw_settings w)" pick others t0 t1
        "cpp_start (aw_clock w)" "cpp_stop (aw_clock w)"]
    show ?thesis unfolding assms(10) by (auto simp: cpp_result_of_def square_sum_request_def Let_def split: prod.splits)
  qed
  moreover have "aggregate ''square_sum'' (int_squares ns) = Inr ?sum"
    using sum_of_squares [of ns] assms(4) by (simp add: aggregate_def small_ints_def split: if_splits)
  ultimately have "snd (process (aw_settings w) rfs (aw_net w) (aw_cpp w) (aw_rand w) (aw_clock w) ?req)
      = Inr (response_of ?req (aw_clock w) (int_squares ns) (Some ?sum) ?sum)"
    using process_fanned_out [OF fan, of "aw_cpp w" "aw_rand w" "aw_clock w"] by (simp add: square_sum_request_def)
  then have "a_server rfs (service_a_url s) w (service_a_url s @ ''/process'') (json_of_request ?req)
      = Inr (respond (Inr (json_of_response (response_of ?req (aw_clock w) (int_squares ns) (Some ?sum) ?sum))))"
    by (simp add: a_server_def req)
  then show ?thesis using gateway_answers [OF assms(1,3)] by (simp add: gateway_process_def flavour_paths_known)
qed

text \<open>A \<open>pow\<close> that multiplies, and the request for 3 and -4.\<close>

definition product_pow :: "pyfloat \<Rightarrow> pyfloat \<Rightarrow> pyfloat" where
  "product_pow x y = x * x"

lemma product_pow_exact: "exact_pow product_pow"
  by (simp add: exact_pow_def product_pow_def product_int del: of_int_mult)

text \<open>A decoder of response documents.\<close>

definition decode_response :: "json \<Rightarrow> process_response outcome" where
  "decode_response j =
     (case j of
        JObj [(_, JStr op), (_, JFloat r), (_, JInt n), (_, JList fs), (_, c), (_, JFloat d)] \<Rightarrow>
          (case floats_of fs of
             Some xs \<Rightarrow> Inr \<lparr>pr_operation = op, pr_result = r, pr_items_processed = n, pr_fanout_results = xs,
                            pr_cpp_result = (case c of JFloat x \<Rightarrow> Some x | _ \<Rightarrow> None), pr_duration_ms = d\<rparr>
           | None \<Rightarrow> Inl (ValueError ''validation error''))
      | _ \<Rightarrow> Inl (ValueError ''validation error''))"

lemma decode_response_decodes: "decodes decode_response"
  by (auto simp: decodes_def decode_response_def json_of_response_def floats_of_map split: option.splits)

definition sample_world :: a_world where
  "sample_world = \<lparr>aw_settings = a_load_settings (\<lambda>_. None),
     aw_net = (\<lambda>_. \<lparr>schedule = (\<lambda>n. n), post = b_server product_pow\<rparr>), aw_cpp = refusing_post,
     aw_rand = (\<lambda>_. Fin 0), aw_clock = sample_clock, aw_pick = (\<lambda>n. n)\<rparr>"

lemma sum_of_squares_end_to_end_witness:
  "map_outcome pr_result (snd (process_flavour sample_g_settings plain_rfs (\<lambda>_. []) decode_response
      (a_server plain_rfs (service_a_url sample_g_settings) sample_world) ''queue'' (sum_request [3, - 4]))) = Inr (Fin 25)"
  using sum_of_squares_end_to_end [OF plain_rfs_raises product_pow_exact decode_response_decodes, of "[3, - 4]" sample_world
      sample_g_settings "\<lambda>_. []"]
  by (simp add: small_ints_def sample_world_def sum_response_def response_of_def)

definition sample_cpp_world :: a_world where
  "sample_cpp_world = sample_world\<lparr>aw_cpp :=
     cpp_server Some (\<lambda>j. j) (cpp_worker_url (aw_settings sample_world)) (\<lambda>n. n) two_workers [[PosInf]] 0 1\<rparr>"

lemma plain_wire: "parses_floats Some" "keeps_numbers (\<lambda>j. j)"
  by (simp_all add: parses_floats_def keeps_numbers_def)

lemma square_sum_end_to_end_witness:
  "map_outcome (\<lambda>r. (pr_result r, pr_cpp_result r))
     (snd (gateway_process sample_g_settings plain_rfs (\<lambda>_. []) decode_response
        (a_server plain_rfs (service_a_url sample_g_settings) sample_cpp_world) (square_sum_request [3, - 4])))
   = Inr (Fin 25, Some (Fin 25))"
  using square_sum_end_to_end [OF plain_rfs_raises product_pow_exact decode_response_decodes, of "[3, - 4]" sample_cpp_world
      Some "\<lambda>j. j", OF _ _ plain_wire two_workers_made, of "\<lambda>n. n" "[[PosInf]]" 0 1 sample_g_settings "\<lambda>_. []"]
  by (simp add: small_ints_def sample_cpp_world_def sample_world_def response_of_def)

end
