(* ===== verification/Relay.thy ===== *)
theory Relay
  imports EndToEnd
begin

text \<open>
  The gateway as a relay: what a client gets from the gateway against what service-a's own handler
  computed, for every flavour, on every request and whatever the services behind service-a answer.

  \<open>plain_client\<close> is what this needs of the HTTP clients of service-a: they raise ordinary
  exceptions, and none of them is FastAPI's \<open>HTTPException\<close>, which is not theirs to raise.
\<close>

subsection \<open>Failures of service-a\<close>

definition plain_exn :: "exn \<Rightarrow> bool" where
  "plain_exn e = (is_Exception e \<and> (case e of HTTPException _ _ \<Rightarrow> False | _ \<Rightarrow> True))"

definition plain :: "'a outcome \<Rightarrow> bool" where
  "plain r = (case r of Inl e \<Rightarrow> plain_exn e | Inr _ \<Rightarrow> True)"

definition plain_client :: "http_post \<Rightarrow> bool" where
  "plain_client p = (\<forall>u j. plain (p u j) \<and> plain (and_then (p u j) body))"

lemma plain_simps [simp]:
  "plain (Inr x)" "plain (Inl e) \<longleftrightarrow> plain_exn e"
  "plain (map_outcome f r) \<longleftrightarrow> plain r"
  by (cases r; simp add: plain_def)+

lemma plain_and_then: "plain r \<Longrightarrow> (\<And>x. r = Inr x \<Longrightarrow> plain (f x)) \<Longrightarrow> plain (and_then r f)"
  by (cases r) auto

lemma plain_ValueError: "is_ValueError e \<Longrightarrow> plain_exn e"
  by (cases e) (auto simp: plain_exn_def is_Exception_def)

lemma plain_HTTPError: "is_HTTPError e \<Longrightarrow> plain_exn e"
  by (cases e) (auto simp: plain_exn_def is_Exception_def)

lemma plain_built_in [simp]:
  "plain_exn (ValueError m)" "plain_exn (TypeError m)" "plain_exn (KeyError m)" "plain_exn (OverflowError m)"
  "plain_exn ZeroDivisionError" "plain_exn (OtherException m)" "plain_exn (JSONDecodeError m)" "plain_exn (RequestError m)"
  by (simp_all add: plain_exn_def is_Exception_def)

lemma plain_rfs_outcome: "raises_on_error rfs \<Longrightarrow> plain (rfs r)"
  using raises_on_error_Inl [of rfs r] by (cases "rfs r") (auto dest: plain_HTTPError)

lemma plain_read_result: "plain (read_result j)"
proof -
  have "plain (json_to_float v)" for v
    by (auto simp: json_to_float_def float_of_int_def Let_def plain_def
        dest: py_float_errors plain_ValueError split: json.splits sum.splits)
  moreover have "plain (json_item k v)" for k v
    by (simp add: json_item_def split: json.splits option.splits)
  ultimately show ?thesis by (simp add: read_result_def plain_and_then)
qed

lemma plain_checked:
  assumes "raises_on_error rfs" and "plain_client p"
  shows "plain (get_checked rfs (p u j))" and "plain (and_then (get_checked rfs (p u j)) body)"
proof -
  have p: "plain (p u j)" "plain (and_then (p u j) body)" using assms(2) by (simp_all add: plain_client_def)
  show "plain (get_checked rfs (p u j))"
    unfolding get_checked_def by (intro plain_and_then p(1)) (simp add: plain_rfs_outcome [OF assms(1)])
  then show "plain (and_then (get_checked rfs (p u j)) body)"
    using p(2) get_checked_Inr [OF assms(1)] by (intro plain_and_then) auto
qed

lemma plain_items:
  assumes "raises_on_error rfs" and "plain_client p"
  shows "plain (one rfs p a i v)" and "plain (square_one rfs p a v)"
proof -
  have assoc: "and_then r (\<lambda>x. and_then (body x) read_result) = and_then (and_then r body) read_result"
    for r :: "http_response outcome" by (cases r) simp_all
  show "plain (one rfs p a i v)" and "plain (square_one rfs p a v)"
    unfolding one_def square_one_def assoc
    by (rule plain_and_then [OF plain_checked(2) [OF assms] plain_read_result])+
qed

lemma plain_outcomes:
  assumes "\<And>i v. plain (f i v)" and "Inl e \<in> set (item_outcomes f xs)"
  shows "plain_exn e"
proof -
  obtain i where "i < length xs" "f i (xs ! i) = Inl e" using assms(2) by (auto simp: in_set_conv_nth)
  with assms(1) show ?thesis by (metis plain_simps(2))
qed

lemma plain_only_exceptions: "(\<And>i v. plain (f i v)) \<Longrightarrow> only_exceptions (item_outcomes f xs)"
  unfolding only_exceptions_items by (metis plain_exn_def plain_simps(2))

lemma plain_aggregate: "plain (aggregate op ys)"
proof -
  have "plain (py_div x y)" for x y by (simp add: py_div_def Let_def)
  then show ?thesis by (simp add: aggregate_def float_of_int_def Let_def)
qed

lemma plain_fanout:
  assumes "raises_on_error rfs" and "\<And>k. plain_client (post (net k))"
  shows "plain (fanout_result s rfs net xs)"
proof -
  have "plain (fst (do_fanout s rfs net xs k))" for k
  proof (cases "fst (do_fanout s rfs net xs k)")
    case (Inl e)
    obtain r where r: "fan_out (schedule (net k)) (fanout_concurrency s) (one rfs (post (net k)) (service_b_url s)) xs = Some r"
      using fan_pipeline.run_returns by blast
    with Inl have "Inl e \<in> set (item_outcomes (one rfs (post (net k)) (service_b_url s)) xs)"
      using fan_pipeline.run_Inl by (fastforce simp: do_fanout_def fan_out_to_service_b_def)
    then show ?thesis using plain_outcomes plain_items(1) [OF assms(1,2)] Inl by (metis plain_simps(2))
  qed simp
  then show ?thesis by (simp add: fanout_result_cases Let_def)
qed

lemma plain_InlD: "plain r \<Longrightarrow> r = Inl e \<Longrightarrow> plain_exn e"
  by simp

lemma plain_cpp:
  assumes "raises_on_error rfs" and "plain_client p"
  shows "plain (snd (cpp_result_of s rfs p clk req))"
proof -
  have call: "plain (snd (call_cpp_worker_square_sum rfs p u xs t0 t1))" for u xs t0 t1
    using plain_InlD [OF plain_checked(2) [OF assms]]
    by (auto simp: call_cpp_worker_square_sum_def plain_read_result split: sum.splits json.splits)
  obtain calls r where r: "call_cpp_worker_square_sum rfs p (cpp_worker_url s) (items req) (cpp_start clk) (cpp_stop clk)
      = (calls, r)" by fastforce
  with call [of "cpp_worker_url s" "items req" "cpp_start clk" "cpp_stop clk"] have "plain r" by simp
  then show ?thesis by (cases r) (simp_all add: cpp_result_of_def r Let_def)
qed

text \<open>The handlers fail with FastAPI's 400 and 502, or with an exception that is not FastAPI's.\<close>

definition error_answer :: "process_response outcome \<Rightarrow> bool" where
  "error_answer r =
     (case r of Inr _ \<Rightarrow> False | Inl (HTTPException c _) \<Rightarrow> \<not> is_success c | Inl e \<Rightarrow> is_Exception e)"

lemma plain_error_answer: "plain_exn e \<Longrightarrow> error_answer (Inl e)"
  by (cases e) (simp_all add: plain_exn_def error_answer_def)

lemma error_answer_codes:
  "error_answer (Inl (HTTPException 400 d))" "error_answer (Inl (HTTPException 502 d))"
  by (simp_all add: error_answer_def is_success_def)

lemma process_error_answer:
  assumes "raises_on_error rfs" and "\<And>k. plain_client (post (net k))" and "plain_client cpp_post"
    and "snd (process s rfs net cpp_post rand clk req) = Inl e"
  shows "error_answer (Inl e)"
proof (cases "fanout_result s rfs net (items req)")
  case (Inl e')
  with plain_fanout [where net = net, OF assms(1,2)] have "plain_exn e'" by (metis plain_simps(2))
  obtain evs n where "retry_async fanout_retry (do_fanout s rfs net (items req)) rand 0 = (Inl e', evs, n)"
    using retry_fanout [of s rfs net "items req" rand] Inl by auto
  with assms(4) have "e = (if is_HTTPError e' then HTTPException 502 ''service-b unreachable'' else e')"
    by (simp add: process_def Let_def split: if_splits)
  with \<open>plain_exn e'\<close> show ?thesis by (simp add: error_answer_codes plain_error_answer)
next
  case (Inr ys)
  have cpp: "plain (snd (cpp_result_of s rfs cpp_post clk req))" by (rule plain_cpp [OF assms(1,3)])
  have agg: "plain (aggregate (operation req) ys)" by (rule plain_aggregate)
  show ?thesis
  proof (cases "snd (cpp_result_of s rfs cpp_post clk req)")
    case (Inl e')
    with assms(4) cpp process_fanned_out [OF Inr, of cpp_post rand clk] show ?thesis by (simp add: plain_error_answer)
  next
    case cr: (Inr c)
    with assms(4) process_fanned_out [OF Inr, of cpp_post rand clk] obtain e' where
      "aggregate (operation req) ys = Inl e'" "e = (if is_ValueError e' then HTTPException 400 (exn_str e') else e')"
      by (auto split: sum.splits)
    with agg show ?thesis by (simp add: error_answer_codes plain_error_answer)
  qed
qed

lemma pool_error_answer:
  assumes "\<And>i v. plain (f i v)" and "pool_flavour run f clk req = Some (Inl e)"
    and "\<And>e. run f (items req) = Some (Inl e) \<Longrightarrow> Inl e \<in> set (item_outcomes f (items req))"
  shows "error_answer (Inl e)"
proof -
  have "plain_exn e"
    using assms(2,3) plain_outcomes [of f, OF assms(1)] plain_InlD [OF plain_aggregate]
    by (auto simp: pool_flavour_def outcome_simps split: option.splits)
  then show ?thesis by (rule plain_error_answer)
qed

subsection \<open>The relay\<close>

text \<open>
  What the handler of service-a for a flavour makes of a request (\<open>None\<close> would be no answer), and
  the gateway's handler for that flavour.
\<close>

definition a_handler :: "raise_for_status \<Rightarrow> a_world \<Rightarrow> string \<Rightarrow> process_request \<Rightarrow> process_response outcome option" where
  "a_handler rfs w flavour req =
     (if flavour = ''queue''
      then process_via_queue (aw_settings w) rfs (aw_pick w) (\<lambda>i. post (aw_net w 0)) (aw_clock w) req
      else if flavour = ''threadpool'' then process_via_threadpool (aw_settings w) (aw_pick w) (aw_clock w) req
      else Some (snd (process (aw_settings w) rfs (aw_net w) (aw_cpp w) (aw_rand w) (aw_clock w) req)))"

definition g_handler ::
  "g_settings \<Rightarrow> raise_for_status \<Rightarrow> (http_response \<Rightarrow> string) \<Rightarrow> (json \<Rightarrow> process_response outcome)
    \<Rightarrow> http_post \<Rightarrow> string \<Rightarrow> process_request \<Rightarrow> g_event list \<times> process_response outcome" where
  "g_handler s rfs text validate http flavour req =
     (if flavour = ''default'' then gateway_process s rfs text validate http req
      else process_flavour s rfs text validate http flavour req)"

definition finite_response :: "process_response \<Rightarrow> bool" where
  "finite_response r =
     (is_finite (pr_result r) \<and> list_all is_finite (pr_fanout_results r) \<and> is_finite (pr_duration_ms r)
      \<and> (case pr_cpp_result r of None \<Rightarrow> True | Some x \<Rightarrow> is_finite x))"

lemma a_handler_answers:
  assumes "raises_on_error rfs" and "\<And>k. plain_client (post (aw_net w k))" and "plain_client (aw_cpp w)"
  shows "\<exists>r. a_handler rfs w flavour req = Some r \<and> (\<forall>e. r = Inl e \<longrightarrow> error_answer (Inl e))"
proof -
  let ?f = "\<lambda>i. square_one rfs (post (aw_net w 0)) (service_b_url (aw_settings w))"
  have f: "plain (?f i v)" for i v by (rule plain_items(2) [OF assms(1,2)])
  have adm: "only_exceptions (item_outcomes ?f (items req))" by (rule plain_only_exceptions [OF f])
  consider "flavour = ''queue''" | "flavour = ''threadpool''" | "flavour \<noteq> ''queue''" "flavour \<noteq> ''threadpool''" by blast
  then show ?thesis
  proof cases
    case 1
    have "error_answer (Inl e)" if "process_via_queue (aw_settings w) rfs (aw_pick w) (\<lambda>i. post (aw_net w 0)) (aw_clock w) req = Some (Inl e)" for e
      using that pool_error_answer [of ?f, OF f] queue_pipe.run_Inl [OF adm] unfolding process_via_queue_def by blast
    with 1 queue_flavour.flavour_answers [OF adm, of "aw_pick w" "queue_workers (aw_settings w)" "aw_clock w"] show ?thesis
      by (auto simp: a_handler_def process_via_queue_def)
  next
    case 2
    have sq: "plain (square_blocking v)" for v by (simp add: square_blocking_def)
    have "error_answer (Inl e)" if "process_via_threadpool (aw_settings w) (aw_pick w) (aw_clock w) req = Some (Inl e)" for e
      using that pool_error_answer [of "\<lambda>_. square_blocking", OF sq] thread_pipe.run_Inl [OF TrueI]
      unfolding process_via_threadpool_def by blast
    with 2 threadpool_endpoint_total show ?thesis by (auto simp: a_handler_def)
  next
    case 3
    with process_error_answer [where net = "aw_net w", OF assms] show ?thesis by (auto simp: a_handler_def)
  qed
qed

lemma error_status:
  "error_answer (Inl e) \<Longrightarrow> \<not> is_success (status_code (respond (Inl e)))"
  by (cases e) (simp_all add: error_answer_def respond_def is_success_def)

text \<open>Service-a's endpoint for a flavour answers with what its handler returns or raises.\<close>

lemma a_server_handler:
  assumes "valid_process_request req" and "flavour_paths flavour = Some path" and "a_handler rfs w flavour req = Some r"
  shows "a_server rfs base w (base @ path) (json_of_request req) = Inr (respond (map_outcome json_of_response r))"
proof -
  consider "flavour = ''default''" | "flavour = ''queue''" | "flavour = ''threadpool''"
    using assms(2) flavour_paths_dom [of flavour] by auto
  then show ?thesis
    using assms(2,3) by cases (auto simp: a_server_def request_round_trip [OF assms(1)] a_handler_def flavour_paths_known)
qed

lemma g_handler_proxy:
  "flavour_paths flavour = Some path \<Longrightarrow>
   g_handler s rfs text validate http flavour req = proxy_to_service_a s rfs text validate http req path"
  by (auto simp: g_handler_def gateway_process_def process_flavour_def)

text \<open>
  C20: the gateway is transparent, up to errors. Whatever service-b and the C++ worker answer, and for
  every flavour, the handler of service-a ends; the gateway sends it exactly one request, from which
  service-a reads the client's own request; and the client gets service-a's result, unchanged in every
  field, when there is one, and a 502 with one log entry of service-a's status for every failure of
  service-a, a rejected operation (400 there) included. Only finite numbers are considered, as JSON has
  no others.
\<close>

theorem gateway_transparent:
  assumes "raises_on_error rfs" and "decodes validate"
    and "\<And>k. plain_client (post (aw_net w k))" and "plain_client (aw_cpp w)"
    and "valid_process_request req" and "list_all is_finite (items req)"
    and "flavour_paths flavour = Some path"
  shows "\<exists>r. a_handler rfs w flavour req = Some r
    \<and> (case r of
          Inr resp \<Rightarrow> finite_response resp \<longrightarrow>
            g_handler s rfs text validate (a_server rfs (service_a_url s) w) flavour req
              = ([Posted (service_a_url s @ path) (json_of_request req)], Inr resp)
        | Inl e \<Rightarrow>
            g_handler s rfs text validate (a_server rfs (service_a_url s) w) flavour req
              = ([Posted (service_a_url s @ path) (json_of_request req),
                  ServiceAReturnedError (service_a_url s @ path) (status_code (respond (Inl e)))
                    (take 200 (text (respond (Inl e))))],
                 Inl (HTTPException 502 ''service-a error'')))"
proof -
  obtain r where r: "a_handler rfs w flavour req = Some r" and err: "\<forall>e. r = Inl e \<longrightarrow> error_answer (Inl e)"
    using a_handler_answers [OF assms(1,3,4)] by blast
  note proxy = g_handler_proxy [OF assms(7)] proxy_cases [OF assms(1)] a_server_handler [OF assms(5,7) r] Let_def
  have "g_handler s rfs text validate (a_server rfs (service_a_url s) w) flavour req
      = ([Posted (service_a_url s @ path) (json_of_request req)], Inr resp)" if "r = Inr resp" for resp
    using assms(2) that by (simp add: proxy respond_def is_success_def decodes_def)
  moreover have "g_handler s rfs text validate (a_server rfs (service_a_url s) w) flavour req
      = ([Posted (service_a_url s @ path) (json_of_request req),
          ServiceAReturnedError (service_a_url s @ path) (status_code (respond (Inl e))) (take 200 (text (respond (Inl e))))],
         Inl (HTTPException 502 ''service-a error''))" if "r = Inl e" for e
    using err that error_status [of e] by (simp add: proxy)
  ultimately show ?thesis using r by (auto split: sum.split)
qed

lemma plain_respond: "plain (body (respond r))"
proof (cases r)
  case (Inl e)
  then show ?thesis by (cases e) (simp_all add: respond_def)
qed (simp add: respond_def)

lemma plain_b_server: "plain_client (b_server c_pow)"
  by (auto simp: plain_client_def b_server_def unprocessable_def plain_respond split: sum.split json.split)

definition product_request :: "string \<Rightarrow> process_request" where
  "product_request op = \<lparr>items = [Fin 3, Fin (- 4)], operation = op\<rparr>"

lemma gateway_transparent_witness:
  "snd (g_handler sample_g_settings plain_rfs (\<lambda>_. []) decode_response
      (a_server plain_rfs (service_a_url sample_g_settings) sample_world) ''threadpool'' (product_request ''max''))
     = Inl (HTTPException 502 ''service-a error'')
 \<and> map_outcome pr_result (snd (g_handler sample_g_settings plain_rfs (\<lambda>_. []) decode_response
      (a_server plain_rfs (service_a_url sample_g_settings) sample_world) ''threadpool'' (product_request ''sum'')))
     = Inr (Fin 25)"
proof -
  let ?a = "\<lambda>op. a_handler plain_rfs sample_world ''threadpool'' (product_request op)"
  have clients: "plain_client (post (aw_net sample_world k))" "plain_client (aw_cpp sample_world)" for k
    by (simp add: sample_world_def plain_b_server) (simp add: sample_world_def plain_client_def refusing_post_def)
  have req: "valid_process_request (product_request op)" "list_all is_finite (items (product_request op))" for op
    by (simp_all add: valid_process_request_def product_request_def is_finite_def)
  note relay = gateway_transparent [OF plain_rfs_raises decode_response_decodes clients req flavour_paths_known(3),
      of _ sample_g_settings "\<lambda>_. []"]
  have "?a ''max'' = Some (Inl (ValueError (''unsupported operation: '' @ py_repr ''max'')))" by code_simp
  moreover have "case ?a ''sum'' of Some (Inr r) \<Rightarrow> finite_response r \<and> pr_result r = Fin 25 | _ \<Rightarrow> False" by code_simp
  ultimately show ?thesis using relay [of "''max''"] relay [of "''sum''"] by (auto split: option.splits sum.splits)
qed

end
