(* ===== verification/PyRepr.thy ===== *)
theory PyRepr
  imports PyText
begin

text \<open>
  \<open>repr(float)\<close>, which is also \<open>str(float)\<close> and what \<open>json.dumps\<close> prints: the shortest decimal
  that rounds to the double, in positional notation for decimal exponents from -4 to 15 and in
  scientific notation otherwise.

  \<open>shortest\<close> tries 1, 2, \<dots> significant digits; \<open>decimal_rounds_back\<close> shows that 17 are always
  enough, and \<open>py_float_repr\<close> that \<open>float(repr(x))\<close> is \<open>x\<close> for every double.
\<close>

subsection \<open>The shortest decimal\<close>

text \<open>The decimal exponent of a positive rational: \<open>10 powi k \<le> q < 10 powi (k + 1)\<close>.\<close>

definition ilog10 :: "rat \<Rightarrow> int" where
  "ilog10 q =
     (let (n, d) = quotient_of q; k = int (length (show_digits n)) - int (length (show_digits d))
      in if 10 powi k \<le> q then k else k - 1)"

text \<open>
  A decimal is a pair \<open>(c, e)\<close> for \<open>c * 10 powi e\<close>. With \<open>n\<close> digits, the candidates are the nearest
  multiple of the unit (ties to even) and then the other neighbour.
\<close>

definition decimal_value :: "int \<times> int \<Rightarrow> rat" where
  "decimal_value p = of_int (fst p) * 10 powi snd p"

definition candidates :: "rat \<Rightarrow> nat \<Rightarrow> (int \<times> int) list" where
  "candidates q n =
     (let e = ilog10 q + 1 - int n; s = q / 10 powi e
      in [(round_half_even s, e), (\<lfloor>s\<rfloor>, e), (\<lfloor>s\<rfloor> + 1, e)])"

definition shortest :: "rat \<Rightarrow> int \<times> int" where
  "shortest q =
     hd (filter (\<lambda>p. fl (decimal_value p) = Fin q) (concat (map (candidates q) [1..<18])) @ candidates q 17)"

fun strip_zeros :: "nat \<Rightarrow> int \<times> int \<Rightarrow> int \<times> int" where
  "strip_zeros 0 p = p"
| "strip_zeros (Suc k) (c, e) = (if c mod 10 = 0 then strip_zeros k (c div 10, e + 1) else (c, e))"

subsection \<open>The notation\<close>

definition zeros :: "int \<Rightarrow> string" where
  "zeros n = replicate (nat n) (CHR ''0'')"

definition show_exponent :: "int \<Rightarrow> string" where
  "show_exponent x =
     (if x < 0 then ''-'' else ''+'') @ (if \<bar>x\<bar> < 10 then ''0'' else []) @ show_digits \<bar>x\<bar>"

text \<open>The digits \<open>ds\<close> with the decimal point after the first \<open>pt\<close> of them.\<close>

definition place_point :: "string \<Rightarrow> int \<Rightarrow> string" where
  "place_point ds pt =
     (if pt \<le> - 4 \<or> 16 < pt
      then take 1 ds @ (if length ds = 1 then [] else ''.'' @ drop 1 ds) @ ''e'' @ show_exponent (pt - 1)
      else if pt \<le> 0 then ''0.'' @ zeros (- pt) @ ds
      else if int (length ds) \<le> pt then ds @ zeros (pt - int (length ds)) @ ''.0''
      else take (nat pt) ds @ ''.'' @ drop (nat pt) ds)"

definition repr_pos :: "rat \<Rightarrow> string" where
  "repr_pos q =
     (let (c, e) = strip_zeros 17 (shortest q); ds = show_digits c
      in place_point ds (int (length ds) + e))"

definition float_repr :: "pyfloat \<Rightarrow> string" where
  "float_repr x =
     (case x of
        NaN \<Rightarrow> ''nan''
      | PosInf \<Rightarrow> ''inf''
      | NegInf \<Rightarrow> ''-inf''
      | NegZero \<Rightarrow> ''-0.0''
      | Fin q \<Rightarrow>
          if q = 0 then ''0.0''
          else if 0 < q then repr_pos q
          else ''-'' @ repr_pos (- q))"

subsection \<open>The decimal exponent\<close>

lemma show_digits_bounds:
  "0 < n \<Longrightarrow> 10 ^ (length (show_digits n) - 1) \<le> n \<and> n < 10 ^ length (show_digits n)"
proof (induction n rule: show_digits.induct)
  case (1 n)
  show ?case
  proof (cases "n < 10")
    case True
    with "1.prems" show ?thesis by (simp add: show_digits.simps [of n])
  next
    case False
    let ?l = "length (show_digits (n div 10))"
    from False have "0 < n div 10" by linarith
    with 1 False have IH: "10 ^ (?l - 1) \<le> n div 10" "n div 10 < 10 ^ ?l" by auto
    have "(10::int) ^ ?l = 10 * 10 ^ (?l - 1)" by (simp add: power_eq_if)
    with IH False have "(10::int) ^ ?l \<le> n" "n < 10 * 10 ^ ?l" by linarith+
    then show ?thesis using False by (simp add: show_digits.simps [of n])
  qed
qed

lemma show_digits_rat_bounds:
  assumes "0 < n"
  shows "(10::rat) powi (int (length (show_digits n)) - 1) \<le> of_int n"
    and "(of_int n :: rat) < 10 powi int (length (show_digits n))"
proof -
  let ?l = "length (show_digits n)"
  note b = show_digits_bounds [OF assms]
  have l: "0 < ?l" by simp
  have "(of_int (10 ^ (?l - 1)) :: rat) \<le> of_int n" using b by (simp only: of_int_le_iff)
  moreover have "(10::rat) powi (int ?l - 1) = of_int (10 ^ (?l - 1))"
    using l by (cases ?l) (simp_all add: Suc_leI)
  ultimately show "(10::rat) powi (int ?l - 1) \<le> of_int n" by (simp only:)
  have "(of_int n :: rat) < of_int (10 ^ ?l)" using b by (simp only: of_int_less_iff)
  then show "(of_int n :: rat) < 10 powi int ?l" by (simp add: power_int_def)
qed

lemma ilog10_bounds:
  assumes "0 < q"
  shows "10 powi ilog10 q \<le> q" and "q < 10 powi (ilog10 q + 1)"
proof -
  obtain n d where nd: "quotient_of q = (n, d)" by fastforce
  have d: "0 < d" using quotient_of_denom_pos [OF nd] .
  have q: "q = of_int n / of_int d" using quotient_of_div [OF nd] .
  have n: "0 < n" using assms q d by (simp add: zero_less_divide_iff)
  define N where "N = int (length (show_digits n))"
  define D where "D = int (length (show_digits d))"
  note bn = show_digits_rat_bounds [OF n, folded N_def] and bd = show_digits_rat_bounds [OF d, folded D_def]
  have "(10::rat) powi (N - D - 1) * of_int d \<le> 10 powi (N - D - 1) * 10 powi D"
    using bd(2) by (intro mult_left_mono) auto
  also have "\<dots> = 10 powi (N - 1)" by (simp add: power_int_add [symmetric])
  also have "\<dots> \<le> of_int n" by (rule bn(1))
  finally have lower: "10 powi (N - D - 1) \<le> q" using d by (simp add: q pos_le_divide_eq)
  have "(of_int n :: rat) < 10 powi N" by (rule bn(2))
  also have "\<dots> = 10 powi (N - D + 1) * 10 powi (D - 1)" by (simp add: power_int_add [symmetric])
  also have "\<dots> \<le> 10 powi (N - D + 1) * of_int d" using bd(1) by (intro mult_left_mono) auto
  finally have upper: "q < 10 powi (N - D + 1)" using d by (simp add: q pos_divide_less_eq)
  have "ilog10 q = (if 10 powi (N - D) \<le> q then N - D else N - D - 1)"
    by (simp add: ilog10_def nd N_def D_def)
  with lower upper show "10 powi ilog10 q \<le> q" and "q < 10 powi (ilog10 q + 1)"
    by (auto simp: not_le)
qed

subsection \<open>Seventeen digits are enough\<close>

lemma round_half_even_error: "\<bar>of_int (round_half_even x) - x\<bar> \<le> 1 / 2"
proof -
  have "x - of_int \<lfloor>x\<rfloor> \<le> 1" by linarith
  then show ?thesis unfolding round_half_even_def Let_def abs_le_iff
    by (auto simp: not_less) (insert of_int_floor_le [of x], linarith)
qed

lemma round_half_even_near:
  assumes "\<bar>x - of_int m\<bar> < 1 / 2"
  shows "round_half_even x = m"
proof -
  have "\<bar>of_int (round_half_even x) - of_int m :: rat\<bar> < 1"
    using round_half_even_error [of x] assms by linarith
  then have "\<bar>of_int (round_half_even x - m) :: rat\<bar> < of_int 1" by simp
  then have "\<bar>round_half_even x - m\<bar> < 1" by (simp only: of_int_abs [symmetric] of_int_less_iff)
  then show ?thesis by simp
qed

text \<open>A number closer to a double than one part in \<open>2 * 10 ^ 16\<close> rounds to it.\<close>

lemma round_mag_near:
  assumes q: "0 < q" "dyadic64 q" and y: "0 < y" and err: "2 * 10 ^ 16 * \<bar>y - q\<bar> \<le> q"
  shows "round_mag y = q"
proof -
  define t where "t = ulp_exp y"
  obtain m e where me: "\<bar>m\<bar> < 2 ^ 53" "- 1074 \<le> e" "q = of_int m * 2 powi e"
    using q(2) by (auto simp: dyadic64_def)
  have p: "(0::rat) < 2 powi k" for k by simp
  have m: "(of_int m :: rat) \<le> of_int (2 ^ 53 - 1)" using me(1) by (simp only: of_int_le_iff)
  have te: "t \<le> e"
  proof (rule ccontr)
    assume "\<not> t \<le> e"
    then have t: "t = ilog2 y - 52" and et: "e + 53 \<le> t + 52" using me(2) by (auto simp: t_def ulp_exp_def)
    have "(2::rat) powi (e + 53) \<le> 2 powi (t + 52)" using et by (intro power_int_increasing) auto
    also have "\<dots> \<le> y" using ilog2_bounds(1) [OF y] t by simp
    finally have "2 powi 53 * 2 powi e \<le> y" by (simp only: powi2_split mult.commute)
    moreover have "q \<le> of_int (2 ^ 53 - 1) * 2 powi e"
      using me(3) m p [of e] by (simp only: mult_right_mono less_imp_le)
    ultimately show False using err p [of e] by (simp add: abs_if split: if_splits)
  qed
  obtain M :: int where M: "q = of_int M * 2 powi t"
  proof
    have "(2::rat) powi e = of_int (2 ^ nat (e - t)) * 2 powi t"
      using te powi2_split [of "e - t" t] by (simp add: powi2_of_int)
    then show "q = of_int (m * 2 ^ nat (e - t)) * 2 powi t" by (simp add: me(3))
  qed
  have "y < 2 powi (ilog2 y + 1)" by (rule ilog2_bounds [OF y])
  also have "\<dots> \<le> 2 powi (53 + t)" by (intro power_int_increasing) (auto simp: t_def ulp_exp_def)
  also have "\<dots> = 2 ^ 53 * 2 powi t" by (simp add: powi2_split)
  finally have "y < 2 ^ 53 * 2 powi t" .
  with err p [of t] have "2 * \<bar>y - q\<bar> < 2 powi t" by (simp add: abs_if split: if_splits)
  then have "\<bar>y / 2 powi t - of_int M\<bar> < 1 / 2"
    using p [of t] by (simp add: M field_simps abs_if split: if_splits)
  then have "round_half_even (y / 2 powi t) = M" by (rule round_half_even_near)
  then show ?thesis by (simp add: round_mag_def t_def [symmetric] M)
qed


lemma fl_positive: "0 < q \<Longrightarrow> fl q = fl_pos q"
  by (simp add: fl_def)

lemma decimal_rounds_back:
  assumes "0 < q" and "wf_float (Fin q)"
  shows "fl (decimal_value (hd (candidates q 17))) = Fin q"
proof -
  let ?e = "ilog10 q + 1 - 17"
  let ?y = "of_int (round_half_even (q / 10 powi ?e)) * (10 :: rat) powi ?e"
  have d: "dyadic64 q" using assms(2) by (simp only: wf_float_Fin_iff)
  have p: "(0::rat) < 10 powi ?e" by simp
  have split: "(10::rat) powi ilog10 q = 10 ^ 16 * 10 powi ?e"
    using power_int_add [of "10::rat" 16 ?e] by simp
  have "\<bar>of_int (round_half_even (q / 10 powi ?e)) - q / 10 powi ?e\<bar> * 10 powi ?e \<le> 1 / 2 * 10 powi ?e"
    using round_half_even_error [of "q / 10 powi ?e"] p by (intro mult_right_mono) simp_all
  also have "\<bar>of_int (round_half_even (q / 10 powi ?e)) - q / 10 powi ?e\<bar> * 10 powi ?e = \<bar>?y - q\<bar>"
    using p by (simp add: abs_mult_pos left_diff_distrib)
  finally have err: "2 * \<bar>?y - q\<bar> \<le> 10 powi ?e" by simp
  have "10 ^ 16 * 10 powi ?e \<le> q" using ilog10_bounds(1) [OF assms(1)] by (simp only: split)
  with err have rel: "2 * 10 ^ 16 * \<bar>?y - q\<bar> \<le> q" by simp
  with assms(1) have "0 < ?y" by (simp add: abs_if split: if_splits)
  then have "fl_pos ?y = Fin q"
    using round_mag_near [OF assms(1) d _ rel] d by (auto simp: fl_pos_def dyadic64_def)
  moreover have "decimal_value (hd (candidates q 17)) = ?y" by (simp add: candidates_def decimal_value_def Let_def)
  ultimately show ?thesis using fl_positive [OF \<open>0 < ?y\<close>] by (simp only:)
qed

lemma candidates_not_Nil [simp]: "candidates q n \<noteq> []"
  by (simp add: candidates_def Let_def)

lemma shortest_rounds_back:
  assumes "0 < q" and "wf_float (Fin q)"
  shows "fl (decimal_value (shortest q)) = Fin q"
proof -
  let ?ps = "filter (\<lambda>p. fl (decimal_value p) = Fin q) (concat (map (candidates q) [1..<18]))"
  have "hd (candidates q 17) \<in> set (candidates q 17)" by simp
  then have "hd (candidates q 17) \<in> set ?ps"
    using decimal_rounds_back [OF assms] by (auto intro!: bexI [of _ 17] simp del: upt_rec_numeral)
  then have "?ps \<noteq> []" by (metis empty_iff empty_set)
  then have "shortest q = hd ?ps" and "hd ?ps \<in> set ?ps"
    by (simp add: shortest_def del: upt_rec_numeral) (rule hd_in_set [OF \<open>?ps \<noteq> []\<close>])
  then show ?thesis by (simp only: set_filter mem_Collect_eq)
qed

lemma shortest_pos:
  assumes "0 < q" and "wf_float (Fin q)"
  shows "0 < fst (shortest q)"
proof (rule ccontr)
  assume "\<not> 0 < fst (shortest q)"
  then have "decimal_value (shortest q) \<le> 0"
    by (simp add: decimal_value_def mult_nonpos_nonneg)
  then have "fl (decimal_value (shortest q)) \<le> Fin 0" using fl_mono [of _ 0] by simp
  with shortest_rounds_back [OF assms] assms(1) show False by simp
qed

lemma strip_zeros_value: "decimal_value (strip_zeros k p) = decimal_value p"
proof (induction k p rule: strip_zeros.induct)
  case (2 k c e)
  have "of_int (c div 10) * 10 powi (e + 1) = (of_int c :: rat) * 10 powi e" if "c mod 10 = 0"
  proof -
    have "c = c div 10 * 10" using that by (metis div_mult_mod_eq add.right_neutral)
    then have "(of_int c :: rat) = of_int (c div 10) * 10" by (metis of_int_mult of_int_numeral)
    then show ?thesis by (simp add: power_int_add)
  qed
  with 2 show ?case by (simp add: decimal_value_def)
qed simp

lemma strip_zeros_pos: "0 < fst p \<Longrightarrow> 0 < fst (strip_zeros k p)"
proof (induction k p rule: strip_zeros.induct)
  case (2 k c e)
  have "0 < c div 10" if "c mod 10 = 0" using that 2(2) by (simp, presburger)
  with 2 show ?case by simp
qed simp


subsection \<open>Parsing the notation\<close>

lemma digits_value_acc: "digits_value acc ds = acc * 10 ^ length ds + digits_value 0 ds"
proof (induction ds arbitrary: acc)
  case (Cons c ds)
  show ?case using Cons [of "10 * acc + digit_value c"] Cons [of "digit_value c"]
    by (simp add: algebra_simps)
qed simp

lemma digit_value_zero: "digit_value (CHR ''0'') = 0"
  by (simp add: digit_value_def)

lemma digits_value_zeros [simp]: "digits_value acc (replicate n (CHR ''0'')) = acc * 10 ^ n"
  by (induction n arbitrary: acc) (simp_all add: digit_value_zero)

lemma is_digit_zeros [simp]: "list_all is_digit (zeros n)"
  by (auto simp: zeros_def list_all_iff is_digit_iff)

lemma is_digit_show_digits [simp]: "list_all is_digit (show_digits n)"
  using show_digits_digits by (simp add: list_all_iff)

lemma takeWhile_digits:
  assumes "list_all is_digit ds" and "r = [] \<or> \<not> is_digit (hd r)"
  shows "takeWhile is_digit (ds @ r) = ds" and "dropWhile is_digit (ds @ r) = r"
  using assms by (induction ds) (cases r, auto)+

lemma parse_decimal_point:
  assumes "list_all is_digit ip" and "list_all is_digit fp" and "ip \<noteq> []"
    and "r = [] \<or> \<not> is_digit (hd r)"
  shows "parse_decimal (ip @ CHR ''.'' # fp @ r)
    = map_option (\<lambda>x. of_int (digits_value 0 (ip @ fp)) * 10 powi (x - int (length fp))) (parse_exponent r)"
proof -
  have "\<not> is_digit (CHR ''.'')" by (simp add: is_digit_iff)
  then show ?thesis
    using assms takeWhile_digits [of ip "CHR ''.'' # fp @ r"] takeWhile_digits [of fp r]
    by (simp add: parse_decimal_def Let_def)
qed

lemma parse_decimal_whole:
  assumes "list_all is_digit ip" and "ip \<noteq> []" and "r = [] \<or> \<not> is_digit (hd r) \<and> hd r \<noteq> CHR ''.''"
  shows "parse_decimal (ip @ r) = map_option (\<lambda>x. of_int (digits_value 0 ip) * 10 powi x) (parse_exponent r)"
proof -
  have "takeWhile is_digit (ip @ r) = ip" "dropWhile is_digit (ip @ r) = r"
    using takeWhile_digits [of ip r] assms by auto
  moreover have "(r \<noteq> [] \<and> hd r = CHR ''.'') = False" using assms(3) by auto
  ultimately show ?thesis using assms(2) unfolding parse_decimal_def Let_def by (simp only: if_False) simp
qed

lemma parse_exponent_show: "parse_exponent (CHR ''e'' # show_exponent x) = Some x"
proof -
  define ds where "ds = (if \<bar>x\<bar> < 10 then ''0'' else []) @ show_digits \<bar>x\<bar>"
  have "list_all is_digit ds" by (simp add: ds_def is_digit_iff)
  moreover have "ds \<noteq> []" by (simp add: ds_def)
  moreover have "digits_value 0 ds = \<bar>x\<bar>" by (simp add: ds_def digit_value_zero digits_value_show_digits)
  moreover have "show_exponent x = (if x < 0 then CHR ''-'' else CHR ''+'') # ds"
    by (simp add: show_exponent_def ds_def)
  ultimately show ?thesis
    by (simp add: parse_exponent_def split_sign_def to_lower_def less_eq_char_def)
qed

lemma parse_exponent_Nil [simp]: "parse_exponent [] = Some 0"
  by (simp add: parse_exponent_def)

text \<open>The notation denotes the digits with the point moved to its place.\<close>

lemma parse_place_point:
  assumes ds: "list_all is_digit ds" "ds \<noteq> []"
  shows "parse_decimal (place_point ds pt) = Some (of_int (digits_value 0 ds) * 10 powi (pt - int (length ds)))"
proof -
  let ?n = "length ds"
  consider "pt \<le> - 4 \<or> 16 < pt" "?n = 1" | "pt \<le> - 4 \<or> 16 < pt" "?n \<noteq> 1"
    | "- 4 < pt" "pt \<le> 0" | "0 < pt" "pt \<le> 16" "int ?n \<le> pt" | "0 < pt" "pt \<le> 16" "pt < int ?n"
    by linarith
  then show ?thesis
  proof cases
    case 1
    then have "place_point ds pt = ds @ CHR ''e'' # show_exponent (pt - 1)" by (auto simp: place_point_def)
    with 1 ds show ?thesis by (simp add: parse_decimal_whole parse_exponent_show is_digit_iff)
  next
    case 2
    then have "place_point ds pt = take 1 ds @ CHR ''.'' # drop 1 ds @ CHR ''e'' # show_exponent (pt - 1)"
      by (auto simp: place_point_def)
    moreover have "list_all is_digit (take 1 ds)" "list_all is_digit (drop 1 ds)"
      using ds(1) by (auto simp: list_all_iff dest: in_set_takeD in_set_dropD)
    ultimately show ?thesis using ds(2)
      by (simp add: parse_decimal_point parse_exponent_show is_digit_iff of_nat_diff Suc_leI)
  next
    case 3
    then have "place_point ds pt = ''0'' @ CHR ''.'' # (zeros (- pt) @ ds) @ []" by (simp add: place_point_def)
    moreover have "parse_decimal (''0'' @ CHR ''.'' # (zeros (- pt) @ ds) @ [])
        = Some (of_int (digits_value 0 (''0'' @ zeros (- pt) @ ds)) * 10 powi (0 - int (length (zeros (- pt) @ ds))))"
      using ds by (subst parse_decimal_point) (simp_all add: is_digit_iff)
    moreover have "digits_value 0 (''0'' @ zeros (- pt) @ ds) = digits_value 0 ds"
      by (simp add: zeros_def digits_value_append digit_value_zero)
    moreover have "0 - int (length (zeros (- pt) @ ds)) = pt - int ?n" using 3 by (simp add: zeros_def)
    ultimately show ?thesis by (simp only:)
  next
    case 4
    then have "place_point ds pt = (ds @ zeros (pt - int ?n)) @ CHR ''.'' # ''0'' @ []" by (simp add: place_point_def)
    moreover have "parse_decimal ((ds @ zeros (pt - int ?n)) @ CHR ''.'' # ''0'' @ [])
        = Some (of_int (digits_value 0 ((ds @ zeros (pt - int ?n)) @ ''0'')) * 10 powi (0 - int (length ''0'')))"
      using ds by (subst parse_decimal_point) (simp_all add: is_digit_iff)
    moreover have "digits_value 0 ((ds @ zeros (pt - int ?n)) @ ''0'') = digits_value 0 ds * 10 ^ nat (pt - int ?n) * 10"
      by (simp add: zeros_def digits_value_append digit_value_zero)
    moreover have "of_int (digits_value 0 ds * 10 ^ nat (pt - int ?n) * 10) * (10 :: rat) powi (0 - int (length ''0''))
        = of_int (digits_value 0 ds) * 10 powi (pt - int ?n)"
      using 4 by (simp add: power_int_def)
    ultimately show ?thesis by (simp only:)
  next
    case 5
    then have "place_point ds pt = take (nat pt) ds @ CHR ''.'' # drop (nat pt) ds @ []" by (simp add: place_point_def)
    moreover have "list_all is_digit (take (nat pt) ds)" "list_all is_digit (drop (nat pt) ds)"
      using ds(1) by (auto simp: list_all_iff dest: in_set_takeD in_set_dropD)
    moreover have "take (nat pt) ds \<noteq> []" "0 - int (length (drop (nat pt) ds)) = pt - int ?n" using 5 ds by auto
    ultimately show ?thesis by (simp add: parse_decimal_point [where r = "[]", simplified])
  qed
qed


subsection \<open>The round trip\<close>

text \<open>The characters of a notation: it starts and ends with a digit.\<close>

definition number_char :: "char \<Rightarrow> bool" where
  "number_char c = (is_digit c \<or> c \<in> {CHR ''.'', CHR ''e'', CHR ''+'', CHR ''-''})"

lemma place_point_shape:
  assumes ds: "list_all is_digit ds" "ds \<noteq> []"
  shows "place_point ds pt \<noteq> []" and "is_digit (hd (place_point ds pt))"
    and "is_digit (last (place_point ds pt))" and "list_all number_char (place_point ds pt)"
proof -
  obtain d ds' where c: "ds = d # ds'" using ds(2) by (cases ds) auto
  have hd: "is_digit d" using ds(1) c by simp
  have last: "is_digit (last xs)" if "xs \<noteq> []" "list_all is_digit xs" for xs
    using that by (simp add: list_all_iff)
  have z: "is_digit (CHR ''0'')" by (simp add: is_digit_iff)
  have sub: "list_all number_char xs" if "list_all is_digit xs" for xs
    using that by (auto simp: list_all_iff number_char_def)
  have parts: "list_all is_digit (take k ds)" "list_all is_digit (drop k ds)" for k
    using ds(1) by (auto simp: list_all_iff dest: in_set_takeD in_set_dropD)
  have x: "show_exponent x \<noteq> []" "is_digit (last (show_exponent x))" "list_all number_char (show_exponent x)" for x
    using sub [OF is_digit_show_digits [of "\<bar>x\<bar>"]] last [OF show_digits_nonempty is_digit_show_digits, of "\<bar>x\<bar>"] z
    by (auto simp: show_exponent_def number_char_def)
  show "place_point ds pt \<noteq> []" by (auto simp: place_point_def c)
  show "is_digit (hd (place_point ds pt))"
    using hd z by (auto simp: place_point_def c take_Cons' zeros_def)
  show "is_digit (last (place_point ds pt))"
    using last [OF ds(2,1)] last [OF _ parts(2)] x z by (auto simp: place_point_def c simp del: last_drop drop_Cons')
  show "list_all number_char (place_point ds pt)"
    using sub parts sub [OF ds(1)] sub [OF is_digit_zeros] x z
    by (auto simp: place_point_def number_char_def)
qed


lemma number_char_facts:
  assumes "number_char c"
  shows "c \<noteq> CHR ''_''" and "\<not> is_space c" and "to_lower c = c"
  using assms by (auto simp: number_char_def is_digit_iff is_space_def to_lower_def Let_def less_eq_char_def)

lemma drop_underscores_id: "CHR ''_'' \<notin> set s \<Longrightarrow> drop_underscores d s = Some s"
  by (induction s arbitrary: d) auto

lemma split_sign_digit: "s \<noteq> [] \<Longrightarrow> is_digit (hd s) \<Longrightarrow> split_sign s = (False, s)"
  by (cases s) (auto simp: split_sign_def dest: digit_not_sign)

lemma py_float_number:
  assumes "s \<noteq> []" and "is_digit (hd s)" and "is_digit (last s)" and "list_all number_char s"
    and "parse_decimal s = Some q"
  shows "py_float s = Inr (fl q)" and "py_float (CHR ''-'' # s) = Inr (fneg (fl q))"
proof -
  have strip: "py_strip s = s" "py_strip (CHR ''-'' # s) = CHR ''-'' # s"
    using assms(1-3) digit_not_space by (auto intro!: py_strip_id simp: is_space_def)
  have "map to_lower s = s"
    using assms(4) number_char_facts(3) by (intro map_idI) (auto simp: list_all_iff)
  moreover have "hd s \<notin> {CHR ''i'', CHR ''n''}" using assms(2) by (auto simp: is_digit_iff)
  ultimately have low: "map to_lower s \<noteq> ''inf''" "map to_lower s \<noteq> ''infinity''" "map to_lower s \<noteq> ''nan''"
    using assms(1) by auto
  have u: "drop_underscores False s = Some s"
    using assms(4) number_char_facts(1) by (intro drop_underscores_id) (auto simp: list_all_iff)
  show "py_float s = Inr (fl q)"
    using low u strip(1) split_sign_digit [OF assms(1,2)] assms(5) by (simp add: py_float_def)
  have "split_sign (CHR ''-'' # s) = (True, s)" by (simp add: split_sign_def)
  with low u strip(2) assms(5) show "py_float (CHR ''-'' # s) = Inr (fneg (fl q))" by (simp add: py_float_def)
qed

lemma repr_pos_parts:
  assumes "0 < q" and "wf_float (Fin q)"
  obtains ds pt where "repr_pos q = place_point ds pt" and "list_all is_digit ds" and "ds \<noteq> []"
    and "fl (of_int (digits_value 0 ds) * 10 powi (pt - int (length ds))) = Fin q"
proof -
  obtain c e where ce: "strip_zeros 17 (shortest q) = (c, e)" by fastforce
  have "0 < c" using strip_zeros_pos [OF shortest_pos [OF assms], of 17] ce by simp
  moreover have "fl (of_int c * 10 powi e) = Fin q"
    using shortest_rounds_back [OF assms] strip_zeros_value [of 17 "shortest q"] ce by (simp add: decimal_value_def)
  ultimately show thesis
    by (intro that [of "show_digits c" "int (length (show_digits c)) + e"])
       (simp_all add: repr_pos_def ce digits_value_show_digits Let_def)
qed

lemma py_float_repr_pos:
  assumes "0 < q" and "wf_float (Fin q)"
  shows "py_float (repr_pos q) = Inr (Fin q)" and "py_float (CHR ''-'' # repr_pos q) = Inr (Fin (- q))"
proof -
  from repr_pos_parts [OF assms] obtain ds pt where r: "repr_pos q = place_point ds pt"
    and ds: "list_all is_digit ds" "ds \<noteq> []"
    and v: "fl (of_int (digits_value 0 ds) * 10 powi (pt - int (length ds))) = Fin q" .
  note * = py_float_number [OF place_point_shape [OF ds] parse_place_point [OF ds], of pt]
  show "py_float (repr_pos q) = Inr (Fin q)" using *(1) v by (simp only: r)
  show "py_float (CHR ''-'' # repr_pos q) = Inr (Fin (- q))" using *(2) v assms(1) by (simp add: r)
qed

lemma py_float_specials:
  "py_float ''nan'' = Inr NaN" "py_float ''inf'' = Inr PosInf" "py_float ''-inf'' = Inr NegInf"
  "py_float ''0.0'' = Inr (Fin 0)" "py_float ''-0.0'' = Inr NegZero"
  by code_simp+

text \<open>
  Printing a float and reading it back gives the float, for every double, the infinities and NaN
  included.
\<close>

lemma py_float_repr:
  assumes "wf_float x"
  shows "py_float (float_repr x) = Inr x"
proof (cases x)
  case (Fin q)
  consider "q = 0" | "0 < q" | "q < 0" by linarith
  then show ?thesis
  proof cases
    case 3
    moreover have "wf_float (Fin (- q))" using assms Fin wf_float_Fin_iff by simp
    ultimately show ?thesis using py_float_repr_pos(2) [of "- q"] Fin by (simp add: float_repr_def)
  qed (use Fin assms py_float_repr_pos(1) in \<open>simp_all add: float_repr_def py_float_specials\<close>)
qed (simp_all add: float_repr_def py_float_specials)

end
