(* ===== verification/PyJson.thy ===== *)
theory PyJson
  imports Models PyRepr "HOL-Library.AList" "HOL-Library.List_Lexorder" "HOL-Library.Multiset"
begin

text \<open>
  Python's \<open>json\<close> module on the values of \<open>Models\<close>, as the monitoring scripts use it:
  \<open>json.dumps\<close> with its default separators, with \<open>sort_keys\<close> and with \<open>indent\<close>, and \<open>json.loads\<close>.

  Text is a list of characters below code point 256. The printer escapes everything outside the
  printable ASCII range, as \<open>ensure_ascii\<close> does. Python refuses to print an integer beyond its digit
  limit, which no document that was read holds (\<open>loads_wf\<close>). The reader accepts the grammar of CPython's scanner.
  Its \<open>stack\<close> argument is how many levels of lists and objects the interpreter's recursion limit
  leaves room for: a deeper document raises \<open>RecursionError\<close>. Its messages are those of the
  decoder without the position, which no caller reads. A \<open>\u\<close> escape beyond code point 255 has no
  value here: it is the exception \<open>beyond_text\<close>, which only marks the border of the model.

  The reader is written with fuel; \<open>scan_enough\<close> shows that twice the length of the text is
  never used up. \<open>loads_dumps\<close> is the round trip, \<open>loads_wf\<close> the type of what is read.
\<close>

subsection \<open>Printing\<close>

definition hex4 :: "nat \<Rightarrow> string" where
  "hex4 n = [hex_digit (n div 4096 mod 16), hex_digit (n div 256 mod 16), hex_digit (n div 16 mod 16), hex_digit (n mod 16)]"

definition escape_char :: "char \<Rightarrow> string" where
  "escape_char c =
     (let n = (of_char c :: nat); bs = char_of (92 :: nat)
      in if n = 34 \<or> n = 92 then [bs, c]
         else if n = 10 then [bs, CHR ''n'']
         else if n = 13 then [bs, CHR ''r'']
         else if n = 9 then [bs, CHR ''t'']
         else if n = 12 then [bs, CHR ''f'']
         else if n = 8 then [bs, CHR ''b'']
         else if 32 \<le> n \<and> n \<le> 126 then [c]
         else [bs, CHR ''u''] @ hex4 n)"

definition quote :: char where
  "quote = char_of (34 :: nat)"

definition dump_string :: "string \<Rightarrow> string" where
  "dump_string s = quote # concat (map escape_char s) @ [quote]"

definition dump_float :: "pyfloat \<Rightarrow> string" where
  "dump_float x =
     (case x of NaN \<Rightarrow> ''NaN'' | PosInf \<Rightarrow> ''Infinity'' | NegInf \<Rightarrow> ''-Infinity'' | _ \<Rightarrow> float_repr x)"

fun join :: "string \<Rightarrow> string list \<Rightarrow> string" where
  "join sep [] = []"
| "join sep [x] = x"
| "join sep (x # y # xs) = x @ sep @ join sep (y # xs)"

text \<open>The line break before an item at a level of nesting, with \<open>indent\<close>; nothing without it.\<close>

definition line_break :: "nat option \<Rightarrow> nat \<Rightarrow> string" where
  "line_break ind level =
     (case ind of None \<Rightarrow> [] | Some n \<Rightarrow> CHR 0x0A # replicate (n * level) (CHR '' ''))"

definition item_separator :: "nat option \<Rightarrow> nat \<Rightarrow> string" where
  "item_separator ind level = (case ind of None \<Rightarrow> '', '' | Some _ \<Rightarrow> '','' @ line_break ind level)"

fun dump :: "nat option \<Rightarrow> nat \<Rightarrow> json \<Rightarrow> string" where
  "dump ind level JNull = ''null''"
| "dump ind level (JBool b) = (if b then ''true'' else ''false'')"
| "dump ind level (JInt n) = show_int n"
| "dump ind level (JFloat x) = dump_float x"
| "dump ind level (JStr s) = dump_string s"
| "dump ind level (JList xs) =
     (if xs = [] then ''[]''
      else ''['' @ line_break ind (level + 1)
           @ join (item_separator ind (level + 1)) (map (dump ind (level + 1)) xs)
           @ line_break ind level @ '']'')"
| "dump ind level (JObj kvs) =
     (if kvs = [] then ''{}''
      else ''{'' @ line_break ind (level + 1)
           @ join (item_separator ind (level + 1))
               (map (\<lambda>(k, v). dump_string k @ '': '' @ dump ind (level + 1) v) kvs)
           @ line_break ind level @ ''}'')"

text \<open>\<open>sort_keys\<close>: the items of every object in the order of their keys.\<close>

fun sort_json :: "json \<Rightarrow> json" where
  "sort_json (JList xs) = JList (map sort_json xs)"
| "sort_json (JObj kvs) = JObj (sort_key fst (map (\<lambda>(k, v). (k, sort_json v)) kvs))"
| "sort_json j = j"

definition json_dumps :: "nat option \<Rightarrow> bool \<Rightarrow> json \<Rightarrow> string" where
  "json_dumps ind sort_keys j = dump ind 0 (if sort_keys then sort_json j else j)"

subsection \<open>Reading\<close>

definition decode_error :: "string \<Rightarrow> 'a outcome" where
  "decode_error m = Inl (JSONDecodeError m)"

definition is_ws :: "char \<Rightarrow> bool" where
  "is_ws c = ((of_char c :: nat) \<in> {32, 9, 10, 13})"

definition skip_ws :: "string \<Rightarrow> string" where
  "skip_ws s = dropWhile is_ws s"

definition hex_value :: "char \<Rightarrow> nat option" where
  "hex_value c =
     (let n = (of_char c :: nat)
      in if 48 \<le> n \<and> n \<le> 57 then Some (n - 48)
         else if 65 \<le> n \<and> n \<le> 70 then Some (n - 55)
         else if 97 \<le> n \<and> n \<le> 102 then Some (n - 87)
         else None)"

fun hex4_value :: "string \<Rightarrow> (nat \<times> string) option" where
  "hex4_value (a # b # c # d # s) =
     (case (hex_value a, hex_value b, hex_value c, hex_value d) of
        (Some i, Some j, Some k, Some l) \<Rightarrow> Some (4096 * i + 256 * j + 16 * k + l, s)
      | _ \<Rightarrow> None)"
| "hex4_value _ = None"

text \<open>The one-character escapes.\<close>

definition simple_escape :: "char \<Rightarrow> char option" where
  "simple_escape c =
     (let n = (of_char c :: nat)
      in if n = 34 \<or> n = 92 \<or> n = 47 then Some c
         else if c = CHR ''b'' then Some (char_of (8 :: nat))
         else if c = CHR ''f'' then Some (char_of (12 :: nat))
         else if c = CHR ''n'' then Some (char_of (10 :: nat))
         else if c = CHR ''r'' then Some (char_of (13 :: nat))
         else if c = CHR ''t'' then Some (char_of (9 :: nat))
         else None)"

definition beyond_text :: exn where
  "beyond_text = OtherException ''code point beyond the modelled text''"

text \<open>A string literal after its opening quote: the text and what follows the closing quote.\<close>

function scan_string :: "string \<Rightarrow> string \<Rightarrow> (string \<times> string) outcome" where
  "scan_string acc s =
     (case s of
        [] \<Rightarrow> decode_error ''Unterminated string starting at''
      | c # r \<Rightarrow>
          if c = quote then Inr (rev acc, r)
          else if (of_char c :: nat) = 92
            then (case r of
                    [] \<Rightarrow> decode_error ''Unterminated string starting at''
                  | d # r1 \<Rightarrow>
                      if d = CHR ''u''
                      then (case hex4_value r1 of
                              None \<Rightarrow> decode_error ''Invalid uXXXX escape''
                            | Some (n, _) \<Rightarrow>
                                if n < 256 then scan_string (char_of n # acc) (drop 4 r1) else Inl beyond_text)
                      else (case simple_escape d of
                              None \<Rightarrow> decode_error ''Invalid escape''
                            | Some x \<Rightarrow> scan_string (x # acc) r1))
          else if (of_char c :: nat) < 32 then decode_error ''Invalid control character at''
          else scan_string (c # acc) r)"
  by pat_completeness auto
termination
  by (relation "measure (\<lambda>(acc, s). length s)") auto

declare scan_string.simps [simp del]

text \<open>
  A number: the longest prefix of the text that matches the grammar. A fraction or an exponent
  makes it a float; a lone point, or an exponent without digits, is not part of it.
\<close>

definition split_int :: "string \<Rightarrow> (string \<times> string) option" where
  "split_int s =
     (case s of
        [] \<Rightarrow> None
      | c # r \<Rightarrow>
          if c = CHR ''0'' then Some (''0'', r)
          else if is_digit c then Some (takeWhile is_digit s, dropWhile is_digit s)
          else None)"

definition split_fraction :: "string \<Rightarrow> string \<times> string" where
  "split_fraction s =
     (if s \<noteq> [] \<and> hd s = CHR ''.'' \<and> takeWhile is_digit (tl s) \<noteq> []
      then (CHR ''.'' # takeWhile is_digit (tl s), dropWhile is_digit (tl s))
      else ([], s))"

definition split_exponent :: "string \<Rightarrow> string \<times> string" where
  "split_exponent s =
     (case s of
        [] \<Rightarrow> ([], s)
      | c # r \<Rightarrow>
          if c = CHR ''e'' \<or> c = CHR ''E''
          then (let sign = (case r of d # _ \<Rightarrow> if d = CHR ''+'' \<or> d = CHR ''-'' then [d] else [] | [] \<Rightarrow> []);
                    ds = drop (length sign) r
                in if takeWhile is_digit ds = [] then ([], s)
                   else (c # sign @ takeWhile is_digit ds, dropWhile is_digit ds))
          else ([], s))"

definition scan_number :: "string \<Rightarrow> (json \<times> string) outcome" where
  "scan_number s =
     (let neg = (s \<noteq> [] \<and> hd s = CHR ''-''); sign = (if neg then ''-'' else [])
      in case split_int (if neg then tl s else s) of
           None \<Rightarrow> decode_error ''Expecting value''
         | Some (ip, r) \<Rightarrow>
             (let (fp, r1) = split_fraction r; (ep, r2) = split_exponent r1; text = sign @ ip @ fp @ ep
              in map_outcome (\<lambda>j. (j, r2))
                   (if fp = [] \<and> ep = [] then map_outcome JInt (py_int text)
                    else map_outcome JFloat (py_float text))))"

text \<open>The constants and the numbers.\<close>

definition scan_scalar :: "string \<Rightarrow> (json \<times> string) outcome" where
  "scan_scalar s =
     (if starts_with ''null'' s then Inr (JNull, drop 4 s)
      else if starts_with ''true'' s then Inr (JBool True, drop 4 s)
      else if starts_with ''false'' s then Inr (JBool False, drop 5 s)
      else if starts_with ''NaN'' s then Inr (JFloat NaN, drop 3 s)
      else if starts_with ''Infinity'' s then Inr (JFloat PosInf, drop 8 s)
      else if starts_with ''-Infinity'' s then Inr (JFloat NegInf, drop 9 s)
      else scan_number s)"

definition recursion_error :: exn where
  "recursion_error = OtherException ''RecursionError''"

definition out_of_fuel :: exn where
  "out_of_fuel = OtherException ''out of fuel''"

text \<open>
  A value; the items of a list after the opening bracket or a comma; the members of an object
  likewise. Blanks before a value are skipped by the caller, as in the source. An object is a
  dictionary: of equal keys the last value counts.
\<close>

function (sequential) scan_value :: "nat \<Rightarrow> nat \<Rightarrow> string \<Rightarrow> (json \<times> string) outcome"
  and scan_items :: "nat \<Rightarrow> nat \<Rightarrow> json list \<Rightarrow> string \<Rightarrow> (json \<times> string) outcome"
  and scan_members :: "nat \<Rightarrow> nat \<Rightarrow> (string \<times> json) list \<Rightarrow> string \<Rightarrow> (json \<times> string) outcome" where
  "scan_value 0 stack s = Inl out_of_fuel"
| "scan_value (Suc n) stack s =
     (case s of
        [] \<Rightarrow> decode_error ''Expecting value''
      | c # r \<Rightarrow>
          if c = quote then map_outcome (\<lambda>(t, r'). (JStr t, r')) (scan_string [] r)
          else if c = CHR ''['' \<or> c = CHR ''{''
            then (if stack = 0 then Inl recursion_error
                  else let r' = skip_ws r
                       in if c = CHR ''[''
                          then (if r' \<noteq> [] \<and> hd r' = CHR '']'' then Inr (JList [], tl r')
                                else scan_items n (stack - 1) [] r')
                          else (if r' \<noteq> [] \<and> hd r' = CHR ''}'' then Inr (JObj [], tl r')
                                else scan_members n (stack - 1) [] r'))
          else scan_scalar s)"
| "scan_items 0 stack acc s = Inl out_of_fuel"
| "scan_items (Suc n) stack acc s =
     and_then (scan_value n stack s)
       (\<lambda>(v, r). case skip_ws r of
          [] \<Rightarrow> decode_error ''Expecting , delimiter''
        | d # r' \<Rightarrow>
            if d = CHR '']'' then Inr (JList (acc @ [v]), r')
            else if d = CHR '','' then scan_items n stack (acc @ [v]) (skip_ws r')
            else decode_error ''Expecting , delimiter'')"
| "scan_members 0 stack acc s = Inl out_of_fuel"
| "scan_members (Suc n) stack acc s =
     (case s of
        [] \<Rightarrow> decode_error ''Expecting property name enclosed in double quotes''
      | c # r \<Rightarrow>
          if c \<noteq> quote then decode_error ''Expecting property name enclosed in double quotes''
          else and_then (scan_string [] r)
            (\<lambda>(k, r1). case skip_ws r1 of
               [] \<Rightarrow> decode_error ''Expecting : delimiter''
             | d # r2 \<Rightarrow>
                 if d \<noteq> CHR '':'' then decode_error ''Expecting : delimiter''
                 else and_then (scan_value n stack (skip_ws r2))
                   (\<lambda>(v, r3). case skip_ws r3 of
                      [] \<Rightarrow> decode_error ''Expecting , delimiter''
                    | x # r4 \<Rightarrow>
                        if x = CHR ''}'' then Inr (JObj (AList.update k v acc), r4)
                        else if x = CHR '','' then scan_members n stack (AList.update k v acc) (skip_ws r4)
                        else decode_error ''Expecting , delimiter'')))"
  by pat_completeness auto
termination
  by (relation "measure (\<lambda>x. case x of Inl (n, _) \<Rightarrow> n | Inr (Inl (n, _)) \<Rightarrow> n | Inr (Inr (n, _)) \<Rightarrow> n)") auto

text \<open>Twice the length of the text, and one, is enough fuel.\<close>

definition json_loads :: "nat \<Rightarrow> string \<Rightarrow> json outcome" where
  "json_loads stack s =
     and_then (scan_value (2 * length s + 1) stack (skip_ws s))
       (\<lambda>(j, r). if skip_ws r = [] then Inr j else decode_error ''Extra data'')"

subsection \<open>Values that can be printed and read\<close>

text \<open>
  A well-formed value: integers within the digit limit, floats that are doubles, objects with
  distinct keys. \<open>fits\<close> bounds its nesting.
\<close>

fun wf_json :: "json \<Rightarrow> bool" where
  "wf_json (JInt n) = (\<bar>n\<bar> < 10 ^ max_str_digits)"
| "wf_json (JFloat x) = wf_float x"
| "wf_json (JList xs) = (\<forall>x\<in>set xs. wf_json x)"
| "wf_json (JObj kvs) = (distinct (map fst kvs) \<and> (\<forall>(k, v)\<in>set kvs. wf_json v))"
| "wf_json _ = True"

fun fits :: "nat \<Rightarrow> json \<Rightarrow> bool" where
  "fits stack (JList xs) = (0 < stack \<and> (\<forall>x\<in>set xs. fits (stack - 1) x))"
| "fits stack (JObj kvs) = (0 < stack \<and> (\<forall>(k, v)\<in>set kvs. fits (stack - 1) v))"
| "fits stack _ = True"

subsection \<open>Strings round trip\<close>

lemma hex_value_digit: "k < 16 \<Longrightarrow> hex_value (hex_digit k) = Some k"
  by (auto simp: hex_value_def hex_digit_def of_char_digit_char Let_def)

lemma hex4_value_hex4: "n < 256 \<Longrightarrow> hex4_value (hex4 n @ s) = Some (n, s)"
proof -
  assume "n < 256"
  then have "n div 4096 = 0" "n div 256 = 0" "n div 16 < 16" by auto
  then show ?thesis by (simp add: hex4_def hex_value_digit)
qed

lemma length_hex4 [simp]: "length (hex4 n) = 4"
  by (simp add: hex4_def)

lemma char_eqI: "(of_char c :: nat) = n \<Longrightarrow> c = char_of n"
  by auto

lemma scan_string_escape: "scan_string acc (escape_char c @ r) = scan_string (c # acc) r"
proof -
  let ?n = "of_char c :: nat"
  have bs: "(char_of (92 :: nat) :: char) \<noteq> quote" by (simp add: quote_def)
  have q: "c = quote \<longleftrightarrow> ?n = 34" by (auto simp: quote_def dest: char_eqI)
  consider "?n = 34 \<or> ?n = 92" | "?n = 10" | "?n = 13" | "?n = 9" | "?n = 12" | "?n = 8"
    | "32 \<le> ?n" "?n \<le> 126" "?n \<noteq> 34" "?n \<noteq> 92"
    | "?n < 32 \<or> 126 < ?n" "?n \<notin> {8, 9, 10, 12, 13}" by fastforce
  then show ?thesis
  proof cases
    case 1
    then have "c \<noteq> CHR ''u''" by auto
    with 1 bs show ?thesis
      by (auto simp: escape_char_def Let_def scan_string.simps [of acc "_ # _"] simple_escape_def)
  next
    case 8
    have n: "?n < 256" by simp
    from 8 have "escape_char c = [char_of (92 :: nat), CHR ''u''] @ hex4 ?n"
      by (auto simp: escape_char_def Let_def)
    with bs n hex4_value_hex4 [OF n, of r] show ?thesis
      by (simp add: scan_string.simps [of acc "_ # _"])
  qed (use bs q in \<open>auto simp: escape_char_def Let_def scan_string.simps [of acc "_ # _"] simple_escape_def dest: char_eqI\<close>)
qed

lemma scan_string_dump: "scan_string acc (concat (map escape_char s) @ quote # r) = Inr (rev acc @ s, r)"
proof (induction s arbitrary: acc)
  case Nil
  then show ?case by (simp add: scan_string.simps)
qed (simp add: scan_string_escape)


subsection \<open>Numbers round trip\<close>

text \<open>What may follow a value in a document.\<close>

definition stops :: "string \<Rightarrow> bool" where
  "stops r = (r = [] \<or> hd r \<in> {CHR '','', CHR '']'', CHR ''}'', CHR 0x0A})"

lemma stops_not_number: "stops r \<Longrightarrow> r = [] \<or> \<not> is_digit (hd r) \<and> hd r \<noteq> CHR ''.'' \<and> hd r \<noteq> CHR ''e'' \<and> hd r \<noteq> CHR ''E''"
  by (auto simp: stops_def is_digit_iff)

definition int_part :: "string \<Rightarrow> bool" where
  "int_part ip = (ip = ''0'' \<or> ip \<noteq> [] \<and> list_all is_digit ip \<and> hd ip \<noteq> CHR ''0'')"

definition fraction :: "string \<Rightarrow> bool" where
  "fraction fp = (fp = [] \<or> (\<exists>ds. fp = CHR ''.'' # ds \<and> ds \<noteq> [] \<and> list_all is_digit ds))"

definition exponent :: "string \<Rightarrow> bool" where
  "exponent ep = (ep = [] \<or> (\<exists>x ds. ep = CHR ''e'' # x # ds \<and> x \<in> {CHR ''+'', CHR ''-''} \<and> ds \<noteq> [] \<and> list_all is_digit ds))"

lemma takeWhile_all_digits: "list_all is_digit ds \<Longrightarrow> takeWhile is_digit ds = ds \<and> dropWhile is_digit ds = []"
  by (simp add: list_all_iff)

lemma split_int_part:
  assumes "int_part ip" and "r = [] \<or> \<not> is_digit (hd r)"
  shows "split_int (ip @ r) = Some (ip, r)"
proof (cases "ip = ''0''")
  case False
  with assms(1) obtain d ds where c: "ip = d # ds" "is_digit d" "d \<noteq> CHR ''0''" "list_all is_digit ip"
    by (cases ip) (auto simp: int_part_def)
  with takeWhile_digits [OF c(4) assms(2)] show ?thesis by (simp add: split_int_def)
qed (simp add: split_int_def)

lemma split_fraction_part:
  assumes "fraction fp" and "r = [] \<or> \<not> is_digit (hd r) \<and> hd r \<noteq> CHR ''.''"
  shows "split_fraction (fp @ r) = (fp, r)"
proof (cases fp)
  case Nil
  then show ?thesis using assms(2) by (auto simp: split_fraction_def)
next
  case (Cons d ds)
  with assms(1) have ds: "d = CHR ''.''" "ds \<noteq> []" "list_all is_digit ds" by (auto simp: fraction_def)
  from takeWhile_digits [OF ds(3), of r] takeWhile_all_digits [OF ds(3)] assms(2) ds Cons show ?thesis by (auto simp: split_fraction_def)
qed

lemma split_exponent_part:
  assumes "exponent ep" and "r = [] \<or> \<not> is_digit (hd r) \<and> hd r \<noteq> CHR ''e'' \<and> hd r \<noteq> CHR ''E''"
  shows "split_exponent (ep @ r) = (ep, r)"
proof (cases "ep = []")
  case True
  then show ?thesis using assms(2) by (auto simp: split_exponent_def split: list.splits)
next
  case False
  with assms(1) obtain x ds where ep: "ep = CHR ''e'' # x # ds" "x = CHR ''+'' \<or> x = CHR ''-''" "ds \<noteq> []" "list_all is_digit ds"
    by (auto simp: exponent_def)
  from takeWhile_digits [OF ep(4), of r] takeWhile_all_digits [OF ep(4)] assms(2) ep show ?thesis by (auto simp: split_exponent_def)
qed

lemma scan_number_parts:
  assumes "int_part ip" and "fraction fp" and "exponent ep" and "stops r" and "sign = [] \<or> sign = ''-''"
  shows "scan_number (sign @ ip @ fp @ ep @ r) = map_outcome (\<lambda>j. (j, r))
    (if fp = [] \<and> ep = [] then map_outcome JInt (py_int (sign @ ip))
     else map_outcome JFloat (py_float (sign @ ip @ fp @ ep)))"
proof -
  note r = stops_not_number [OF assms(4)]
  have e: "ep @ r = [] \<or> \<not> is_digit (hd (ep @ r)) \<and> hd (ep @ r) \<noteq> CHR ''.''"
    using assms(3) r by (auto simp: exponent_def is_digit_iff)
  then have f: "fp @ ep @ r = [] \<or> \<not> is_digit (hd (fp @ ep @ r))"
    using assms(2) by (auto simp: fraction_def is_digit_iff)
  have "hd ip \<noteq> CHR ''-''" "ip \<noteq> []" using assms(1) by (auto simp: int_part_def is_digit_iff neq_Nil_conv)
  then have h: "(sign @ ip @ fp @ ep @ r \<noteq> [] \<and> hd (sign @ ip @ fp @ ep @ r) = CHR ''-'') = (sign = ''-'')"
    using assms(5) by auto
  have "(if sign = ''-'' then tl (sign @ ip @ fp @ ep @ r) else sign @ ip @ fp @ ep @ r) = ip @ fp @ ep @ r"
    "(if sign = ''-'' then ''-'' else []) = sign" using assms(5) by auto
  then show ?thesis
    using split_int_part [OF assms(1) f] split_fraction_part [OF assms(2) e] split_exponent_part [OF assms(3), of r] r
    unfolding scan_number_def h by (auto simp: Let_def)
qed

lemma scan_scalar_number:
  assumes "int_part ip" and "sign = [] \<or> sign = ''-''"
  shows "scan_scalar (sign @ ip @ s) = scan_number (sign @ ip @ s)"
proof -
  obtain d ds where ip: "ip = d # ds" "is_digit d" using assms(1) by (cases ip) (auto simp: int_part_def is_digit_iff)
  then have "CHR ''n'' \<noteq> d" "CHR ''t'' \<noteq> d" "CHR ''f'' \<noteq> d" "CHR ''N'' \<noteq> d" "CHR ''I'' \<noteq> d" "CHR ''-'' \<noteq> d"
    by (auto simp: is_digit_iff)
  with ip(1) show ?thesis using assms(2) by (elim disjE) (simp_all add: scan_scalar_def)
qed

lemma int_part_show_digits: "0 \<le> n \<Longrightarrow> int_part (show_digits n)"
proof (induction n rule: show_digits.induct)
  case (1 n)
  show ?case
  proof (cases "n < 10")
    case True
    with "1.prems" show ?thesis by (simp add: show_digits.simps [of n] int_part_def)
  next
    case False
    with "1.prems" have ip: "int_part (show_digits (n div 10))" and "n div 10 \<noteq> 0" by (auto intro: "1.IH")
    moreover have "0 \<le> n div 10" using "1.prems" by simp
    ultimately have "show_digits (n div 10) \<noteq> ''0''"
      using digits_value_show_digits [of "n div 10"] by (auto simp: digit_value_zero)
    with ip False show ?thesis by (simp add: show_digits.simps [of n] int_part_def)
  qed
qed

lemma scan_int:
  assumes "\<bar>n\<bar> < 10 ^ max_str_digits" and "stops r"
  shows "scan_scalar (show_int n @ r) = Inr (JInt n, r)"
proof -
  have ip: "int_part (show_digits \<bar>n\<bar>)" by (rule int_part_show_digits) simp
  have parts: "fraction []" "exponent []" by (simp_all add: fraction_def exponent_def)
  note number = scan_number_parts [OF ip parts assms(2)] and scalar = scan_scalar_number [OF ip, where s = r]
    and printed = py_int_show_int [OF assms(1)]
  show ?thesis
  proof (cases "n < 0")
    case True
    with number [of "''-''"] scalar [of "''-''"] printed show ?thesis by (simp add: show_int_def)
  next
    case False
    with number [of "[]"] scalar [of "[]"] printed show ?thesis by (simp add: show_int_def)
  qed
qed


text \<open>The notation of a positive double has the parts of a JSON number, one of them a fraction or an exponent.\<close>

lemma place_point_parts:
  assumes ds: "list_all is_digit ds" "ds \<noteq> []" "hd ds \<noteq> CHR ''0''"
  obtains ip fp ep where "place_point ds pt = ip @ fp @ ep" and "int_part ip" and "fraction fp" and "exponent ep"
    and "fp \<noteq> [] \<or> ep \<noteq> []"
proof -
  have parts: "list_all is_digit (take k ds)" "list_all is_digit (drop k ds)" for k
    using ds(1) by (auto simp: list_all_iff dest: in_set_takeD in_set_dropD)
  have ip: "int_part (take k ds)" if "0 < k" for k
  proof -
    from ds that have "hd (take k ds) \<noteq> CHR ''0''" "take k ds \<noteq> []" by (cases ds; cases k; auto)+
    then show ?thesis using parts by (simp add: int_part_def)
  qed
  have z: "is_digit (CHR ''0'')" by (simp add: is_digit_iff)
  have ep: "exponent (CHR ''e'' # show_exponent x)" for x
    using z by (auto simp: exponent_def show_exponent_def)
  consider "pt \<le> - 4 \<or> 16 < pt" "length ds = 1" | "pt \<le> - 4 \<or> 16 < pt" "length ds \<noteq> 1"
    | "- 4 < pt" "pt \<le> 0" | "0 < pt" "pt \<le> 16" "int (length ds) \<le> pt" | "0 < pt" "pt \<le> 16" "pt < int (length ds)"
    by linarith
  then show thesis
  proof cases
    case 1
    then show thesis using ip [of 1] ep
      by (intro that [of "take 1 ds" "[]" "CHR ''e'' # show_exponent (pt - 1)"]) (auto simp: place_point_def fraction_def)
  next
    case 2
    then have "1 < length ds" using ds(2) by (cases ds) auto
    with 2 show thesis using ip [of 1] ep parts(2) [of 1]
      by (intro that [of "take 1 ds" "''.'' @ drop 1 ds" "CHR ''e'' # show_exponent (pt - 1)"])
         (auto simp: place_point_def fraction_def)
  next
    case 3
    then show thesis using ds(1,2)
      by (intro that [of "''0''" "''.'' @ zeros (- pt) @ ds" "[]"]) (auto simp: place_point_def fraction_def int_part_def exponent_def)
  next
    case 4
    then show thesis using ds z
      by (intro that [of "ds @ zeros (pt - int (length ds))" "''.0''" "[]"])
         (auto simp: place_point_def fraction_def int_part_def exponent_def)
  next
    case 5
    then have "drop (nat pt) ds \<noteq> []" by simp
    with 5 show thesis using ip [of "nat pt"] parts(2) [of "nat pt"]
      by (intro that [of "take (nat pt) ds" "''.'' @ drop (nat pt) ds" "[]"])
         (auto simp: place_point_def fraction_def exponent_def)
  qed
qed

lemma repr_pos_number:
  assumes "0 < q" and "wf_float (Fin q)"
  obtains ip fp ep where "repr_pos q = ip @ fp @ ep" and "int_part ip" and "fraction fp" and "exponent ep"
    and "fp \<noteq> [] \<or> ep \<noteq> []"
proof -
  obtain c e where ce: "strip_zeros 17 (shortest q) = (c, e)" by fastforce
  then have c: "0 < c" using strip_zeros_pos [OF shortest_pos [OF assms], of 17] by simp
  have "hd (show_digits c) \<noteq> CHR ''0''"
    using int_part_show_digits [of c] digits_value_show_digits [of c] c
    by (auto simp: int_part_def digit_value_zero)
  from place_point_parts [OF is_digit_show_digits show_digits_nonempty this] obtain ip fp ep
    where "place_point (show_digits c) (int (length (show_digits c)) + e) = ip @ fp @ ep"
      "int_part ip" "fraction fp" "exponent ep" "fp \<noteq> [] \<or> ep \<noteq> []" .
  then show thesis by (intro that [of ip fp ep]) (simp_all add: repr_pos_def ce Let_def)
qed

lemma scan_float:
  assumes "wf_float x" and "stops r"
  shows "scan_scalar (dump_float x @ r) = Inr (JFloat x, r)"
proof -
  have pos: "scan_scalar (sign @ repr_pos q @ r) = map_outcome (\<lambda>j. (j, r)) (map_outcome JFloat (py_float (sign @ repr_pos q)))"
    if "0 < q" "wf_float (Fin q)" and sign: "sign = [] \<or> sign = ''-''" for q sign
  proof -
    from repr_pos_number [OF that(1,2)] obtain ip fp ep where p: "repr_pos q = ip @ fp @ ep"
      "int_part ip" "fraction fp" "exponent ep" "fp \<noteq> [] \<or> ep \<noteq> []" .
    with scan_number_parts [OF p(2-4) assms(2) sign] scan_scalar_number [OF p(2) sign, of "fp @ ep @ r"]
    show ?thesis by auto
  qed
  have zero: "scan_scalar (sign @ ''0.0'' @ r) = map_outcome (\<lambda>j. (j, r)) (map_outcome JFloat (py_float (sign @ ''0.0'')))"
    if sign: "sign = [] \<or> sign = ''-''" for sign
  proof -
    have p: "int_part ''0''" "fraction ''.0''" "exponent []" by (auto simp: int_part_def fraction_def exponent_def is_digit_iff)
    from scan_number_parts [OF p assms(2) sign] scan_scalar_number [OF p(1) sign, of "''.0'' @ r"]
    show ?thesis by simp
  qed
  show ?thesis
  proof (cases x)
    case (Fin q)
    consider "q = 0" | "0 < q" | "q < 0" by linarith
    then show ?thesis
    proof cases
      case 1
      with zero [of "[]"] Fin show ?thesis by (simp add: dump_float_def float_repr_def py_float_specials)
    next
      case 2
      with pos [of q "[]"] py_float_repr_pos(1) [of q] assms(1) Fin show ?thesis
        by (simp add: dump_float_def float_repr_def)
    next
      case 3
      have "wf_float (Fin (- q))" using assms(1) Fin wf_float_Fin_iff by simp
      with 3 pos [of "- q" "''-''"] py_float_repr_pos(2) [of "- q"] Fin show ?thesis
        by (simp add: dump_float_def float_repr_def)
    qed
  qed (use zero [of "''-''"] in \<open>simp_all add: dump_float_def float_repr_def py_float_specials scan_scalar_def\<close>)
qed


subsection \<open>Documents round trip\<close>

text \<open>The first character of a printed value: no blank, no closing bracket.\<close>

definition opens :: "string \<Rightarrow> bool" where
  "opens s = (s \<noteq> [] \<and> \<not> is_ws (hd s) \<and> hd s \<noteq> CHR '']'' \<and> hd s \<noteq> CHR ''}'')"

lemma opens_append [simp]: "opens s \<Longrightarrow> opens (s @ r)"
  by (simp add: opens_def)

lemma opens_digit: "s \<noteq> [] \<Longrightarrow> is_digit (hd s) \<Longrightarrow> opens s"
  by (auto simp: opens_def is_digit_iff is_ws_def)

lemma quote_code: "quote = CHR 0x22"
  unfolding quote_def by code_simp

lemma opens_char: "c \<in> {quote, CHR ''['', CHR ''{'', CHR ''-'', CHR ''n'', CHR ''t'', CHR ''f'', CHR ''N'', CHR ''I''} \<Longrightarrow> opens (c # s)"
  by (auto simp: opens_def is_ws_def quote_code)

lemma opens_repr:
  assumes "wf_float x"
  shows "opens (dump_float x)"
proof -
  have pos: "opens (repr_pos q)" if "0 < q" "wf_float (Fin q)" for q
  proof -
    from repr_pos_number [OF that] obtain ip fp ep where "repr_pos q = ip @ fp @ ep" "int_part ip" .
    then show ?thesis by (auto simp: int_part_def is_digit_iff neq_Nil_conv intro!: opens_digit)
  qed
  show ?thesis
  proof (cases x)
    case (Fin q)
    consider "q = 0" | "0 < q" | "q < 0" by linarith
    then show ?thesis
      using pos [of q] assms Fin opens_digit [of "''0.0''"]
      by cases (simp_all add: dump_float_def float_repr_def is_digit_iff opens_char)
  qed (simp_all add: dump_float_def float_repr_def opens_char)
qed

lemma opens_dump: "wf_json j \<Longrightarrow> opens (dump ind level j)"
proof (cases j)
  case (JInt n)
  have "opens (show_digits n)" using show_digits_digits [of n] by (intro opens_digit) simp_all
  then show ?thesis using JInt by (simp add: show_int_def opens_char)
qed (simp_all add: dump_string_def opens_repr opens_char)

lemma skip_ws_opens [simp]: "opens s \<Longrightarrow> skip_ws s = s"
  by (cases s) (simp_all add: opens_def skip_ws_def)

lemma skip_ws_line_break [simp]: "skip_ws (line_break ind level @ s) = skip_ws s"
proof -
  have "dropWhile is_ws (replicate n (CHR '' '') @ s) = dropWhile is_ws s" for n
    by (induction n) (auto simp: is_ws_def)
  moreover have "is_ws (CHR 0x0A)" by (simp add: is_ws_def)
  ultimately show ?thesis by (simp add: skip_ws_def line_break_def split: option.splits)
qed

lemma skip_ws_closing [simp]:
  "skip_ws (CHR '']'' # s) = CHR '']'' # s" "skip_ws (CHR ''}'' # s) = CHR ''}'' # s"
  "skip_ws (CHR '','' # s) = CHR '','' # s" "skip_ws (CHR '':'' # s) = CHR '':'' # s"
  "skip_ws (CHR '' '' # s) = skip_ws s"
  by (simp_all add: skip_ws_def is_ws_def)

lemma stops_line_break: "c \<in> {CHR '']'', CHR ''}''} \<Longrightarrow> stops (line_break ind level @ c # s)"
  by (auto simp: stops_def line_break_def split: option.splits)

lemma item_separator_parts:
  "\<exists>w. item_separator ind level = CHR '','' # w \<and> (\<forall>s. skip_ws (w @ s) = skip_ws s)"
proof (cases ind)
  case None
  then show ?thesis by (intro exI [of _ "'' ''"]) (simp add: item_separator_def)
next
  case (Some n)
  then show ?thesis by (intro exI [of _ "line_break ind level"]) (simp add: item_separator_def)
qed

lemma scan_value_scalar:
  assumes "scan_scalar s = Inr (j, r)" and "opens s" and "hd s \<notin> {quote, CHR ''['', CHR ''{''}" and "0 < n"
  shows "scan_value n stack s = Inr (j, r)"
proof -
  obtain m where "n = Suc m" using assms(4) by (cases n) auto
  moreover obtain c t where "s = c # t" using assms(2) by (cases s) (auto simp: opens_def)
  ultimately show ?thesis using assms by simp
qed

text \<open>What the induction over a document gives for a value in it.\<close>

definition reads :: "nat option \<Rightarrow> nat \<Rightarrow> nat \<Rightarrow> json \<Rightarrow> bool" where
  "reads ind level stack j =
     (\<forall>n r. stops r \<longrightarrow> 2 * length (dump ind level j @ r) + 1 \<le> n \<longrightarrow>
        scan_value n stack (dump ind level j @ r) = Inr (j, r))"

lemma readsD:
  "reads ind level stack j \<Longrightarrow> stops r \<Longrightarrow> 2 * length (dump ind level j @ r) + 1 \<le> n \<Longrightarrow>
   scan_value n stack (dump ind level j @ r) = Inr (j, r)"
  by (simp add: reads_def)

lemma scan_items_dump:
  assumes "xs \<noteq> []" and "\<forall>x\<in>set xs. wf_json x \<and> reads ind level stack x"
    and "2 * length (join (item_separator ind level) (map (dump ind level) xs) @ line_break ind l @ CHR '']'' # r) + 2 \<le> n"
  shows "scan_items n stack acc (join (item_separator ind level) (map (dump ind level) xs) @ line_break ind l @ CHR '']'' # r)
    = Inr (JList (acc @ xs), r)"
  using assms
proof (induction xs arbitrary: acc n)
  case (Cons x xs)
  obtain m where n: "n = Suc m" using Cons.prems(3) by (cases n) auto
  show ?case
  proof (cases xs)
    case Nil
    have "scan_value m stack (dump ind level x @ line_break ind l @ CHR '']'' # r) = Inr (x, line_break ind l @ CHR '']'' # r)"
      using Cons.prems Nil n by (intro readsD) (auto intro: stops_line_break)
    with Nil n show ?thesis by simp
  next
    case (Cons y ys)
    obtain w where w: "item_separator ind level = CHR '','' # w" "\<forall>s. skip_ws (w @ s) = skip_ws s"
      using item_separator_parts [of ind level] by blast
    let ?rest = "join (item_separator ind level) (map (dump ind level) xs) @ line_break ind l @ CHR '']'' # r"
    have split: "join (item_separator ind level) (map (dump ind level) (x # xs)) @ line_break ind l @ CHR '']'' # r
        = dump ind level x @ CHR '','' # w @ ?rest" using Cons w by simp
    have "scan_value m stack (dump ind level x @ CHR '','' # w @ ?rest) = Inr (x, CHR '','' # w @ ?rest)"
      using Cons.prems(2,3) n unfolding split by (intro readsD) (auto simp: stops_def)
    moreover have "opens ?rest"
      using Cons.prems(2) Cons opens_dump [of y ind level] by (cases ys) simp_all
    moreover have "scan_items m stack (acc @ [x]) ?rest = Inr (JList ((acc @ [x]) @ xs), r)"
      using Cons.prems(2,3) n Cons unfolding split by (intro Cons.IH) auto
    ultimately show ?thesis unfolding split n by (simp add: w)
  qed
qed simp


definition dump_member :: "nat option \<Rightarrow> nat \<Rightarrow> string \<times> json \<Rightarrow> string" where
  "dump_member ind level p = dump_string (fst p) @ '': '' @ dump ind level (snd p)"

lemma dump_JObj:
  "dump ind level (JObj kvs) =
     (if kvs = [] then ''{}''
      else ''{'' @ line_break ind (level + 1)
           @ join (item_separator ind (level + 1)) (map (dump_member ind (level + 1)) kvs)
           @ line_break ind level @ ''}'')"
  by (simp add: dump_member_def [abs_def] case_prod_beta')

lemma opens_member [simp]: "opens (dump_member ind level p)"
  by (simp add: dump_member_def dump_string_def opens_char)

lemma update_fresh: "k \<notin> set (map fst acc) \<Longrightarrow> AList.update k v acc = acc @ [(k, v)]"
  by (induction acc) auto

lemma scan_member:
  assumes "wf_json v" and "reads ind level stack v" and "stops s" and "k \<notin> set (map fst acc)"
    and "2 * length (dump_member ind level (k, v) @ s) \<le> n" and "skip_ws s = d # t"
  shows "scan_members (Suc n) stack acc (dump_member ind level (k, v) @ s) =
    (if d = CHR ''}'' then Inr (JObj (acc @ [(k, v)]), t)
     else if d = CHR '','' then scan_members n stack (acc @ [(k, v)]) (skip_ws t)
     else decode_error ''Expecting , delimiter'')"
proof -
  have "scan_value n stack (dump ind level v @ s) = Inr (v, s)"
    using assms(2,3,5) by (intro readsD) (auto simp: dump_member_def)
  moreover have "opens (dump ind level v @ s)" by (simp add: opens_dump assms(1))
  moreover have "dump_member ind level (k, v) @ s
      = quote # concat (map escape_char k) @ quote # '': '' @ dump ind level v @ s"
    by (simp add: dump_member_def dump_string_def)
  ultimately show ?thesis
    using assms(4,6) by (simp add: scan_string_dump update_fresh)
qed

lemma scan_members_dump:
  assumes "kvs \<noteq> []" and "\<forall>(k, v)\<in>set kvs. wf_json v \<and> reads ind level stack v"
    and "distinct (map fst (acc @ kvs))"
    and "2 * length (join (item_separator ind level) (map (dump_member ind level) kvs) @ line_break ind l @ CHR ''}'' # r) + 2 \<le> n"
  shows "scan_members n stack acc
      (join (item_separator ind level) (map (dump_member ind level) kvs) @ line_break ind l @ CHR ''}'' # r)
    = Inr (JObj (acc @ kvs), r)"
  using assms
proof (induction kvs arbitrary: acc n)
  case (Cons p kvs)
  obtain k v where p: "p = (k, v)" by fastforce
  obtain m where n: "n = Suc m" using Cons.prems(4) by (cases n) auto
  have v: "wf_json v" "reads ind level stack v" "k \<notin> set (map fst acc)" using Cons.prems(2,3) p by auto
  show ?case
  proof (cases kvs)
    case Nil
    have "scan_members (Suc m) stack acc (dump_member ind level (k, v) @ line_break ind l @ CHR ''}'' # r)
        = Inr (JObj (acc @ [(k, v)]), r)"
      using Cons.prems(4) Nil n p by (subst scan_member [OF v(1,2) _ v(3)]) (auto intro: stops_line_break)
    with Nil n p show ?thesis by simp
  next
    case (Cons q qs)
    obtain w where w: "item_separator ind level = CHR '','' # w" "\<forall>s. skip_ws (w @ s) = skip_ws s"
      using item_separator_parts [of ind level] by blast
    let ?rest = "join (item_separator ind level) (map (dump_member ind level) kvs) @ line_break ind l @ CHR ''}'' # r"
    have split: "join (item_separator ind level) (map (dump_member ind level) (p # kvs)) @ line_break ind l @ CHR ''}'' # r
        = dump_member ind level (k, v) @ CHR '','' # w @ ?rest" using Cons w p by simp
    have "opens ?rest" using Cons by (cases qs) simp_all
    moreover have "scan_members (Suc m) stack acc (dump_member ind level (k, v) @ CHR '','' # w @ ?rest)
        = scan_members m stack (acc @ [(k, v)]) (skip_ws (w @ ?rest))"
      using Cons.prems(4) n unfolding split
      by (subst scan_member [OF v(1,2) _ v(3), where d = "CHR '',''"]) (auto simp: stops_def)
    moreover have "scan_members m stack (acc @ [(k, v)]) ?rest = Inr (JObj ((acc @ [(k, v)]) @ kvs), r)"
      using Cons.prems(2-4) n Cons p unfolding split by (intro Cons.IH) auto
    ultimately show ?thesis unfolding split n by (simp add: w p)
  qed
qed simp

lemma reads_scalar:
  assumes "\<And>r. stops r \<Longrightarrow> scan_scalar (dump ind level j @ r) = Inr (j, r)"
    and "opens (dump ind level j)" and "hd (dump ind level j) \<notin> {quote, CHR ''['', CHR ''{''}"
  shows "reads ind level stack j"
  unfolding reads_def using assms by (intro allI impI scan_value_scalar) (simp_all add: opens_def)

lemma hd_digit: "is_digit c \<Longrightarrow> c \<notin> {quote, CHR ''['', CHR ''{''}"
  by (auto simp: quote_code is_digit_iff)

lemma hd_show_int: "hd (show_int n) \<notin> {quote, CHR ''['', CHR ''{''}"
  using show_digits_digits [of n] hd_digit [of "hd (show_digits n)"] by (simp add: show_int_def quote_code)

lemma hd_dump_float:
  assumes "wf_float x"
  shows "hd (dump_float x) \<notin> {quote, CHR ''['', CHR ''{''}"
proof (cases x)
  case (Fin q)
  have pos: "hd (repr_pos p) \<notin> {quote, CHR ''['', CHR ''{''}" if "0 < p" "wf_float (Fin p)" for p
    using repr_pos_parts [OF that] place_point_shape(2) hd_digit by metis
  consider "q = 0" | "0 < q" | "q < 0" by linarith
  then show ?thesis using pos [of q] assms Fin
    by cases (simp_all add: dump_float_def float_repr_def quote_code)
qed (simp_all add: dump_float_def float_repr_def quote_code)

lemma scan_dump: "wf_json j \<Longrightarrow> fits stack j \<Longrightarrow> reads ind level stack j"
proof (induction j arbitrary: level stack)
  case (JList xs)
  then have s: "0 < stack" by simp
  have IH: "\<forall>x\<in>set xs. wf_json x \<and> reads ind (Suc level) (stack - 1) x" using JList by auto
  show ?case unfolding reads_def
  proof (intro allI impI)
    fix n r assume r: "stops r" "2 * length (dump ind level (JList xs) @ r) + 1 \<le> n"
    then obtain m where n: "n = Suc m" by (cases n) auto
    let ?body = "join (item_separator ind (Suc level)) (map (dump ind (Suc level)) xs) @ line_break ind level @ CHR '']'' # r"
    show "scan_value n stack (dump ind level (JList xs) @ r) = Inr (JList xs, r)"
    proof (cases xs)
      case (Cons x ys)
      have "opens ?body" using Cons IH opens_dump [of x ind "Suc level"] by (cases ys) simp_all
      moreover have "scan_items m (stack - 1) [] ?body = Inr (JList ([] @ xs), r)"
        using Cons IH r(2) n by (intro scan_items_dump) auto
      ultimately show ?thesis using Cons s n by (simp add: quote_code opens_def)
    qed (use s n in \<open>simp add: quote_code\<close>)
  qed
next
  case (JObj kvs)
  then have s: "0 < stack" by simp
  have IH: "\<forall>(k, v)\<in>set kvs. wf_json v \<and> reads ind (Suc level) (stack - 1) v" using JObj by fastforce
  show ?case unfolding reads_def
  proof (intro allI impI)
    fix n r assume r: "stops r" "2 * length (dump ind level (JObj kvs) @ r) + 1 \<le> n"
    then obtain m where n: "n = Suc m" by (cases n) auto
    let ?body = "join (item_separator ind (Suc level)) (map (dump_member ind (Suc level)) kvs) @ line_break ind level @ CHR ''}'' # r"
    show "scan_value n stack (dump ind level (JObj kvs) @ r) = Inr (JObj kvs, r)"
    proof (cases kvs)
      case (Cons p ps)
      have "opens ?body" using Cons by (cases ps) simp_all
      moreover have "scan_members m (stack - 1) [] ?body = Inr (JObj ([] @ kvs), r)"
        using Cons IH JObj.prems(1) r(2) n unfolding dump_JObj by (intro scan_members_dump) auto
      ultimately show ?thesis using Cons s n unfolding dump_JObj by (simp add: quote_code opens_def)
    qed (use s n in \<open>simp add: quote_code\<close>)
  qed
next
  case JNull
  show ?case by (rule reads_scalar) (simp_all add: scan_scalar_def quote_code opens_char)
next
  case (JBool b)
  show ?case by (rule reads_scalar) (simp_all add: scan_scalar_def quote_code opens_char)
next
  case (JInt n)
  then show ?case using hd_show_int [of n]
    by (intro reads_scalar) (simp_all add: scan_int opens_dump [of "JInt n", simplified])
next
  case (JFloat x)
  then show ?case using hd_dump_float [of x]
    by (intro reads_scalar) (simp_all add: scan_float opens_repr)
next
  case (JStr s)
  have "scan_value n stack (dump_string s @ r) = Inr (JStr s, r)" if "0 < n" for n r
    using that by (cases n) (simp_all add: dump_string_def scan_string_dump)
  then show ?case by (simp add: reads_def)
qed


lemma sort_json_wf [simp]: "wf_json j \<Longrightarrow> wf_json (sort_json j)"
proof (induction j)
  case (JObj kvs)
  let ?kvs = "map (\<lambda>(k, v). (k, sort_json v)) kvs"
  have "mset (map fst (sort_key fst ?kvs)) = mset (map fst ?kvs)" by (simp only: mset_map mset_sort)
  then have "distinct (map fst (sort_key fst ?kvs)) \<longleftrightarrow> distinct (map fst ?kvs)"
    by (rule mset_eq_imp_distinct_iff)
  moreover have "map fst ?kvs = map fst kvs" by (simp add: o_def case_prod_beta')
  ultimately have "distinct (map fst (sort_key fst ?kvs))" using JObj.prems by (simp only: wf_json.simps)
  with JObj show ?case by fastforce
qed auto

lemma sort_json_fits [simp]: "fits stack j \<Longrightarrow> fits stack (sort_json j)"
  by (induction j arbitrary: stack) fastforce+

text \<open>
  Reading what was printed gives the value (with its keys in order if they were sorted), whatever
  the indentation.
\<close>

lemma loads_dumps:
  assumes "wf_json j" and "fits stack j"
  shows "json_loads stack (json_dumps ind sort_keys j) = Inr (if sort_keys then sort_json j else j)"
proof -
  let ?j = "if sort_keys then sort_json j else j"
  have wf: "wf_json ?j" "fits stack ?j" using assms by simp_all
  have "scan_value (2 * length (dump ind 0 ?j) + 1) stack (dump ind 0 ?j) = Inr (?j, [])"
    using readsD [OF scan_dump [OF wf], of "[]" ind 0] by (simp add: stops_def del: scan_value.simps split del: if_split)
  moreover have "skip_ws [] = []" by (simp add: skip_ws_def)
  ultimately show ?thesis
    using opens_dump [OF wf(1), of ind 0]
    by (simp add: json_loads_def json_dumps_def del: scan_value.simps split del: if_split)
qed


subsection \<open>What is read is well-formed, and the fuel is enough\<close>

lemma scan_string_shorter: "scan_string acc s = Inr (t, r) \<Longrightarrow> length r < length s"
proof (induction "length s" arbitrary: acc s rule: less_induct)
  case less
  have IH: "length r < length s" if "scan_string acc' s' = Inr (t, r)" "length s' < length s" for acc' s'
    using less.hyps [OF that(2,1)] that(2) by simp
  from less.prems obtain c q where s: "s = c # q"
    by (cases s) (auto simp: scan_string.simps [of acc "[]"] decode_error_def)
  from less.prems show ?case unfolding s scan_string.simps [of acc "c # q"]
    by (auto simp: decode_error_def s split: if_splits list.splits option.splits dest!: IH)
qed

lemma split_int_shorter: "split_int s = Some (ip, r) \<Longrightarrow> length r < length s"
  by (auto simp: split_int_def less_Suc_eq_le split: list.splits if_splits intro: length_dropWhile_le)

lemma split_fraction_shorter: "split_fraction s = (fp, r) \<Longrightarrow> length r \<le> length s"
  by (auto simp: split_fraction_def split: if_splits) (metis diff_le_self le_trans length_dropWhile_le length_tl)

lemma split_exponent_shorter: "split_exponent s = (ep, r) \<Longrightarrow> length r \<le> length s"
  by (auto simp: split_exponent_def Let_def split: list.splits if_splits)
     (meson le_SucI le_trans length_dropWhile_le diff_le_self)+


lemma scan_number_shorter:
  assumes "scan_number s = Inr (j, r)"
  shows "length r < length s"
proof -
  let ?s = "if s \<noteq> [] \<and> hd s = CHR ''-'' then tl s else s"
  obtain ip r0 where ip: "split_int ?s = Some (ip, r0)"
    using assms by (cases "split_int ?s") (auto simp: scan_number_def decode_error_def)
  obtain fp r1 where fp: "split_fraction r0 = (fp, r1)" by fastforce
  obtain ep r2 where ep: "split_exponent r1 = (ep, r2)" by fastforce
  have "r = r2" using assms ip fp ep by (auto simp: scan_number_def outcome_simps Let_def split: if_splits)
  with split_int_shorter [OF ip] split_fraction_shorter [OF fp] split_exponent_shorter [OF ep]
  show ?thesis by (cases s) (auto split: if_splits)
qed

lemma scan_scalar_shorter: "scan_scalar s = Inr (j, r) \<Longrightarrow> length r < length s"
  by (auto simp: scan_scalar_def scan_number_shorter starts_with_iff split: if_splits)

lemma length_skip_ws: "length (skip_ws s) \<le> length s"
  by (simp add: skip_ws_def length_dropWhile_le)

lemma skip_ws_shorter: "skip_ws s = c # t \<Longrightarrow> length t < length s"
  using length_skip_ws [of s] by simp

lemma scan_shorter:
  "(\<forall>stack s j r. scan_value n stack s = Inr (j, r) \<longrightarrow> length r < length s)
   \<and> (\<forall>stack acc s j r. scan_items n stack acc s = Inr (j, r) \<longrightarrow> length r < length s)
   \<and> (\<forall>stack acc s j r. scan_members n stack acc s = Inr (j, r) \<longrightarrow> length r < length s)"
proof (induction n)
  case (Suc n)
  then have V: "scan_value n stack s = Inr (j, r) \<Longrightarrow> length r < length s"
    and I: "scan_items n stack acc s = Inr (j, r) \<Longrightarrow> length r < length s"
    and M: "scan_members n stack acc' s = Inr (j, r) \<Longrightarrow> length r < length s" for stack acc acc' s j r
    by blast+
  have "length r < length s" if sc: "scan_value (Suc n) stack s = Inr (j, r)" for stack s j r
  proof (cases s)
    case (Cons c q)
    with sc length_skip_ws [of q] show ?thesis
      by (auto simp: outcome_simps Let_def split: if_splits
          dest!: scan_string_shorter I M scan_scalar_shorter)
  qed (use sc in \<open>simp add: decode_error_def\<close>)
  moreover have "length r < length s" if sc: "scan_items (Suc n) stack acc s = Inr (j, r)" for stack acc s j r
  proof -
    from sc obtain v q where v: "scan_value n stack s = Inr (v, q)" by (auto simp: outcome_simps)
    then obtain d t where t: "skip_ws q = d # t"
      using sc by (cases "skip_ws q") (auto simp: decode_error_def)
    with sc v V [OF v] skip_ws_shorter [OF t] length_skip_ws [of t] show ?thesis
      by (auto simp: decode_error_def split: if_splits dest!: I)
  qed
  moreover have "length r < length s" if sc: "scan_members (Suc n) stack acc s = Inr (j, r)" for stack acc s j r
  proof -
    from sc obtain q where s: "s = quote # q" by (cases s) (auto simp: decode_error_def split: if_splits)
    with sc obtain k q1 where k: "scan_string [] q = Inr (k, q1)" by (auto simp: outcome_simps)
    with sc s obtain q2 where q2: "skip_ws q1 = CHR '':'' # q2"
      by (cases "skip_ws q1") (auto simp: decode_error_def split: if_splits)
    with sc s k obtain v q3 where v: "scan_value n stack (skip_ws q2) = Inr (v, q3)" by (auto simp: outcome_simps)
    with sc s k q2 obtain d t where t: "skip_ws q3 = d # t"
      by (cases "skip_ws q3") (auto simp: decode_error_def)
    with sc s k q2 v V [OF v] scan_string_shorter [OF k] skip_ws_shorter [OF q2] skip_ws_shorter [OF t]
      length_skip_ws [of q2] length_skip_ws [of t]
    show ?thesis by (auto simp: decode_error_def split: if_splits dest!: M)
  qed
  ultimately show ?case by blast
qed simp_all

text \<open>No scanner but the outer ones needs fuel.\<close>

lemma no_fuel [simp]:
  "decode_error m \<noteq> Inl out_of_fuel" "beyond_text \<noteq> out_of_fuel" "recursion_error \<noteq> out_of_fuel"
  by (simp_all add: decode_error_def out_of_fuel_def beyond_text_def recursion_error_def)

lemma scan_string_fuel: "scan_string acc s \<noteq> Inl out_of_fuel"
proof (induction "length s" arbitrary: acc s rule: less_induct)
  case less
  then show ?case by (subst scan_string.simps) (auto split: list.splits option.splits)
qed

lemma scan_scalar_fuel: "scan_scalar s \<noteq> Inl out_of_fuel"
proof -
  have "py_int t \<noteq> Inl out_of_fuel" "py_float t \<noteq> Inl out_of_fuel" for t
    using py_int_errors [of t] py_float_errors [of t] by (auto simp: out_of_fuel_def)
  then show ?thesis
    by (auto simp: scan_scalar_def scan_number_def outcome_simps Let_def split: if_splits option.splits prod.splits)
qed


lemma scan_enough:
  "(\<forall>stack s. 2 * length s + 1 \<le> n \<longrightarrow> scan_value n stack s \<noteq> Inl out_of_fuel)
   \<and> (\<forall>stack acc s. 2 * length s + 2 \<le> n \<longrightarrow> scan_items n stack acc s \<noteq> Inl out_of_fuel)
   \<and> (\<forall>stack acc s. 2 * length s + 2 \<le> n \<longrightarrow> scan_members n stack acc s \<noteq> Inl out_of_fuel)"
proof (induction n)
  case (Suc n)
  then have V: "2 * length s + 1 \<le> n \<Longrightarrow> scan_value n stack s \<noteq> Inl out_of_fuel"
    and I: "2 * length s + 2 \<le> n \<Longrightarrow> scan_items n stack acc s \<noteq> Inl out_of_fuel"
    and M: "2 * length s + 2 \<le> n \<Longrightarrow> scan_members n stack acc' s \<noteq> Inl out_of_fuel" for stack acc acc' s
    by blast+
  have shorter: "scan_value n stack s = Inr (v, q) \<Longrightarrow> length q < length s" for stack s v q
    using scan_shorter by blast
  have "scan_value (Suc n) stack s \<noteq> Inl out_of_fuel" if len: "2 * length s + 1 \<le> Suc n" for stack s
  proof (cases s)
    case (Cons c q)
    have "2 * length (skip_ws q) + 2 \<le> n" using len Cons length_skip_ws [of q] by simp
    from I [OF this] M [OF this] show ?thesis
      by (cases "skip_ws q") (auto simp: Cons outcome_simps scan_string_fuel scan_scalar_fuel Let_def)
  qed simp
  moreover have "scan_items (Suc n) stack acc s \<noteq> Inl out_of_fuel" if len: "2 * length s + 2 \<le> Suc n" for stack acc s
  proof
    assume e: "scan_items (Suc n) stack acc s = Inl out_of_fuel"
    with V [of s stack] len obtain v q where v: "scan_value n stack s = Inr (v, q)"
      by (auto simp: outcome_simps)
    with e obtain t where t: "skip_ws q = CHR '','' # t" "scan_items n stack (acc @ [v]) (skip_ws t) = Inl out_of_fuel"
      by (cases "skip_ws q") (auto split: if_splits)
    with I [of "skip_ws t"] len shorter [OF v] skip_ws_shorter [OF t(1)] length_skip_ws [of t] show False by fastforce
  qed
  moreover have "scan_members (Suc n) stack acc s \<noteq> Inl out_of_fuel" if len: "2 * length s + 2 \<le> Suc n" for stack acc s
  proof
    assume e: "scan_members (Suc n) stack acc s = Inl out_of_fuel"
    then obtain p where s: "s = quote # p" by (cases s) (auto split: if_splits)
    with e obtain k p1 where k: "scan_string [] p = Inr (k, p1)" by (auto simp: outcome_simps scan_string_fuel)
    with e s obtain p2 where p2: "skip_ws p1 = CHR '':'' # p2" by (cases "skip_ws p1") (auto split: if_splits)
    note sh = scan_string_shorter [OF k] skip_ws_shorter [OF p2] length_skip_ws [of p2]
    have "2 * length (skip_ws p2) + 1 \<le> n" using len s sh by simp
    from e s k p2 V [OF this, of stack] obtain v q where v: "scan_value n stack (skip_ws p2) = Inr (v, q)"
      by (auto simp: outcome_simps)
    with e s k p2 obtain t where t: "skip_ws q = CHR '','' # t"
        "scan_members n stack (AList.update k v acc) (skip_ws t) = Inl out_of_fuel"
      by (cases "skip_ws q") (auto split: if_splits)
    with M [of "skip_ws t"] len s sh shorter [OF v] skip_ws_shorter [OF t(1)] length_skip_ws [of t] show False by fastforce
  qed
  ultimately show ?case by blast
qed simp_all

lemma scan_scalar_wf: "scan_scalar s = Inr (j, r) \<Longrightarrow> wf_json j \<and> fits stack j"
  by (auto simp: scan_scalar_def scan_number_def outcome_simps decode_error_def Let_def py_float_wf
      split: if_splits option.splits prod.splits dest!: py_int_bound)

lemma scan_wf:
  "(\<forall>stack s j r. scan_value n stack s = Inr (j, r) \<longrightarrow> wf_json j \<and> fits stack j)
   \<and> (\<forall>stack acc s j r. scan_items n stack acc s = Inr (j, r) \<longrightarrow>
        (\<forall>x\<in>set acc. wf_json x \<and> fits stack x) \<longrightarrow> wf_json j \<and> fits (Suc stack) j)
   \<and> (\<forall>stack acc s j r. scan_members n stack acc s = Inr (j, r) \<longrightarrow>
        distinct (map fst acc) \<and> (\<forall>x\<in>snd ` set acc. wf_json x \<and> fits stack x) \<longrightarrow> wf_json j \<and> fits (Suc stack) j)"
proof (induction n)
  case (Suc n)
  then have V: "scan_value n stack s = Inr (j, r) \<Longrightarrow> wf_json j \<and> fits stack j"
    and I: "scan_items n stack acc s = Inr (j, r) \<Longrightarrow> (\<forall>x\<in>set acc. wf_json x \<and> fits stack x) \<Longrightarrow>
        wf_json j \<and> fits (Suc stack) j"
    and M: "scan_members n stack acc' s = Inr (j, r) \<Longrightarrow> distinct (map fst acc') \<Longrightarrow>
        (\<forall>x\<in>snd ` set acc'. wf_json x \<and> fits stack x) \<Longrightarrow> wf_json j \<and> fits (Suc stack) j" for stack acc acc' s j r
    by blast+
  have v: "wf_json j \<and> fits stack j" if sc: "scan_value (Suc n) stack s = Inr (j, r)" for stack s j r
  proof (cases s)
    case (Cons c q)
    with sc I [of "stack - 1" "[]" "skip_ws q" j r] M [of "stack - 1" "[]" "skip_ws q" j r] show ?thesis
      by (auto simp: outcome_simps Let_def split: if_splits dest: scan_scalar_wf)
  qed (use sc in \<open>simp add: decode_error_def\<close>)
  have i: "wf_json j \<and> fits (Suc stack) j"
    if sc: "scan_items (Suc n) stack acc s = Inr (j, r)" "\<forall>x\<in>set acc. wf_json x \<and> fits stack x" for stack acc s j r
  proof -
    from sc(1) obtain v q where v: "scan_value n stack s = Inr (v, q)" by (auto simp: outcome_simps)
    with sc(1) obtain d t where t: "skip_ws q = d # t" by (cases "skip_ws q") (auto simp: decode_error_def)
    from sc v V [OF v] t I [of stack "acc @ [v]" "skip_ws t" j r] show ?thesis
      by (auto simp: decode_error_def split: if_splits)
  qed
  have m: "wf_json j \<and> fits (Suc stack) j"
    if sc: "scan_members (Suc n) stack acc s = Inr (j, r)"
      and acc: "distinct (map fst acc)" "\<forall>x\<in>snd ` set acc. wf_json x \<and> fits stack x" for stack acc s j r
  proof -
    from sc obtain q where s: "s = quote # q" by (cases s) (auto simp: decode_error_def split: if_splits)
    with sc obtain k q1 where k: "scan_string [] q = Inr (k, q1)" by (auto simp: outcome_simps)
    with sc s obtain q2 where q2: "skip_ws q1 = CHR '':'' # q2"
      by (cases "skip_ws q1") (auto simp: decode_error_def split: if_splits)
    with sc s k obtain v q3 where v: "scan_value n stack (skip_ws q2) = Inr (v, q3)" by (auto simp: outcome_simps)
    with sc s k q2 obtain d t where t: "skip_ws q3 = d # t"
      by (cases "skip_ws q3") (auto simp: decode_error_def)
    let ?acc = "AList.update k v acc"
    have "distinct (map fst ?acc)" using acc(1) by (rule distinct_update)
    moreover have "\<forall>x\<in>snd ` set ?acc. wf_json x \<and> fits stack x"
      using acc(2) V [OF v] by (induction acc) auto
    moreover have "j = JObj ?acc \<or> scan_members n stack ?acc (skip_ws t) = Inr (j, r)"
      using sc s k q2 v t by (auto simp: decode_error_def split: if_splits)
    ultimately show ?thesis using M [of stack ?acc "skip_ws t" j r] by (elim disjE) auto
  qed
  show ?case
    by (rule conjI [OF _ conjI]; intro allI impI)
       ((rule v, assumption) | (rule i, assumption, assumption) | (elim conjE, rule m, assumption, assumption, assumption))+
qed simp_all

lemma loads_wf: "json_loads stack s = Inr j \<Longrightarrow> wf_json j \<and> fits stack j"
  using scan_wf unfolding json_loads_def decode_error_def
  by (fastforce simp: outcome_simps simp del: scan_value.simps split: if_splits)

lemma loads_fuel: "json_loads stack s \<noteq> Inl out_of_fuel"
proof -
  have "2 * length (skip_ws s) + 1 \<le> 2 * length s + 1" using length_skip_ws [of s] by simp
  then have "scan_value (2 * length s + 1) stack (skip_ws s) \<noteq> Inl out_of_fuel" using scan_enough by blast
  then show ?thesis by (auto simp: json_loads_def outcome_simps simp del: scan_value.simps split: if_splits)
qed


subsection \<open>One line\<close>

text \<open>Without indentation a document is a single line.\<close>

definition newline :: char where
  "newline = CHR 0x0A"

lemma newline_not_digit: "\<forall>c\<in>set s. is_digit c \<Longrightarrow> newline \<notin> set s"
  by (auto simp: newline_def is_digit_iff)

lemma dump_string_line: "newline \<notin> set (dump_string s)"
proof -
  have hex: "newline \<noteq> hex_digit n" if "n < 16" for n
  proof
    assume "newline = hex_digit n"
    with hex_value_digit [OF that] have "hex_value newline = Some n" by simp
    then show False by (simp add: hex_value_def newline_def)
  qed
  have "newline \<notin> set (escape_char c)" for c
  proof -
    have "char_of (92 :: nat) = CHR 0x5C" by code_simp
    then have "newline \<noteq> char_of (92 :: nat)" and "newline = c \<Longrightarrow> (of_char c :: nat) = 10"
      by (auto simp: newline_def)
    then show ?thesis using hex by (auto simp: escape_char_def hex4_def Let_def) (simp_all add: newline_def)
  qed
  then show ?thesis by (auto simp: dump_string_def newline_def quote_code)
qed

lemma dump_float_line: "wf_float x \<Longrightarrow> newline \<notin> set (dump_float x)"
proof -
  assume wf: "wf_float x"
  have pos: "newline \<notin> set (repr_pos q)" if q: "0 < q" "wf_float (Fin q)" for q
  proof -
    from repr_pos_parts [OF q] obtain ds pt where "repr_pos q = place_point ds pt" "list_all is_digit ds" "ds \<noteq> []" .
    with place_point_shape(4) have "list_all number_char (repr_pos q)" by metis
    moreover have "\<not> number_char newline" by (simp add: number_char_def newline_def is_digit_iff)
    ultimately show ?thesis by (auto simp: list_all_iff)
  qed
  show ?thesis
  proof (cases x)
    case (Fin q)
    consider "q = 0" | "0 < q" | "q < 0" by linarith
    then show ?thesis using pos [of q] pos [of "- q"] wf Fin wf_float_Fin_iff [of "- q"] wf_float_Fin_iff [of q]
      by cases (simp_all add: dump_float_def float_repr_def newline_def)
  qed (simp_all add: dump_float_def float_repr_def newline_def)
qed

lemma join_line: "newline \<notin> set sep \<Longrightarrow> \<forall>x\<in>set xs. newline \<notin> set x \<Longrightarrow> newline \<notin> set (join sep xs)"
  by (induction sep xs rule: join.induct) auto

lemma dump_line: "wf_json j \<Longrightarrow> newline \<notin> set (dump None level j)"
proof (induction j arbitrary: level)
  case (JInt n)
  then show ?case using newline_not_digit [of "show_digits \<bar>n\<bar>"] show_digits_digits [of "\<bar>n\<bar>"]
    by (auto simp: show_int_def newline_def)
next
  case (JList xs)
  then have "newline \<notin> set (join (item_separator None (Suc level)) (map (dump None (Suc level)) xs))"
    by (intro join_line) (auto simp: item_separator_def newline_def)
  then show ?case by (simp add: line_break_def newline_def)
next
  case (JObj kvs)
  have "\<forall>x\<in>set (map (dump_member None (Suc level)) kvs). newline \<notin> set x"
    using JObj dump_string_line by (fastforce simp: dump_member_def newline_def)
  then have "newline \<notin> set (join (item_separator None (Suc level)) (map (dump_member None (Suc level)) kvs))"
    by (intro join_line) (auto simp: item_separator_def newline_def)
  then show ?case unfolding dump_JObj by (simp add: line_break_def newline_def)
qed (auto simp: dump_string_line dump_float_line, auto simp: newline_def)

lemma json_dumps_line: "wf_json j \<Longrightarrow> newline \<notin> set (json_dumps None sort_keys j)"
  by (simp add: json_dumps_def dump_line)

end
