(* ===== verification/ResponseTypes.thy ===== *)
theory ResponseTypes
  imports ServiceA PyJson
begin

text \<open>
  The types of what service-a returns. Its handlers read numbers from the JSON bodies of other
  services; \<open>typed_post\<close> says that such a body, when there is one, is a JSON value with
  doubles in it. \<open>typed_response\<close> is the type of a \<open>ProcessResponse\<close> together with what
  its fields say of the request. The lemmas follow the values through every construct: reading
  a field, one request, the fan-out and the pools, the aggregation.
\<close>

subsection \<open>Types\<close>

definition typed_post :: "http_post \<Rightarrow> bool" where
  "typed_post p = (\<forall>u j resp b. p u j = Inr resp \<longrightarrow> body resp = Inr b \<longrightarrow> wf_json b)"

definition supported :: "string list" where
  "supported = [''sum'', ''mean'', ''square_sum'']"

definition typed_response :: "process_request \<Rightarrow> process_response \<Rightarrow> bool" where
  "typed_response req resp =
     (pr_operation resp = operation req \<and> (items req = [] \<or> operation req \<in> set supported) \<and>
      pr_items_processed resp = int (length (items req)) \<and>
      length (pr_fanout_results resp) = length (items req) \<and>
      list_all wf_float (pr_fanout_results resp) \<and> wf_float (pr_result resp) \<and>
      pred_option wf_float (pr_cpp_result resp) \<and> wf_float (pr_duration_ms resp))"

definition typed_outcome :: "process_request \<Rightarrow> process_response outcome \<Rightarrow> bool" where
  "typed_outcome req r = (case r of Inl _ \<Rightarrow> True | Inr resp \<Rightarrow> typed_response req resp)"

subsection \<open>Preservation\<close>

lemma wf_float_bit: "wf_float (Fin 0)" "wf_float (Fin 1)"
  using fl_of_int_exact [of 1] by simp_all

lemma json_to_float_wf: "wf_json v \<Longrightarrow> json_to_float v = Inr x \<Longrightarrow> wf_float x"
  by (cases v) (auto simp: json_to_float_def wf_float_of_int py_float_wf wf_float_bit simp del: wf_float.simps)

lemma json_item_wf: "wf_json j \<Longrightarrow> json_item k j = Inr v \<Longrightarrow> wf_json v"
  by (cases j) (auto simp: json_item_def split: option.splits dest!: map_of_SomeD)

lemma read_result_wf: "wf_json j \<Longrightarrow> read_result j = Inr x \<Longrightarrow> wf_float x"
  by (auto simp: read_result_def outcome_simps dest: json_item_wf json_to_float_wf)

lemma typed_postD:
  "typed_post p \<Longrightarrow> p u j = Inr resp \<Longrightarrow> body resp = Inr b \<Longrightarrow> read_result b = Inr x \<Longrightarrow> wf_float x"
  unfolding typed_post_def using read_result_wf by blast

lemma one_wf: "typed_post p \<Longrightarrow> one rfs p address i v = Inr x \<Longrightarrow> wf_float x"
  by (auto simp: one_def get_checked_def outcome_simps elim: typed_postD)

lemma square_one_wf: "typed_post p \<Longrightarrow> square_one rfs p address v = Inr x \<Longrightarrow> wf_float x"
  by (auto simp: square_one_def get_checked_def outcome_simps elim: typed_postD)

lemma call_cpp_wf:
  "typed_post p \<Longrightarrow> snd (call_cpp_worker_square_sum rfs p address xs start stop) = Inr x \<Longrightarrow> wf_float x"
  by (auto simp: call_cpp_worker_square_sum_def get_checked_def outcome_simps
      split: sum.splits json.splits elim: typed_postD)

lemma aggregate_wf:
  assumes "aggregate op ys = Inr r" and "list_all wf_float ys"
  shows "wf_float r" and "ys = [] \<or> op \<in> set supported"
  using assms wf_py_sum [of ys] wf_float_bit
  by (auto simp: aggregate_def supported_def list_all_iff outcome_simps wf_py_div simp del: wf_float.simps split: if_splits)

lemma do_fanout_wf:
  assumes "typed_post (post (net k))" and "fst (do_fanout s rfs net xs k) = Inr ys"
  shows "length ys = length xs \<and> list_all wf_float ys"
proof -
  have "item_outcomes (one rfs (post (net k)) (service_b_url s)) xs = map Inr ys"
    using assms(2) by (simp add: fst_do_fanout_gather gather.collect_Inr_iff)
  then have "length ys = length xs" "i < length xs \<Longrightarrow> one rfs (post (net k)) (service_b_url s) i (xs ! i) = Inr (ys ! i)" for i
    by (metis length_item_outcomes length_map, metis length_item_outcomes length_map nth_item_outcomes nth_map)
  then have "wf_float (ys ! i)" if "i < length xs" for i
    using one_wf [OF assms(1)] that by blast
  then show ?thesis using \<open>length ys = length xs\<close> by (simp add: list_all_length)
qed

lemma response_of_wf:
  assumes "aggregate (operation req) ys = Inr r" and "length ys = length (items req)"
    and "list_all wf_float ys" and "pred_option wf_float cpp"
    and "wf_float (hc_start clk)" and "wf_float (hc_stop clk)"
  shows "typed_response req (response_of req clk ys cpp r)"
  using aggregate_wf [OF assms(1,3)] assms
  by (auto simp: typed_response_def response_of_def elapsed_ms_def intro!: wf_py_round)

lemma pool_flavour_wf:
  assumes "\<And>ys. run f (items req) = Some (Inr ys) \<Longrightarrow> length ys = length (items req) \<and> list_all wf_float ys"
    and "wf_float (hc_start clk)" and "wf_float (hc_stop clk)"
  shows "pred_option (typed_outcome req) (pool_flavour run f clk req)"
proof (cases "run f (items req)")
  case (Some r)
  show ?thesis
  proof (cases r)
    case (Inr ys)
    with assms Some show ?thesis
      by (cases "aggregate (operation req) ys") (auto simp: pool_flavour_def typed_outcome_def intro!: response_of_wf)
  qed (simp add: pool_flavour_def Some typed_outcome_def)
qed (simp add: pool_flavour_def)

lemma fanout_result_wf:
  assumes "\<And>k. typed_post (post (net k))" and "fanout_result s rfs net xs = Inr ys"
  shows "length ys = length xs \<and> list_all wf_float ys"
  using do_fanout_wf [OF assms(1)] assms(2) by (auto simp: fanout_result_cases Let_def split: if_splits)

lemma cpp_result_wf:
  "typed_post p \<Longrightarrow> snd (cpp_result_of s rfs p clk req) = Inr c \<Longrightarrow> pred_option wf_float c"
  using call_cpp_wf [of p rfs "cpp_worker_url s" "items req" "cpp_start clk" "cpp_stop clk"]
  by (auto simp: cpp_result_of_def Let_def split: if_splits prod.splits sum.splits)

lemma process_wf:
  assumes "\<And>k. typed_post (post (net k))" and "typed_post cpp_post"
    and "wf_float (hc_start clk)" and "wf_float (hc_stop clk)"
    and "snd (process s rfs net cpp_post rand clk req) = Inr resp"
  shows "typed_response req resp"
proof (cases "fanout_result s rfs net (items req)")
  case (Inl e)
  with retry_fanout [of s rfs net "items req" rand] assms(5) show ?thesis
    by (auto simp: process_def Let_def split: if_splits)
next
  case (Inr ys)
  from assms(5) obtain cpp r where c: "snd (cpp_result_of s rfs cpp_post clk req) = Inr cpp"
    and r: "aggregate (operation req) ys = Inr r" "resp = response_of req clk ys cpp r"
    unfolding process_fanned_out [OF Inr] by (cases "aggregate (operation req) ys") (auto simp: outcome_simps)
  with response_of_wf [OF r(1)] fanout_result_wf [OF assms(1) Inr] cpp_result_wf [OF assms(2) c] assms(3,4)
  show ?thesis by simp
qed

subsection \<open>Properties\<close>

text \<open>
  C25: every response is well typed. Whatever the other services answer, in whatever order and
  after however many failures, a response of any of the three endpoints carries the operation of
  the request (a supported one, unless there are no items), counts its items, has one square for
  each of them, and all its numbers (result, squares, duration and the C++ worker's result, if
  any) are doubles.
\<close>

theorem responses_well_typed:
  assumes "\<forall>k. typed_post (post (net k))" and "typed_post cpp_post" and "\<forall>i. typed_post (http i)"
    and "wf_float (hc_start clk)" and "wf_float (hc_stop clk)"
  shows "typed_outcome req (snd (process s rfs net cpp_post rand clk req))
       \<and> pred_option (typed_outcome req) (process_via_queue s rfs pick http clk req)
       \<and> pred_option (typed_outcome req) (process_via_threadpool s pick clk req)"
proof (intro conjI)
  show "typed_outcome req (snd (process s rfs net cpp_post rand clk req))"
    using process_wf [where net = net and resp = x for x, OF spec [OF assms(1)] assms(2,4,5)]
    by (auto simp: typed_outcome_def split: sum.splits)
  show "pred_option (typed_outcome req) (process_via_queue s rfs pick http clk req)"
    unfolding process_via_queue_def
    by (rule pool_flavour_wf [OF _ assms(4,5)], erule queue_values_hold)
       (use assms(3) square_one_wf wf_float_bit in blast)+
  have "list_all wf_float (map (\<lambda>v. v * v) xs)" for xs by (simp add: list_all_iff)
  moreover have "item_outcomes (\<lambda>_. square_blocking) xs = map Inr (map (\<lambda>v. v * v) xs)" for xs
    by (simp add: item_outcomes_const square_blocking_def)
  note thread_pipe.run_values [OF this]
  ultimately show "pred_option (typed_outcome req) (process_via_threadpool s pick clk req)"
    unfolding process_via_threadpool_def by (intro pool_flavour_wf assms) auto
qed

subsection \<open>Witnesses\<close>

lemma typed_sample_posts: "typed_post squaring_post" "typed_post refusing_post"
  by (auto simp: typed_post_def squaring_post_def refusing_post_def split: sum.splits)

lemma responses_well_typed_witness:
  "typed_outcome (sample_request ''mean'')
     (snd (process (a_load_settings (\<lambda>_. None)) plain_rfs (sample_net 1) refusing_post (\<lambda>_. Fin 0) sample_clock
       (sample_request ''mean'')))"
  using responses_well_typed [of "sample_net 1" refusing_post "\<lambda>_. squaring_post" sample_clock
      "sample_request ''mean''" "a_load_settings (\<lambda>_. None)" plain_rfs "\<lambda>_. Fin 0" "\<lambda>n. n"] typed_sample_posts wf_float_bit
  by (simp add: sample_net_def sample_clock_def)

end
