(* ===== verification/CppMetrics.thy ===== *)
theory CppMetrics
  imports CppWorker
begin

text \<open>
  The metrics of \<^verbatim>\<open>services/cpp-worker/src/main.cpp\<close> under concurrent requests. The threads of the
  server run \<open>Metrics::Record\<close> at the same time; what they interleave are its atomic steps. A state
  is the metrics and, for each thread, the steps it still has to do.
\<close>

record recorders =
  rs_metrics :: cpp_metrics
  rs_todo :: "metric_step list list"

definition recorders_init :: "cpp_metrics \<Rightarrow> (pyfloat \<times> bool) list \<Rightarrow> recorders" where
  "recorders_init m reqs = \<lparr>rs_metrics = m, rs_todo = map (\<lambda>(d, e). Record_steps d e) reqs\<rparr>"

definition recorders_enabled :: "recorders \<Rightarrow> nat list" where
  "recorders_enabled st = filter (\<lambda>i. rs_todo st ! i \<noteq> []) [0..<length (rs_todo st)]"

definition recorders_act :: "nat \<Rightarrow> recorders \<Rightarrow> recorders" where
  "recorders_act i st =
     (case rs_todo st ! i of
        [] \<Rightarrow> st
      | a # as \<Rightarrow> st\<lparr>rs_metrics := metric_act a (rs_metrics st), rs_todo := (rs_todo st)[i := as]\<rparr>)"

definition fresh_metrics :: "int \<Rightarrow> cpp_metrics" where
  "fresh_metrics now =
     \<lparr>cm_request_count = 0, cm_error_count = 0, cm_total_latency_ms = Fin 0, cm_started_at = now\<rparr>"

subsection \<open>The invariant\<close>

definition requests_in :: "metric_step list \<Rightarrow> nat" where
  "requests_in as = length (filter (\<lambda>a. a = AddRequest) as)"

definition errors_in :: "metric_step list \<Rightarrow> nat" where
  "errors_in as = length (filter (\<lambda>a. a = AddError) as)"

definition todo_of :: "(pyfloat \<times> bool) \<Rightarrow> metric_step list list" where
  "todo_of = (\<lambda>(d, e). [Record_steps d e] @ (if e then [[AddError, AddLatency d]] else []) @ [[AddLatency d], []])"

text \<open>
  What the counters hold and what the threads still add make up the requests; every thread is
  at one of the stages of its \<open>Record\<close>.
\<close>

definition recorders_inv :: "(pyfloat \<times> bool) list \<Rightarrow> recorders \<Rightarrow> bool" where
  "recorders_inv reqs st =
     (length (rs_todo st) = length reqs \<and>
      (\<forall>i<length reqs. rs_todo st ! i \<in> set (todo_of (reqs ! i))) \<and>
      cm_request_count (rs_metrics st) + of_nat (\<Sum>i<length reqs. requests_in (rs_todo st ! i)) = of_nat (length reqs) \<and>
      cm_error_count (rs_metrics st) + of_nat (\<Sum>i<length reqs. errors_in (rs_todo st ! i))
        = of_nat (length (filter snd reqs)))"

definition steps_left :: "recorders \<Rightarrow> nat" where
  "steps_left st = (\<Sum>i<length (rs_todo st). length (rs_todo st ! i))"

lemma recorders_enabled_iff: "i \<in> set (recorders_enabled st) \<longleftrightarrow> i < length (rs_todo st) \<and> rs_todo st ! i \<noteq> []"
  by (auto simp: recorders_enabled_def)

lemma todo_step: "a # as \<in> set (todo_of r) \<Longrightarrow> as \<in> set (todo_of r)"
  by (auto simp: todo_of_def Record_steps_def split: prod.splits if_splits)

lemma metric_act_counts:
  "cm_request_count (metric_act a m) = cm_request_count m + (if a = AddRequest then 1 else 0)"
  "cm_error_count (metric_act a m) = cm_error_count m + (if a = AddError then 1 else 0)"
  by (cases a; simp)+

lemma recorders_act_inv:
  assumes inv: "recorders_inv reqs st" and i: "i \<in> set (recorders_enabled st)"
  shows "recorders_inv reqs (recorders_act i st)"
proof -
  obtain a as where t: "rs_todo st ! i = a # as" using i by (auto simp: recorders_enabled_iff neq_Nil_conv)
  have len: "i < length (rs_todo st)" "length (rs_todo st) = length reqs"
    using i inv by (auto simp: recorders_enabled_iff recorders_inv_def)
  have R: "(\<Sum>j<length reqs. requests_in ((rs_todo st)[i := as] ! j)) + (if a = AddRequest then 1 else 0)
      = (\<Sum>j<length reqs. requests_in (rs_todo st ! j))"
    using sum_update [OF len(1), of "\<lambda>_. requests_in" as] t len(2) by (simp add: requests_in_def split: if_splits)
  have E: "(\<Sum>j<length reqs. errors_in ((rs_todo st)[i := as] ! j)) + (if a = AddError then 1 else 0)
      = (\<Sum>j<length reqs. errors_in (rs_todo st ! j))"
    using sum_update [OF len(1), of "\<lambda>_. errors_in" as] t len(2) by (simp add: errors_in_def split: if_splits)
  have stage: "(rs_todo st)[i := as] ! j \<in> set (todo_of (reqs ! j))" if "j < length reqs" for j
    using inv that t len todo_step [of a as "reqs ! i"] by (cases "j = i") (auto simp: recorders_inv_def)
  have "cm_request_count (metric_act a (rs_metrics st)) + of_nat (\<Sum>j<length reqs. requests_in ((rs_todo st)[i := as] ! j))
      = of_nat (length reqs)"
    using inv unfolding recorders_inv_def R [symmetric] by (simp add: metric_act_counts algebra_simps split: if_splits)
  moreover have "cm_error_count (metric_act a (rs_metrics st)) + of_nat (\<Sum>j<length reqs. errors_in ((rs_todo st)[i := as] ! j))
      = of_nat (length (filter snd reqs))"
    using inv unfolding recorders_inv_def E [symmetric] by (simp add: metric_act_counts algebra_simps split: if_splits)
  ultimately show ?thesis using stage len t by (simp add: recorders_inv_def recorders_act_def)
qed

lemma recorders_act_less:
  assumes "i \<in> set (recorders_enabled st)"
  shows "steps_left (recorders_act i st) < steps_left st"
proof -
  obtain a as where "rs_todo st ! i = a # as" "i < length (rs_todo st)"
    using assms by (auto simp: recorders_enabled_iff neq_Nil_conv)
  with sum_update [of i "rs_todo st" "\<lambda>_. length" as] show ?thesis by (simp add: steps_left_def recorders_act_def)
qed

interpretation recording: scheduled recorders_enabled recorders_act "recorders_inv reqs" steps_left for reqs
  by unfold_locales (auto intro: recorders_act_inv recorders_act_less)

lemma recorders_init_inv: "recorders_inv reqs (recorders_init (fresh_metrics now) reqs)"
proof -
  have "(\<Sum>i<length reqs. errors_in (map (\<lambda>(d, e). Record_steps d e) reqs ! i)) = length (filter snd reqs)"
  proof -
    have "(\<Sum>i<length reqs. errors_in (map (\<lambda>(d, e). Record_steps d e) reqs ! i))
        = (\<Sum>r\<leftarrow>reqs. if snd r then 1 else 0)"
      by (auto simp: sum_list_sum_nth errors_in_def Record_steps_def lessThan_atLeast0 split: prod.splits intro!: sum.cong)
    also have "\<dots> = length (filter snd reqs)" by (induction reqs) auto
    finally show ?thesis .
  qed
  moreover have "(\<Sum>i<length reqs. requests_in (map (\<lambda>(d, e). Record_steps d e) reqs ! i)) = length reqs"
    by (simp add: requests_in_def Record_steps_def case_prod_beta)
  ultimately show ?thesis
    by (auto simp: recorders_inv_def recorders_init_def fresh_metrics_def todo_of_def split: prod.splits)
qed

text \<open>An error is counted after its request, so what is missing of the errors covers the difference.\<close>

lemma stage_order:
  "t \<in> set (todo_of r) \<Longrightarrow> (if snd r then 1 else 0) + requests_in t \<le> 1 + errors_in t"
  by (auto simp: todo_of_def Record_steps_def requests_in_def errors_in_def split: prod.splits if_splits)

lemma stage_bounds:
  "t \<in> set (todo_of r) \<Longrightarrow> requests_in t \<le> 1 \<and> errors_in t \<le> (if snd r then 1 else 0)"
  by (auto simp: todo_of_def Record_steps_def requests_in_def errors_in_def split: prod.splits if_splits)

lemma recorders_order:
  assumes "recorders_inv reqs st"
  shows "length (filter snd reqs) + (\<Sum>i<length reqs. requests_in (rs_todo st ! i))
       \<le> length reqs + (\<Sum>i<length reqs. errors_in (rs_todo st ! i))"
proof -
  have "(\<Sum>i<length reqs. (if snd (reqs ! i) then 1 else 0) + requests_in (rs_todo st ! i))
      \<le> (\<Sum>i<length reqs. 1 + errors_in (rs_todo st ! i))"
    using assms stage_order by (intro sum_mono) (auto simp: recorders_inv_def)
  moreover have "(\<Sum>i<length reqs. if snd (reqs ! i) then 1 else 0) = length (filter snd reqs)"
    by (simp add: sum.If_cases length_filter_conv_card Int_def conj_commute)
  ultimately show ?thesis by (simp add: sum.distrib sum_Suc)
qed

subsection \<open>Properties\<close>

text \<open>
  C23: no update is lost. However the threads that record requests interleave, the error count
  never exceeds the request count at any moment, and when the last thread is done the counters are
  the numbers of the requests and of the errors among them, modulo \<open>2 ^ 64\<close>.
\<close>

theorem concurrent_metrics_exact:
  assumes "reachable recorders_enabled recorders_act (recorders_init (fresh_metrics now) reqs) st"
    and "length reqs < 2 ^ 64"
  shows "unat (cm_error_count (rs_metrics st)) \<le> unat (cm_request_count (rs_metrics st))
       \<and> (recorders_enabled st = [] \<longrightarrow>
            cm_request_count (rs_metrics st) = of_nat (length reqs)
            \<and> cm_error_count (rs_metrics st) = of_nat (length (filter snd reqs)))"
proof -
  have inv: "recorders_inv reqs st" by (rule recording.reachable_inv [OF assms(1) recorders_init_inv])
  define r e where "r = (\<Sum>i<length reqs. requests_in (rs_todo st ! i))" and "e = (\<Sum>i<length reqs. errors_in (rs_todo st ! i))"
  have bound: "requests_in (rs_todo st ! i) \<le> 1" "errors_in (rs_todo st ! i) \<le> (if snd (reqs ! i) then 1 else 0)"
    if "i < length reqs" for i
    using stage_bounds [of "rs_todo st ! i" "reqs ! i"] inv that by (simp_all add: recorders_inv_def)
  have "r \<le> (\<Sum>i<length reqs. 1)" unfolding r_def using bound(1) by (intro sum_mono) simp
  then have rl: "r \<le> length reqs" by simp
  then have rc: "cm_request_count (rs_metrics st) = of_nat (length reqs - r)"
    using inv by (simp add: recorders_inv_def of_nat_diff eq_diff_eq flip: r_def)
  have "e \<le> (\<Sum>i<length reqs. if snd (reqs ! i) then 1 else 0)" unfolding e_def using bound(2) by (intro sum_mono) simp
  also have "\<dots> = length (filter snd reqs)" by (simp add: sum.If_cases length_filter_conv_card Int_def conj_commute)
  finally have el: "e \<le> length (filter snd reqs)" .
  then have ec: "cm_error_count (rs_metrics st) = of_nat (length (filter snd reqs) - e)"
    using inv by (simp add: recorders_inv_def of_nat_diff eq_diff_eq flip: e_def)
  have "length (filter snd reqs) - e \<le> length reqs - r"
    using recorders_order [OF inv] el rl by (simp flip: r_def e_def)
  moreover have "length (filter snd reqs) \<le> length reqs" by simp
  ultimately have "unat (cm_error_count (rs_metrics st)) \<le> unat (cm_request_count (rs_metrics st))"
    unfolding rc ec using assms(2) by (simp add: unsigned_of_nat take_bit_nat_eq_self)
  moreover have "r = 0 \<and> e = 0" if "recorders_enabled st = []"
  proof -
    have "rs_todo st ! i = []" if "i < length reqs" for i
      using that inv \<open>recorders_enabled st = []\<close> recorders_enabled_iff [of i st] by (auto simp: recorders_inv_def)
    then show ?thesis by (simp add: r_def e_def requests_in_def errors_in_def)
  qed
  ultimately show ?thesis using rc ec by simp
qed

text \<open>
  \<open>Snapshot\<close> loads its values one after the other, so it can miss the request of an error that it
  counts: between its first two loads, another thread takes the first two steps of recording a
  failed request.
\<close>

lemma snapshot_is_not_atomic:
  "let st = recorders_init (fresh_metrics 0) [(Fin 1, True)];
       st' = recorders_act 0 (recorders_act 0 st)
   in (cm_request_count (rs_metrics st), cm_error_count (rs_metrics st')) = (0, 1)"
  by (simp add: Let_def recorders_init_def recorders_act_def Record_steps_def fresh_metrics_def)

subsection \<open>Witnesses\<close>

lemma concurrent_metrics_exact_witness:
  "let st = drive recorders_enabled recorders_act (\<lambda>n. n) 7 (recorders_init (fresh_metrics 0) [(Fin 1, True), (Fin 2, False), (Fin 1, True)])
   in unat (cm_error_count (rs_metrics st)) \<le> unat (cm_request_count (rs_metrics st))"
  using concurrent_metrics_exact [OF drive_reachable [where n = 7 and pick = "\<lambda>n. n"], where now = 0
      and reqs = "[(Fin 1, True), (Fin 2, False), (Fin 1, True)]"]
  by (simp add: Let_def)

end
