(* ===== verification/Recovery.thy ===== *)
theory Recovery
  imports HealthCheck
begin

text \<open>
  \<^verbatim>\<open>orchestration/recovery.py\<close>: the watcher that polls every service, counts consecutive
  failed probes per service, and runs \<open>docker start\<close> when a count reaches the threshold.

  The dictionaries \<open>_runtimes\<close> and \<open>_recovery_count\<close> are association lists in insertion
  order. The docker command line and the clocks are one parameter, \<open>docker\<close>: what a call of
  \<open>docker start\<close> on a container finds, over a world \<open>'w\<close> that it may change (an exception
  when the binary cannot be started). A run state holds the watcher, that world and the trace of
  everything logged, started and slept, in order.

  \<open>recovery_spec\<close> is the abstract watcher: two numbers per service, the current failure streak
  and the recoveries so far. The interpretation \<open>watch\<close> of \<open>simulation\<close> shows that the code
  implements it, and \<open>streak_closed_form\<close> says when it recovers.
\<close>

subsection \<open>State\<close>

record watcher_config =
  poll_interval_seconds :: pyfloat
  failure_threshold :: int
  recovery_backoff_seconds :: pyfloat
  docker_bin :: string

definition config_from_env :: "environ \<Rightarrow> string option \<Rightarrow> watcher_config" where
  "config_from_env env which_docker =
     \<lparr>poll_interval_seconds = env_float env ''HEALTH_POLL_INTERVAL_SECONDS'' (Fin 5),
      failure_threshold = env_int env ''HEALTH_FAILURE_THRESHOLD'' 3,
      recovery_backoff_seconds = env_float env ''RECOVERY_BACKOFF_SECONDS'' (Fin 2),
      docker_bin = (case which_docker of None \<Rightarrow> ''docker'' | Some p \<Rightarrow> if p = [] then ''docker'' else p)\<rparr>"

record service_runtime =
  rt_target :: service_target
  consecutive_failures :: int
  rt_history :: "recovery_event list"

record watcher =
  w_targets :: "service_target list"
  w_config :: watcher_config
  w_runtimes :: "(string \<times> service_runtime) list"
  w_stop :: bool
  w_recovery_count :: "(string \<times> int) list"

definition RecoveryWatcher :: "service_target list \<Rightarrow> watcher_config \<Rightarrow> watcher" where
  "RecoveryWatcher targets cfg =
     \<lparr>w_targets = targets, w_config = cfg,
      w_runtimes =
        fold (\<lambda>t. AList.update (st_name t)
                   \<lparr>rt_target = t, consecutive_failures = 0, rt_history = []\<rparr>) targets [],
      w_stop = False, w_recovery_count = []\<rparr>"

definition request_stop :: "watcher \<Rightarrow> watcher" where
  "request_stop w = w\<lparr>w_stop := True\<rparr>"

text \<open>All events, sorted by detection time; equal times keep the dictionary's order.\<close>

definition history :: "watcher \<Rightarrow> recovery_event list" where
  "history w = sort_key detected_at (concat (map (\<lambda>(_, rt). rt_history rt) (w_runtimes w)))"

subsection \<open>The recovery step\<close>

text \<open>What a \<open>docker start\<close> and the clocks around it read.\<close>

record docker_reading =
  dr_returncode :: int
  dr_stdout :: string
  dr_stderr :: string
  dr_detected :: datetime
  dr_finished :: datetime
  dr_start :: pyfloat
  dr_stop :: pyfloat

type_synonym 'w docker = "string \<Rightarrow> 'w \<Rightarrow> docker_reading outcome \<times> 'w"

datatype watcher_event =
    WatcherStarted "string list" pyfloat int
  | WatcherStopped
  | RecoveredPassively string int
  | HealthCheckFailed string int string
  | DockerStart string string
  | DockerStartFailed string int string string
  | RecoveryLogged string bool pyfloat int
  | BackoffSleep pyfloat

record 'w run_state =
  watch :: watcher
  world :: 'w
  trace :: "watcher_event list"

definition emit :: "watcher_event \<Rightarrow> 'w run_state \<Rightarrow> 'w run_state" where
  "emit e st = st\<lparr>trace := trace st @ [e]\<rparr>"

definition set_runtime :: "string \<Rightarrow> service_runtime \<Rightarrow> 'w run_state \<Rightarrow> 'w run_state" where
  "set_runtime name rt st =
     st\<lparr>watch := (watch st)\<lparr>w_runtimes := AList.update name rt (w_runtimes (watch st))\<rparr>\<rparr>"

definition recovery_count :: "watcher \<Rightarrow> string \<Rightarrow> int" where
  "recovery_count w name = (case map_of (w_recovery_count w) name of None \<Rightarrow> 0 | Some n \<Rightarrow> n)"

definition docker_start :: "string \<Rightarrow> docker_reading \<Rightarrow> 'w run_state \<Rightarrow> bool \<times> 'w run_state" where
  "docker_start cont d st =
     (if dr_returncode d = 0 then (True, st)
      else (False, emit (DockerStartFailed cont (dr_returncode d)
              (py_strip (dr_stdout d)) (py_strip (dr_stderr d))) st))"

definition make_event :: "string \<Rightarrow> bool \<Rightarrow> docker_reading \<Rightarrow> recovery_event" where
  "make_event name ok d =
     \<lparr>ev_service = name, detected_at = dr_detected d,
      recovered_at = (if ok then Some (dr_finished d) else None),
      duration_seconds = Some (py_round 3 (dr_stop d - dr_start d)),
      action = ''docker_start'', success = ok\<rparr>"

text \<open>
  \<open>_recover\<close> for the runtime \<open>rt\<close> that the dictionary holds under \<open>name\<close>. An exception of
  the docker call leaves the runtime as it was and propagates.
\<close>

definition recover :: "'w docker \<Rightarrow> string \<Rightarrow> service_runtime \<Rightarrow> 'w run_state \<Rightarrow> unit outcome \<times> 'w run_state" where
  "recover docker name rt st =
     (let target = rt_target rt;
          st1 = emit (DockerStart (docker_bin (w_config (watch st))) (container target)) st;
          (reading, world') = docker (container target) (world st1);
          st2 = st1\<lparr>world := world'\<rparr>
      in case reading of
           Inl e \<Rightarrow> (Inl e, st2)
         | Inr d \<Rightarrow>
             (let (ok, st3) = docker_start (container target) d st2;
                  event = make_event (st_name target) ok d;
                  st4 = set_runtime name
                          (rt\<lparr>rt_history := rt_history rt @ [event], consecutive_failures := 0\<rparr>) st3;
                  n = recovery_count (watch st4) (st_name target) + 1;
                  st5 = st4\<lparr>watch := (watch st4)\<lparr>w_recovery_count :=
                          AList.update (st_name target) n (w_recovery_count (watch st4))\<rparr>\<rparr>;
                  st6 = emit (RecoveryLogged (st_name target) ok
                          (py_round 3 (dr_stop d - dr_start d)) n) st5
              in (Inr (), emit (BackoffSleep (recovery_backoff_seconds (w_config (watch st6)))) st6)))"

subsection \<open>The poll cycle\<close>

text \<open>One result of a probe round: the body of the loop in \<open>_tick\<close>.\<close>

definition handle_result :: "'w docker \<Rightarrow> health_result \<Rightarrow> 'w run_state \<Rightarrow> unit outcome \<times> 'w run_state" where
  "handle_result docker result st =
     (let name = st_name (hr_target result)
      in case map_of (w_runtimes (watch st)) name of
           None \<Rightarrow> (Inl (KeyError name), st)
         | Some rt \<Rightarrow>
             if hr_ok result
             then (Inr (),
                   set_runtime name (rt\<lparr>consecutive_failures := 0\<rparr>)
                     (if 0 < consecutive_failures rt
                      then emit (RecoveredPassively name (consecutive_failures rt)) st else st))
             else (let failures = consecutive_failures rt + 1;
                       rt1 = rt\<lparr>consecutive_failures := failures\<rparr>;
                       st1 = emit (HealthCheckFailed name failures (hr_detail result))
                               (set_runtime name rt1 st)
                   in if failure_threshold (w_config (watch st1)) \<le> failures
                      then recover docker name rt1 st1
                      else (Inr (), st1)))"

fun handle_results :: "'w docker \<Rightarrow> health_result list \<Rightarrow> 'w run_state \<Rightarrow> unit outcome \<times> 'w run_state" where
  "handle_results docker [] st = (Inr (), st)"
| "handle_results docker (r # rs) st =
     (case handle_result docker r st of
        (Inl e, st1) \<Rightarrow> (Inl e, st1)
      | (Inr _, st1) \<Rightarrow> handle_results docker rs st1)"

text \<open>\<open>_tick\<close>: one probe round, then its results in order. \<open>probe\<close> is the round's \<open>probe_all\<close>.\<close>

definition tick ::
  "'w docker \<Rightarrow> (service_target list \<Rightarrow> health_result list outcome) \<Rightarrow> 'w run_state
    \<Rightarrow> unit outcome \<times> 'w run_state" where
  "tick docker probe st =
     (case probe (w_targets (watch st)) of
        Inl e \<Rightarrow> (Inl e, st)
      | Inr rs \<Rightarrow> handle_results docker rs st)"

text \<open>
  \<open>run\<close>: poll until a stop is requested. A cycle is given by its probe round and by whether
  the stop event is set before the wait at its end is over; \<open>None\<close> means that the watcher is
  still running when the listed cycles are over.
\<close>

fun poll_loop ::
  "'w docker \<Rightarrow> ((service_target list \<Rightarrow> health_result list outcome) \<times> bool) list \<Rightarrow> 'w run_state
    \<Rightarrow> unit outcome option \<times> 'w run_state" where
  "poll_loop docker cycles st =
     (if w_stop (watch st) then (Some (Inr ()), emit WatcherStopped st)
      else case cycles of
             [] \<Rightarrow> (None, st)
           | (probe, stopped) # rest \<Rightarrow>
               (case tick docker probe st of
                  (Inl e, st1) \<Rightarrow> (Some (Inl e), st1)
                | (Inr _, st1) \<Rightarrow>
                    poll_loop docker rest
                      (if stopped then st1\<lparr>watch := request_stop (watch st1)\<rparr> else st1)))"

declare poll_loop.simps [simp del]

definition watcher_run ::
  "'w docker \<Rightarrow> ((service_target list \<Rightarrow> health_result list outcome) \<times> bool) list \<Rightarrow> 'w run_state
    \<Rightarrow> unit outcome option \<times> 'w run_state" where
  "watcher_run docker cycles st =
     poll_loop docker cycles
       (emit (WatcherStarted (map st_name (w_targets (watch st)))
                (poll_interval_seconds (w_config (watch st)))
                (failure_threshold (w_config (watch st)))) st)"

text \<open>
  The script: configure logging, build the watcher from the environment, run it. The result is the
  exit code, or the exception the process dies of; \<open>None\<close> as in \<open>poll_loop\<close>.
\<close>

definition start_watching :: "service_target list \<Rightarrow> watcher_config \<Rightarrow> 'w \<Rightarrow> 'w run_state" where
  "start_watching ts cfg w = \<lparr>watch = RecoveryWatcher ts cfg, world = w, trace = []\<rparr>"

definition recovery_main ::
  "environ \<Rightarrow> string option \<Rightarrow> 'w docker
    \<Rightarrow> ((service_target list \<Rightarrow> health_result list outcome) \<times> bool) list \<Rightarrow> 'w
    \<Rightarrow> int outcome option \<times> 'w run_state" where
  "recovery_main env which_docker docker cycles w =
     (let st = start_watching (default_targets env) (config_from_env env which_docker) w
      in case configure_logging env ''recovery'' of
           Inl e \<Rightarrow> (Some (Inl e), st)
         | Inr _ \<Rightarrow>
             (let (r, st') = watcher_run docker cycles st
              in (map_option (map_outcome (\<lambda>_. 0)) r, st')))"

subsection \<open>The abstract watcher\<close>

text \<open>One probe result seen by one service: its failure streak and its number of recoveries.\<close>

fun probe_spec :: "int \<Rightarrow> int \<times> nat \<Rightarrow> bool \<Rightarrow> int \<times> nat" where
  "probe_spec k (f, n) ok =
     (if ok then (0, n) else if k \<le> f + 1 then (0, n + 1) else (f + 1, n))"

type_synonym 'w spec_state = "(string \<Rightarrow> int \<times> nat) \<times> 'w"

definition recovery_spec ::
  "'w docker \<Rightarrow> (string \<rightharpoonup> service_target) \<Rightarrow> int \<Rightarrow> health_result \<Rightarrow> 'w spec_state \<Rightarrow> unit outcome \<times> 'w spec_state" where
  "recovery_spec docker tgt k r s =
     (let (a, w) = s; n = st_name (hr_target r)
      in if hr_ok r \<or> fst (a n) + 1 < k then (Inr (), a(n := probe_spec k (a n) (hr_ok r)), w)
         else case docker (container (the (tgt n))) w of
                (Inl e, w') \<Rightarrow> (Inl e, a(n := (fst (a n) + 1, snd (a n))), w')
              | (Inr _, w') \<Rightarrow> (Inr (), a(n := probe_spec k (a n) (hr_ok r)), w'))"

definition streak :: "watcher \<Rightarrow> string \<Rightarrow> int \<times> nat" where
  "streak w n =
     (case map_of (w_runtimes w) n of
        None \<Rightarrow> (0, 0)
      | Some rt \<Rightarrow> (consecutive_failures rt, length (rt_history rt)))"

definition abs_watch :: "'w run_state \<Rightarrow> 'w spec_state" where
  "abs_watch st = (streak (watch st), world st)"

text \<open>
  The invariant: the dictionary holds a runtime for exactly the watched names, each with the
  watched target; the recovery counters agree with the histories; and every recorded event is
  consistent.
\<close>

definition good_event :: "string \<Rightarrow> recovery_event \<Rightarrow> bool" where
  "good_event n e =
     (ev_service e = n \<and> action e = ''docker_start'' \<and> (success e \<longleftrightarrow> recovered_at e \<noteq> None))"

definition targets_by_name :: "service_target list \<Rightarrow> string \<rightharpoonup> service_target" where
  "targets_by_name ts = map_of (rev (map (\<lambda>t. (st_name t, t)) ts))"

definition watch_inv :: "(string \<rightharpoonup> service_target) \<Rightarrow> watcher_config \<Rightarrow> 'w run_state \<Rightarrow> bool" where
  "watch_inv tgt cfg st =
     (w_config (watch st) = cfg \<and>
      (\<forall>n. map_option rt_target (map_of (w_runtimes (watch st)) n) = tgt n) \<and>
      (\<forall>n t. tgt n = Some t \<longrightarrow> st_name t = n) \<and>
      (\<forall>n rt. map_of (w_runtimes (watch st)) n = Some rt \<longrightarrow>
         recovery_count (watch st) n = int (length (rt_history rt)) \<and>
         (\<forall>e\<in>set (rt_history rt). good_event n e)))"

definition watched :: "(string \<rightharpoonup> service_target) \<Rightarrow> health_result \<Rightarrow> bool" where
  "watched tgt r = (tgt (st_name (hr_target r)) \<noteq> None)"

lemma emit_simps [simp]:
  "watch (emit e st) = watch st" "world (emit e st) = world st" "trace (emit e st) = trace st @ [e]"
  by (simp_all add: emit_def)

lemma set_runtime_simps [simp]:
  "w_config (watch (set_runtime n rt st)) = w_config (watch st)"
  "w_recovery_count (watch (set_runtime n rt st)) = w_recovery_count (watch st)"
  "w_targets (watch (set_runtime n rt st)) = w_targets (watch st)"
  "w_stop (watch (set_runtime n rt st)) = w_stop (watch st)"
  "map_of (w_runtimes (watch (set_runtime n rt st))) = (map_of (w_runtimes (watch st)))(n \<mapsto> rt)"
  "world (set_runtime n rt st) = world st"
  "trace (set_runtime n rt st) = trace st"
  by (simp_all add: set_runtime_def update_conv')

lemma recovery_count_set_runtime [simp]:
  "recovery_count (watch (set_runtime n rt st)) m = recovery_count (watch st) m"
  by (simp add: recovery_count_def)

lemma docker_start_simps [simp]:
  "fst (docker_start c d st) = (dr_returncode d = 0)"
  "watch (snd (docker_start c d st)) = watch st"
  "world (snd (docker_start c d st)) = world st"
  by (simp_all add: docker_start_def)

lemma good_make_event [simp]: "good_event n (make_event n ok d)"
  by (simp add: good_event_def make_event_def)

lemmas recover_defs = recover_def Let_def

text \<open>What \<open>recover\<close> does to the watcher, by the outcome of the docker call.\<close>

lemma recover_raises:
  "docker (container (rt_target rt)) (world st) = (Inl e, w') \<Longrightarrow>
   recover docker name rt st =
     (Inl e, (emit (DockerStart (docker_bin (w_config (watch st))) (container (rt_target rt))) st)\<lparr>world := w'\<rparr>)"
  by (simp add: recover_defs)

lemma recover_done:
  assumes "docker (container (rt_target rt)) (world st) = (Inr d, w')"
  shows "fst (recover docker name rt st) = Inr ()"
    and "world (snd (recover docker name rt st)) = w'"
    and "w_config (watch (snd (recover docker name rt st))) = w_config (watch st)"
    and "map_of (w_runtimes (watch (snd (recover docker name rt st))))
          = (map_of (w_runtimes (watch st)))(name \<mapsto>
              rt\<lparr>rt_history := rt_history rt @ [make_event (st_name (rt_target rt)) (dr_returncode d = 0) d],
                 consecutive_failures := 0\<rparr>)"
    and "recovery_count (watch (snd (recover docker name rt st))) m
          = recovery_count (watch st) m + (if m = st_name (rt_target rt) then 1 else 0)"
  using assms
  by (auto simp: recover_defs docker_start_def recovery_count_def update_conv')

text \<open>The invariant read at one watched name, and the ways a step re-establishes it.\<close>

lemma watch_inv_runtime:
  assumes inv: "watch_inv tgt cfg st" and rt: "map_of (w_runtimes (watch st)) n = Some rt"
  shows "tgt n = Some (rt_target rt)" and "st_name (rt_target rt) = n"
    and "recovery_count (watch st) n = int (length (rt_history rt))"
    and "\<forall>e\<in>set (rt_history rt). good_event n e"
proof -
  from inv have "map_option rt_target (map_of (w_runtimes (watch st)) n) = tgt n"
    unfolding watch_inv_def by blast
  with rt show t: "tgt n = Some (rt_target rt)" by simp
  from inv t show "st_name (rt_target rt) = n" unfolding watch_inv_def by blast
  from inv rt show "recovery_count (watch st) n = int (length (rt_history rt))"
    and "\<forall>e\<in>set (rt_history rt). good_event n e"
    unfolding watch_inv_def by blast+
qed

lemma watched_runtime:
  assumes inv: "watch_inv tgt cfg st" and val: "watched tgt r"
  obtains rt where "map_of (w_runtimes (watch st)) (st_name (hr_target r)) = Some rt"
proof -
  from inv have "map_option rt_target (map_of (w_runtimes (watch st)) (st_name (hr_target r)))
      = tgt (st_name (hr_target r))"
    unfolding watch_inv_def by blast
  with val that show thesis unfolding watched_def by auto
qed

lemma watch_inv_step:
  assumes inv: "watch_inv tgt cfg st" and rt: "map_of (w_runtimes (watch st)) n = Some rt"
    and m: "map_of (w_runtimes (watch st')) = (map_of (w_runtimes (watch st)))(n \<mapsto> rt')"
    and c: "w_config (watch st') = w_config (watch st)" and t: "rt_target rt' = rt_target rt"
    and k: "\<And>x. recovery_count (watch st') x
              = (if x = n then int (length (rt_history rt')) else recovery_count (watch st) x)"
    and e: "\<forall>e\<in>set (rt_history rt'). good_event n e"
  shows "watch_inv tgt cfg st'"
  unfolding watch_inv_def
proof (intro conjI allI impI)
  show "w_config (watch st') = cfg" using inv c unfolding watch_inv_def by simp
next
  fix x
  show "map_option rt_target (map_of (w_runtimes (watch st')) x) = tgt x"
    using inv watch_inv_runtime(1) [OF inv rt] t unfolding watch_inv_def m by (cases "x = n") simp_all
next
  fix x y assume "tgt x = Some y"
  then show "st_name y = x" using inv unfolding watch_inv_def by blast
next
  fix x r assume r: "map_of (w_runtimes (watch st')) x = Some r"
  show "recovery_count (watch st') x = int (length (rt_history r))"
    using r k watch_inv_runtime(3) [OF inv, of x r] by (cases "x = n") (simp_all add: m)
  show "\<forall>e\<in>set (rt_history r). good_event x e"
    using r e watch_inv_runtime(4) [OF inv, of x r] by (cases "x = n") (simp_all add: m)
qed

lemma recover_inv:
  assumes inv: "watch_inv tgt cfg st" and rt: "map_of (w_runtimes (watch st)) n = Some rt"
  shows "watch_inv tgt cfg (snd (recover docker n rt st))"
proof (cases "docker (container (rt_target rt)) (world st)")
  case (Pair res w')
  note I = watch_inv_runtime [OF inv rt]
  show ?thesis
  proof (cases res)
    case (Inl e)
    from recover_raises [of docker rt st e w' n] Pair Inl inv show ?thesis by (simp add: watch_inv_def)
  next
    case (Inr d)
    note R = recover_done [of docker rt st d w' n, OF Pair [unfolded Inr]]
    show ?thesis
      by (rule watch_inv_step [OF inv rt R(4) R(3)]) (use I R(5) in auto)
  qed
qed

lemma handle_result_inv:
  assumes inv: "watch_inv tgt cfg st" and val: "watched tgt r"
  shows "watch_inv tgt cfg (snd (handle_result docker r st))"
proof -
  let ?n = "st_name (hr_target r)"
  from watched_runtime [OF inv val] obtain rt
    where rt: "map_of (w_runtimes (watch st)) ?n = Some rt" .
  note I = watch_inv_runtime [OF inv rt]
  have ok: "watch_inv tgt cfg (set_runtime ?n (rt\<lparr>consecutive_failures := 0\<rparr>) st')"
    if "watch st' = watch st" for st' :: "'a run_state"
    by (rule watch_inv_step [OF inv rt, where rt' = "rt\<lparr>consecutive_failures := 0\<rparr>"])
       (use that I in simp_all)
  let ?rt1 = "rt\<lparr>consecutive_failures := consecutive_failures rt + 1\<rparr>"
  let ?st1 = "emit (HealthCheckFailed ?n (consecutive_failures rt + 1) (hr_detail r)) (set_runtime ?n ?rt1 st)"
  have i1: "watch_inv tgt cfg ?st1"
    by (rule watch_inv_step [OF inv rt, where rt' = ?rt1]) (use I in simp_all)
  moreover have "watch_inv tgt cfg (snd (recover docker ?n ?rt1 ?st1))"
    by (rule recover_inv [OF i1]) simp
  ultimately show ?thesis using rt ok [of st] ok [of "emit e st" for e]
    by (simp add: handle_result_def Let_def)
qed

lemma handle_result_spec:
  assumes inv: "watch_inv tgt cfg st" and val: "watched tgt r"
  shows "recovery_spec docker tgt (failure_threshold cfg) r (abs_watch st)
       = (fst (handle_result docker r st), abs_watch (snd (handle_result docker r st)))"
proof -
  let ?n = "st_name (hr_target r)"
  from watched_runtime [OF inv val] obtain rt
    where rt: "map_of (w_runtimes (watch st)) ?n = Some rt" .
  note I = watch_inv_runtime [OF inv rt]
  have cfg: "w_config (watch st) = cfg" using inv unfolding watch_inv_def by blast
  have st: "streak (watch st) ?n = (consecutive_failures rt, length (rt_history rt))"
    using rt by (simp add: streak_def)
  let ?rt1 = "rt\<lparr>consecutive_failures := consecutive_failures rt + 1\<rparr>"
  let ?st1 = "emit (HealthCheckFailed ?n (consecutive_failures rt + 1) (hr_detail r)) (set_runtime ?n ?rt1 st)"
  obtain res w' where d: "docker (container (rt_target rt)) (world st) = (res, w')" by fastforce
  then have d1: "docker (container (rt_target ?rt1)) (world ?st1) = (res, w')" by simp
  show ?thesis
  proof (cases "hr_ok r \<or> consecutive_failures rt + 1 < failure_threshold cfg")
    case True
    then show ?thesis using rt cfg st
      by (auto simp: recovery_spec_def handle_result_def abs_watch_def streak_def Let_def fun_eq_iff)
  next
    case False
    then have h: "handle_result docker r st = recover docker ?n ?rt1 ?st1"
      using rt cfg by (simp add: handle_result_def Let_def)
    show ?thesis
    proof (cases res)
      case (Inl e)
      from recover_raises [of docker ?rt1 ?st1 e w' ?n] d1 False d Inl st I(1) show ?thesis
        by (simp add: recovery_spec_def h abs_watch_def streak_def fun_eq_iff)
    next
      case (Inr x)
      note R = recover_done [of docker ?rt1 ?st1 x w' ?n, OF d1 [unfolded Inr]]
      from False d Inr st I(1) R(1,2) show ?thesis
        by (simp add: recovery_spec_def h abs_watch_def streak_def fun_eq_iff R(4))
    qed
  qed
qed

interpretation watching: simulation "handle_result docker"
  "recovery_spec docker tgt (failure_threshold cfg)" abs_watch "watch_inv tgt cfg" "watched tgt"
  for docker tgt cfg
  by unfold_locales (auto simp: handle_result_inv handle_result_spec)

subsection \<open>From the initial state\<close>

lemma initial_runtimes_acc:
  "map_of (fold (\<lambda>t. AList.update (st_name t) (mk t)) ts al) n
     = (case map_of (rev (map (\<lambda>t. (st_name t, t)) ts)) n of None \<Rightarrow> map_of al n | Some t \<Rightarrow> Some (mk t))"
  by (induction ts arbitrary: al)
     (auto simp: update_conv' map_add_def split: option.splits)

lemma initial_runtimes:
  "map_of (w_runtimes (RecoveryWatcher ts cfg)) n
     = map_option (\<lambda>t. \<lparr>rt_target = t, consecutive_failures = 0, rt_history = []\<rparr>) (targets_by_name ts n)"
  by (simp add: RecoveryWatcher_def initial_runtimes_acc targets_by_name_def split: option.splits)

lemma targets_by_name_name: "targets_by_name ts n = Some t \<Longrightarrow> st_name t = n \<and> t \<in> set ts"
  by (auto simp: targets_by_name_def dest: map_of_SomeD)

lemma targets_by_name_member: "t \<in> set ts \<Longrightarrow> targets_by_name ts (st_name t) \<noteq> None"
  by (simp add: targets_by_name_def map_of_eq_None_iff image_image)

lemma start_inv: "watch_inv (targets_by_name ts) cfg (start_watching ts cfg w)"
  by (auto simp: watch_inv_def start_watching_def initial_runtimes recovery_count_def option.map_comp
      comp_def option.map_ident dest: targets_by_name_name)
     (simp_all add: RecoveryWatcher_def)

lemma start_abs: "abs_watch (start_watching ts cfg w) = (\<lambda>_. (0, 0), w)"
  by (auto simp: abs_watch_def start_watching_def streak_def initial_runtimes fun_eq_iff split: option.splits)

subsection \<open>Docker answers\<close>

text \<open>The docker binary starts: whatever its exit code, no exception.\<close>

definition docker_answers :: "'w docker \<Rightarrow> bool" where
  "docker_answers docker = (\<forall>c w. \<exists>d w'. docker c w = (Inr d, w'))"

lemma recovery_spec_answers:
  assumes "docker_answers docker"
  shows "fst (recovery_spec docker tgt k r s) = Inr ()"
    and "fst (snd (recovery_spec docker tgt k r s))
          = (fst s)(st_name (hr_target r) := probe_spec k (fst s (st_name (hr_target r))) (hr_ok r))"
proof -
  obtain d w' where "docker (container (the (tgt (st_name (hr_target r))))) (snd s) = (Inr d, w')"
    using assms unfolding docker_answers_def by blast
  then show "fst (recovery_spec docker tgt k r s) = Inr ()"
    and "fst (snd (recovery_spec docker tgt k r s))
          = (fst s)(st_name (hr_target r) := probe_spec k (fst s (st_name (hr_target r))) (hr_ok r))"
    by (cases s; auto simp: recovery_spec_def Let_def)+
qed

lemma run_spec_streak:
  "docker_answers docker \<Longrightarrow>
   fst (snd (run_ops (recovery_spec docker tgt k) rs s)) n
     = foldl (probe_spec k) (fst s n) (map hr_ok (filter (\<lambda>r. st_name (hr_target r) = n) rs))"
  by (induction rs arbitrary: s)
     (simp_all add: run_ops_Cons recovery_spec_answers del: run_ops.simps(2) probe_spec.simps)

lemma run_spec_answers:
  "docker_answers docker \<Longrightarrow> fst (run_ops (recovery_spec docker tgt k) rs s) = replicate (length rs) (Inr ())"
  by (induction rs arbitrary: s)
     (simp_all add: run_ops_Cons recovery_spec_answers del: run_ops.simps(2))

text \<open>Counting modulo the threshold.\<close>

lemma probe_spec_failures:
  assumes k: "1 \<le> k"
  shows "foldl (probe_spec k) (0, m) (replicate j False) = (int j mod k, m + nat (int j div k))"
proof (induction j)
  case (Suc j)
  have "foldl (probe_spec k) (0, m) (replicate (Suc j) False)
      = probe_spec k (int j mod k, m + nat (int j div k)) False"
    unfolding replicate_Suc replicate_append_same [symmetric] foldl_append Suc by simp
  also have "\<dots> = (int (Suc j) mod k, m + nat (int (Suc j) div k))"
  proof (cases "k \<le> int j mod k + 1")
    case True
    have "int j mod k < k" using k by simp
    with True have e: "int j mod k = k - 1" by linarith
    have "int (Suc j) = (int j div k) * k + (int j mod k) + 1"
      by (simp add: div_mult_mod_eq)
    also have "\<dots> = (int j div k + 1) * k" unfolding e by (simp add: algebra_simps)
    finally have s: "int (Suc j) = (int j div k + 1) * k" .
    have "0 \<le> int j div k" using k by (simp add: pos_imp_zdiv_nonneg_iff)
    then show ?thesis using True k unfolding s by (simp add: nat_add_distrib)
  next
    case False
    have p: "0 \<le> int j mod k" using k by simp
    have s: "int (Suc j) = (int j mod k + 1) + (int j div k) * k"
      using div_mult_mod_eq [of "int j" k] by simp
    have b: "(int j mod k + 1) mod k = int j mod k + 1" "(int j mod k + 1) div k = 0"
      using False p by simp_all
    have "int (Suc j) mod k = int j mod k + 1" unfolding s mod_mult_self1 b(1) ..
    moreover have "int (Suc j) div k = int j div k + (int j mod k + 1) div k"
      unfolding s by (rule div_mult_self1) (use k in simp)
    ultimately show ?thesis using False by (simp only: b) simp
  qed
  finally show ?case .
qed simp

lemma probe_spec_range:
  "1 \<le> k \<Longrightarrow> 0 \<le> fst s \<Longrightarrow> fst s < k \<Longrightarrow>
   0 \<le> fst (foldl (probe_spec k) s oks) \<and> fst (foldl (probe_spec k) s oks) < k"
proof (induction oks arbitrary: s)
  case (Cons b oks)
  have "0 \<le> fst (probe_spec k s b)" "fst (probe_spec k s b) < k"
    using Cons.prems by (cases s; auto)+
  with Cons show ?case by simp
qed simp

subsection \<open>Whole runs\<close>

lemma recover_frame:
  "w_targets (watch (snd (recover docker n rt st))) = w_targets (watch st) \<and>
   w_stop (watch (snd (recover docker n rt st))) = w_stop (watch st)"
  by (cases "docker (container (rt_target rt)) (world st)"; cases "fst (docker (container (rt_target rt)) (world st))")
     (auto simp: recover_defs docker_start_def)

lemma handle_result_frame:
  "w_targets (watch (snd (handle_result docker r st))) = w_targets (watch st) \<and>
   w_stop (watch (snd (handle_result docker r st))) = w_stop (watch st)"
  by (simp add: handle_result_def Let_def recover_frame split: option.splits)

lemma run_results_frame:
  "w_targets (watch (snd (run_ops (handle_result docker) rs st))) = w_targets (watch st) \<and>
   w_stop (watch (snd (run_ops (handle_result docker) rs st))) = w_stop (watch st)"
  by (induction rs arbitrary: st) (simp_all add: run_ops_Cons handle_result_frame del: run_ops.simps(2))

text \<open>With a docker that answers, the loop over a round's results handles them all.\<close>

lemma handle_results_run:
  "docker_answers docker \<Longrightarrow> watch_inv tgt cfg st \<Longrightarrow> list_all (watched tgt) rs \<Longrightarrow>
   handle_results docker rs st = (Inr (), snd (run_ops (handle_result docker) rs st))"
proof (induction rs arbitrary: st)
  case (Cons r rs)
  have val: "watched tgt r" using Cons.prems by simp
  have "fst (handle_result docker r st) = Inr ()"
    using handle_result_spec [OF Cons.prems(2) val, of docker]
      recovery_spec_answers(1) [OF Cons.prems(1), of tgt "failure_threshold cfg" r "abs_watch st"] by simp
  with Cons.IH [of "snd (handle_result docker r st)"] Cons.prems handle_result_inv [OF Cons.prems(2) val, of docker]
  show ?case
    by (cases "handle_result docker r st") (simp add: run_ops_Cons del: run_ops.simps(2))
qed simp

text \<open>The cycles that are polled: up to the first in which a stop is requested.\<close>

fun polled :: "('p \<times> bool) list \<Rightarrow> 'p list" where
  "polled [] = []"
| "polled ((p, stopped) # rest) = p # (if stopped then [] else polled rest)"

definition round_results :: "service_target list \<Rightarrow> (service_target list \<Rightarrow> health_result list outcome) \<Rightarrow> health_result list" where
  "round_results ts p = (case p ts of Inr rs \<Rightarrow> rs | Inl _ \<Rightarrow> [])"

lemma watch_inv_stop: "watch_inv tgt cfg (st\<lparr>watch := request_stop (watch st)\<rparr>) = watch_inv tgt cfg st"
  by (simp add: watch_inv_def request_stop_def recovery_count_def)

lemma abs_watch_stop: "abs_watch (st\<lparr>watch := request_stop (watch st)\<rparr>) = abs_watch st"
  by (simp add: abs_watch_def streak_def request_stop_def fun_eq_iff)

lemma poll_loop_stops:
  assumes "docker_answers docker"
  shows "watch_inv tgt cfg st \<Longrightarrow> \<not> w_stop (watch st) \<Longrightarrow> w_targets (watch st) = ts \<Longrightarrow>
    list_all (\<lambda>(p, s). \<exists>rs. p ts = Inr rs \<and> list_all (watched tgt) rs) cycles \<Longrightarrow>
    list_ex snd cycles \<Longrightarrow>
    \<exists>st'. poll_loop docker cycles st = (Some (Inr ()), emit WatcherStopped st')
      \<and> watch_inv tgt cfg st'
      \<and> abs_watch st' = snd (run_ops (recovery_spec docker tgt (failure_threshold cfg))
                              (concat (map (round_results ts) (polled cycles))) (abs_watch st))"
proof (induction cycles arbitrary: st)
  case (Cons c cycles)
  obtain p stopped where c: "c = (p, stopped)" by fastforce
  from Cons.prems c obtain rs where rs: "p ts = Inr rs" "list_all (watched tgt) rs" by auto
  let ?st1 = "snd (run_ops (handle_result docker) rs st)"
  have tick: "tick docker p st = (Inr (), ?st1)"
    using rs Cons.prems handle_results_run [OF assms Cons.prems(1) rs(2)] by (simp add: tick_def)
  have inv1: "watch_inv tgt cfg ?st1" by (rule watching.run_inv [OF Cons.prems(1) rs(2)])
  have abs1: "abs_watch ?st1
      = snd (run_ops (recovery_spec docker tgt (failure_threshold cfg)) rs (abs_watch st))"
    using watching.run_abs [OF Cons.prems(1) rs(2), of docker] by simp
  have frame: "\<not> w_stop (watch ?st1)" "w_targets (watch ?st1) = ts"
    using run_results_frame [of docker rs st] Cons.prems by auto
  show ?case
  proof (cases stopped)
    case True
    let ?st2 = "?st1\<lparr>watch := request_stop (watch ?st1)\<rparr>"
    have "poll_loop docker (c # cycles) st = poll_loop docker cycles ?st2"
      using Cons.prems tick c True by (subst poll_loop.simps) simp
    also have "\<dots> = (Some (Inr ()), emit WatcherStopped ?st2)"
      by (subst poll_loop.simps) (simp add: request_stop_def)
    finally show ?thesis using inv1 abs1 True c rs
      by (auto simp: watch_inv_stop abs_watch_stop round_results_def)
  next
    case False
    have step: "poll_loop docker (c # cycles) st = poll_loop docker cycles ?st1"
      using Cons.prems tick c False by (subst poll_loop.simps) simp
    have "list_ex snd cycles" using Cons.prems c False by simp
    then obtain st' where st': "poll_loop docker cycles ?st1 = (Some (Inr ()), emit WatcherStopped st')"
      "watch_inv tgt cfg st'"
      "abs_watch st' = snd (run_ops (recovery_spec docker tgt (failure_threshold cfg))
          (concat (map (round_results ts) (polled cycles))) (abs_watch ?st1))"
      using Cons.IH [OF inv1 frame] Cons.prems by auto
    have rr: "round_results ts p = rs" using rs by (simp add: round_results_def)
    show ?thesis
      by (rule exI [of _ st']) (use step st' abs1 c False rr in \<open>simp add: run_ops_append\<close>)
  qed
qed simp

text \<open>The results of one service in one round.\<close>

lemma results_of_service:
  "distinct (map st_name ts) \<Longrightarrow> t \<in> set ts \<Longrightarrow> map hr_target rs = ts \<Longrightarrow> map hr_ok rs = map f ts \<Longrightarrow>
   map hr_ok (filter (\<lambda>r. st_name (hr_target r) = st_name t) rs) = [f t]"
proof (induction ts arbitrary: rs)
  case (Cons x ts)
  then obtain r rs' where rs: "rs = r # rs'" by (cases rs) auto
  have none: "filter (\<lambda>r. st_name (hr_target r) = st_name x) rs' = []"
  proof -
    have "map hr_target rs' = ts" using Cons.prems(3) rs by simp
    then have "st_name (hr_target q) \<in> st_name ` set ts" if "q \<in> set rs'" for q
      using that by auto
    with Cons.prems(1) show ?thesis by (simp add: filter_empty_conv) metis
  qed
  show ?case
  proof (cases "t = x")
    case True
    with none Cons.prems rs show ?thesis by simp
  next
    case False
    with Cons.prems have "t \<in> set ts" "st_name x \<noteq> st_name t" by auto
    with Cons.IH [of rs'] Cons.prems rs show ?thesis by simp
  qed
qed simp

subsection \<open>Properties\<close>

text \<open>
  C3: the watcher implements its abstract specification. Started on any targets with any
  configuration and docker, and fed any sequence of probe results of watched services, the code
  returns (or raises) what the specification returns, and its counters and histories show the
  specification's failure streaks and recovery numbers.
\<close>

theorem watcher_refines_spec:
  assumes "list_all (watched (targets_by_name ts)) rs"
  shows "run_ops (recovery_spec docker (targets_by_name ts) (failure_threshold cfg)) rs (\<lambda>_. (0, 0), w)
       = (fst (run_ops (handle_result docker) rs (start_watching ts cfg w)),
          abs_watch (snd (run_ops (handle_result docker) rs (start_watching ts cfg w))))"
  using watching.run_abs [OF start_inv assms, of docker] by (simp add: start_abs)

text \<open>A sample: two services, a threshold of two, and a docker that counts its calls.\<close>

definition sample_targets :: "service_target list" where
  "sample_targets = [make_target ''a'' ''cm-a'' ''http://a/health'', make_target ''b'' ''cm-b'' ''http://b/health'']"

definition sample_config :: watcher_config where
  "sample_config = \<lparr>poll_interval_seconds = Fin 5, failure_threshold = 2,
                    recovery_backoff_seconds = Fin 2, docker_bin = ''docker''\<rparr>"

definition sample_reading :: "nat \<Rightarrow> docker_reading" where
  "sample_reading w = \<lparr>dr_returncode = (if w = 0 then 0 else 1), dr_stdout = [], dr_stderr = [],
     dr_detected = Datetime (10 + int w), dr_finished = Datetime (11 + int w), dr_start = Fin 0, dr_stop = Fin 1\<rparr>"

definition sample_docker :: "nat docker" where
  "sample_docker c w = (Inr (sample_reading w), w + 1)"

definition sample_result :: "nat \<Rightarrow> bool \<Rightarrow> health_result" where
  "sample_result i ok = \<lparr>hr_target = sample_targets ! i, hr_ok = ok, hr_detail = []\<rparr>"

lemmas sample_defs = sample_targets_def sample_config_def sample_docker_def sample_result_def make_target_def

lemma sample_docker_answers: "docker_answers sample_docker"
  by (simp add: docker_answers_def sample_docker_def)

lemma watcher_refines_spec_witness:
  "abs_watch (snd (run_ops (handle_result sample_docker)
      (map (sample_result 0) [False, False, True, False]) (start_watching sample_targets sample_config 0)))
   = ((\<lambda>_. (0, 0))(''a'' := (1, 1)), 1)"
  using watcher_refines_spec [of sample_targets "map (sample_result 0) [False, False, True, False]"
      sample_docker sample_config 0]
  by (simp add: watched_def targets_by_name_def recovery_spec_def sample_defs fun_upd_twist)

text \<open>
  C4: recovery happens at exactly every \<open>failure_threshold\<close>-th consecutive failure. With a
  threshold of at least one and a docker that starts, a service all of whose \<open>j\<close> probes
  failed has been started \<open>j div k\<close> times and stands at a streak of \<open>j mod k\<close>, whatever
  the other services did in between and whether or not the starts succeeded.
\<close>

theorem recovers_every_threshold_failures:
  assumes "1 \<le> failure_threshold cfg" and "docker_answers docker"
    and "list_all (watched (targets_by_name ts)) rs"
    and "map hr_ok (filter (\<lambda>r. st_name (hr_target r) = n) rs) = replicate j False"
  shows "streak (watch (snd (run_ops (handle_result docker) rs (start_watching ts cfg w)))) n
       = (int j mod failure_threshold cfg, nat (int j div failure_threshold cfg))"
proof -
  have "abs_watch (snd (run_ops (handle_result docker) rs (start_watching ts cfg w)))
      = snd (run_ops (recovery_spec docker (targets_by_name ts) (failure_threshold cfg)) rs (\<lambda>_. (0, 0), w))"
    using watching.run_abs [OF start_inv assms(3), of docker] by (simp add: start_abs)
  from arg_cong [OF this, of fst]
  have "streak (watch (snd (run_ops (handle_result docker) rs (start_watching ts cfg w)))) n
      = foldl (probe_spec (failure_threshold cfg)) (0, 0) (replicate j False)"
    by (simp add: abs_watch_def run_spec_streak [OF assms(2)] assms(4))
  then show ?thesis by (simp add: probe_spec_failures [OF assms(1)])
qed

lemma recovers_every_threshold_failures_witness:
  "streak (watch (snd (run_ops (handle_result sample_docker)
      [sample_result 0 False, sample_result 1 True, sample_result 0 False, sample_result 1 True, sample_result 0 False]
      (start_watching sample_targets sample_config 0)))) ''a'' = (1, 1)"
  using recovers_every_threshold_failures [of sample_config sample_docker sample_targets
      "[sample_result 0 False, sample_result 1 True, sample_result 0 False, sample_result 1 True, sample_result 0 False]"
      "''a''" 3 0]
  by (simp add: sample_docker_answers watched_def targets_by_name_def sample_targets_def sample_config_def
      sample_result_def make_target_def numeral_eq_Suc)

text \<open>
  C5: the watcher end to end. With a client that only fails with HTTP errors and a docker that
  starts, \<open>run\<close> polls until the first cycle in which a stop is requested, then logs its stop
  and returns; and each service's streak and number of recoveries are those of its own sequence
  of health answers, whatever order the concurrent probes finished in. A cycle is a client, the
  order of its probes, and whether a stop is requested.
\<close>

theorem watcher_run_stops:
  assumes "docker_answers docker" and "raises_on_error rfs"
    and "list_all (\<lambda>((get, _), _). http_client get) cycles" and "list_ex snd cycles"
    and "distinct (map st_name ts)" and "t \<in> set ts"
  shows "\<exists>st. watcher_run docker (map (\<lambda>((get, ord), stop). (probe_all rfs get ord, stop)) cycles) (start_watching ts cfg w)
           = (Some (Inr ()), emit WatcherStopped st)
       \<and> streak (watch st) (st_name t)
           = foldl (probe_spec (failure_threshold cfg)) (0, 0) (map (\<lambda>(get, _). answers_ok get t) (polled cycles))"
proof -
  let ?cs = "map (\<lambda>((get, ord), stop). (probe_all rfs get ord, stop)) cycles"
  let ?k = "failure_threshold cfg"
  let ?tgt = "targets_by_name ts"
  have verdicts: "\<exists>rs. probe_all rfs get ord ts = Inr rs \<and> map hr_target rs = ts
      \<and> map hr_ok rs = map (answers_ok get) ts" if "http_client get" for get ord
    by (rule probe_all_verdicts [OF assms(2) that])
  have watched: "list_all (watched ?tgt) rs" if "map hr_target rs = ts" for rs
    using that targets_by_name_member by (force simp: watched_def list_all_iff)
  have rounds: "list_all (\<lambda>(p, s). \<exists>rs. p ts = Inr rs \<and> list_all (watched ?tgt) rs) ?cs"
    using assms(3) verdicts watched by (fastforce simp: list_all_iff)
  have ex: "list_ex snd ?cs" using assms(4) by (force simp: list_ex_iff)
  have inv: "watch_inv ?tgt cfg (emit e (start_watching ts cfg w))" for e
    using start_inv [of ts cfg w] by (simp add: watch_inv_def recovery_count_def)
  have ab: "abs_watch (emit e (start_watching ts cfg w)) = (\<lambda>_. (0, 0), w)" for e
    using start_abs [of ts cfg w] by (simp add: abs_watch_def)
  have init: "\<not> w_stop (watch (emit e (start_watching ts cfg w)))"
    "w_targets (watch (emit e (start_watching ts cfg w))) = ts" for e
    by (simp_all add: start_watching_def RecoveryWatcher_def)
  obtain st where run: "watcher_run docker ?cs (start_watching ts cfg w) = (Some (Inr ()), emit WatcherStopped st)"
    and ast: "abs_watch st = snd (run_ops (recovery_spec docker ?tgt ?k)
        (concat (map (round_results ts) (polled ?cs))) (\<lambda>_. (0, 0), w))"
    using poll_loop_stops [OF assms(1) inv init rounds ex] unfolding watcher_run_def ab by blast
  have one: "map hr_ok (filter (\<lambda>r. st_name (hr_target r) = st_name t) (round_results ts (probe_all rfs get ord)))
      = [answers_ok get t]" if get: "http_client get" for get ord
  proof -
    obtain rs where "probe_all rfs get ord ts = Inr rs" "map hr_target rs = ts"
      "map hr_ok rs = map (answers_ok get) ts" using verdicts [OF get] by blast
    then show ?thesis using results_of_service [OF assms(5,6)] by (simp add: round_results_def)
  qed
  have "map hr_ok (filter (\<lambda>r. st_name (hr_target r) = st_name t) (concat (map (round_results ts) (polled ?cs))))
      = map (\<lambda>(get, _). answers_ok get t) (polled cycles)"
    using assms(3) by (induction cycles) (auto simp: one)
  moreover have "streak (watch st) (st_name t) = foldl (probe_spec ?k) (0, 0)
      (map hr_ok (filter (\<lambda>r. st_name (hr_target r) = st_name t) (concat (map (round_results ts) (polled ?cs)))))"
    using arg_cong [OF ast, of fst] by (simp add: abs_watch_def run_spec_streak [OF assms(1)])
  ultimately show ?thesis using run by auto
qed

lemma watcher_run_stops_witness:
  "\<exists>st. watcher_run sample_docker
      (map (\<lambda>((get, ord), stop). (probe_all plain_rfs get ord, stop))
         [((sample_get, [0, 1]), False), ((sample_get, [1, 0]), False), ((sample_get, [1, 0]), True), ((sample_get, []), False)])
      (start_watching sample_targets sample_config 0) = (Some (Inr ()), emit WatcherStopped st)
    \<and> streak (watch st) ''b'' = (1, 1)"
  using watcher_run_stops [of sample_docker plain_rfs
      "[((sample_get, [0, 1]), False), ((sample_get, [1, 0]), False), ((sample_get, [1, 0]), True), ((sample_get, []), False)]"
      sample_targets "make_target ''b'' ''cm-b'' ''http://b/health''" sample_config 0]
  by (auto simp: sample_docker_answers plain_rfs_raises sample_get_client sample_targets_def make_target_def
      sample_config_def answers_ok_def sample_get_def)

text \<open>The events of a step after the state it started in.\<close>

definition new_events :: "'w run_state \<Rightarrow> 'w run_state \<Rightarrow> watcher_event list" where
  "new_events st st' = drop (length (trace st)) (trace st')"

fun is_docker_start :: "watcher_event \<Rightarrow> bool" where
  "is_docker_start (DockerStart _ _) = True"
| "is_docker_start _ = False"

text \<open>
  Docker is started for a service exactly when its probe failed and its streak reaches the
  threshold: once, with the configured binary and the container of the watched target. A healthy
  probe, or a failure below the threshold, leaves the outside world alone.
\<close>

theorem docker_started_at_threshold:
  assumes "map_of (w_runtimes (watch st)) (st_name (hr_target r)) = Some rt"
  shows "filter is_docker_start (new_events st (snd (handle_result docker r st)))
       = (if hr_ok r \<or> consecutive_failures rt + 1 < failure_threshold (w_config (watch st)) then []
          else [DockerStart (docker_bin (w_config (watch st))) (container (rt_target rt))])
     \<and> world (snd (handle_result docker r st))
       = (if hr_ok r \<or> consecutive_failures rt + 1 < failure_threshold (w_config (watch st)) then world st
          else snd (docker (container (rt_target rt)) (world st)))"
proof -
  obtain res w' where d: "docker (container (rt_target rt)) (world st) = (res, w')" by fastforce
  show ?thesis
    using assms d
    by (cases res) (auto simp: new_events_def handle_result_def Let_def recover_defs docker_start_def)
qed

lemma docker_started_at_threshold_witness:
  "world (snd (handle_result sample_docker (sample_result 0 False)
     (set_runtime ''a'' \<lparr>rt_target = sample_targets ! 0, consecutive_failures = 1, rt_history = []\<rparr>
        (start_watching sample_targets sample_config 0)))) = 1"
  using docker_started_at_threshold [of
      "set_runtime ''a'' \<lparr>rt_target = sample_targets ! 0, consecutive_failures = 1, rt_history = []\<rparr>
        (start_watching sample_targets sample_config 0)" "sample_result 0 False"
      "\<lparr>rt_target = sample_targets ! 0, consecutive_failures = 1, rt_history = []\<rparr>" sample_docker]
  by (simp add: sample_defs start_watching_def RecoveryWatcher_def)

lemma handle_result_distinct:
  "distinct (map fst (w_runtimes (watch st))) \<Longrightarrow>
   distinct (map fst (w_runtimes (watch (snd (handle_result docker r st)))))"
  by (cases "docker (container (rt_target (the (map_of (w_runtimes (watch st)) (st_name (hr_target r)))))) (world st)";
      cases "fst (docker (container (rt_target (the (map_of (w_runtimes (watch st)) (st_name (hr_target r)))))) (world st))")
     (auto simp: handle_result_def Let_def recover_defs docker_start_def set_runtime_def emit_def distinct_update
       split: option.splits)

lemma run_distinct_runtimes:
  "distinct (map fst (w_runtimes (watch st))) \<Longrightarrow>
   distinct (map fst (w_runtimes (watch (snd (run_ops (handle_result docker) rs st)))))"
  by (induction rs arbitrary: st) (simp_all add: run_ops_Cons handle_result_distinct del: run_ops.simps(2))

lemma RecoveryWatcher_distinct: "distinct (map fst (w_runtimes (RecoveryWatcher ts cfg)))"
proof -
  have "distinct (map fst (fold (\<lambda>t. AList.update (st_name t) (mk t)) ts al))" if "distinct (map fst al)" for mk al
    using that by (induction ts arbitrary: al) (simp_all add: distinct_update)
  from this [of "[]" "\<lambda>t. \<lparr>rt_target = t, consecutive_failures = 0, rt_history = []\<rparr>"]
  show ?thesis by (simp add: RecoveryWatcher_def)
qed

text \<open>
  C29: the history. After any run from the initial state, \<open>history\<close> is sorted by detection
  time, every event in it belongs to a watched service, records a \<open>docker_start\<close>, and has a
  recovery time exactly if it succeeded.
\<close>

theorem history_sorted_and_consistent:
  assumes "list_all (watched (targets_by_name ts)) rs"
  shows "sorted (map detected_at (history (watch (snd (run_ops (handle_result docker) rs (start_watching ts cfg w))))))
    \<and> list_all (\<lambda>e. ev_service e \<in> st_name ` set ts \<and> action e = ''docker_start''
          \<and> (success e \<longleftrightarrow> recovered_at e \<noteq> None))
        (history (watch (snd (run_ops (handle_result docker) rs (start_watching ts cfg w)))))"
proof -
  let ?st = "snd (run_ops (handle_result docker) rs (start_watching ts cfg w))"
  have inv: "watch_inv (targets_by_name ts) cfg ?st" by (rule watching.run_inv [OF start_inv assms])
  have dist: "distinct (map fst (w_runtimes (watch ?st)))"
    by (rule run_distinct_runtimes) (simp add: start_watching_def RecoveryWatcher_distinct)
  have "ev_service e \<in> st_name ` set ts \<and> action e = ''docker_start'' \<and> (success e \<longleftrightarrow> recovered_at e \<noteq> None)"
    if "(n, rt) \<in> set (w_runtimes (watch ?st))" "e \<in> set (rt_history rt)" for n rt e
  proof -
    have m: "map_of (w_runtimes (watch ?st)) n = Some rt" using dist that(1) by simp
    note I = watch_inv_runtime [OF inv m]
    from I(1) have "rt_target rt \<in> set ts" by (rule targets_by_name_name [THEN conjunct2])
    with I(2,4) that(2) show ?thesis by (auto simp: good_event_def)
  qed
  then show ?thesis by (auto simp: history_def list_all_iff)
qed

lemma history_sorted_and_consistent_witness:
  "length (history (watch (snd (run_ops (handle_result sample_docker) (map (sample_result 0) [False, False, False, False])
      (start_watching sample_targets sample_config 0))))) = 2
   \<and> sorted (map detected_at (history (watch (snd (run_ops (handle_result sample_docker)
        (map (sample_result 0) [False, False, False, False]) (start_watching sample_targets sample_config 0))))))"
proof -
  have "list_all (watched (targets_by_name sample_targets)) (map (sample_result 0) [False, False, False, False])"
    by (simp add: watched_def targets_by_name_def sample_defs)
  note history_sorted_and_consistent [OF this, of sample_docker sample_config 0]
  moreover have "length (history (watch (snd (run_ops (handle_result sample_docker)
      (map (sample_result 0) [False, False, False, False]) (start_watching sample_targets sample_config 0))))) = 2"
    by code_simp
  ultimately show ?thesis by blast
qed

text \<open>
  Without a docker binary the watcher does not survive the first recovery it attempts. When
  every call of docker raises, the watcher of one service stops with that exception in the cycle
  of the service's \<open>failure_threshold\<close>-th failed probe, without recording a recovery and
  without logging its stop.
\<close>

theorem missing_docker_ends_watcher:
  assumes "1 \<le> failure_threshold cfg" and "\<And>c w. docker c w = (Inl e, w)"
  shows "\<exists>st. watcher_run docker
             (replicate (nat (failure_threshold cfg)) (\<lambda>_. Inr [\<lparr>hr_target = t, hr_ok = False, hr_detail = d\<rparr>], False) @ rest)
             (start_watching [t] cfg w) = (Some (Inl e), st)
         \<and> streak (watch st) (st_name t) = (failure_threshold cfg, 0)
         \<and> WatcherStopped \<notin> set (trace st)"
proof -
  let ?r = "\<lparr>hr_target = t, hr_ok = False, hr_detail = d\<rparr>"
  let ?k = "failure_threshold cfg"
  have loop: "\<exists>st'. poll_loop docker (replicate j (\<lambda>_. Inr [?r], False) @ rest) st = (Some (Inl e), st')
      \<and> streak (watch st') (st_name t) = (?k, 0) \<and> WatcherStopped \<notin> set (trace st')"
    if "map_of (w_runtimes (watch st)) (st_name t)
          = Some \<lparr>rt_target = t, consecutive_failures = f, rt_history = []\<rparr>"
      "w_config (watch st) = cfg" "\<not> w_stop (watch st)" "WatcherStopped \<notin> set (trace st)"
      "f + int j = ?k" "1 \<le> j" for j f st
    using that
  proof (induction j arbitrary: f st)
    case (Suc j)
    let ?rt = "\<lparr>rt_target = t, consecutive_failures = f + 1, rt_history = []\<rparr>"
    let ?st1 = "emit (HealthCheckFailed (st_name t) (f + 1) d) (set_runtime (st_name t) ?rt st)"
    show ?case
    proof (cases "j = 0")
      case True
      then have "handle_result docker ?r st = recover docker (st_name t) ?rt ?st1"
        using Suc.prems by (simp add: handle_result_def Let_def)
      with recover_raises [of docker ?rt ?st1 e "world ?st1" "st_name t"] assms(2) Suc.prems True
      show ?thesis
        by (subst poll_loop.simps) (simp add: tick_def streak_def)
    next
      case False
      have "handle_result docker ?r st = (Inr (), ?st1)"
        using Suc.prems False by (simp add: handle_result_def Let_def)
      moreover have "\<exists>st'. poll_loop docker (replicate j (\<lambda>_. Inr [?r], False) @ rest) ?st1 = (Some (Inl e), st')
          \<and> streak (watch st') (st_name t) = (?k, 0) \<and> WatcherStopped \<notin> set (trace st')"
        by (rule Suc.IH [of "?st1" "f + 1"]) (use Suc.prems False in simp_all)
      ultimately show ?thesis using Suc.prems
        by (subst poll_loop.simps) (simp add: tick_def)
    qed
  qed simp
  show ?thesis unfolding watcher_run_def
    by (rule loop [of _ 0]) (use assms(1) in \<open>simp_all add: start_watching_def RecoveryWatcher_def\<close>)
qed

lemma missing_docker_ends_watcher_witness:
  "\<exists>st. watcher_run (\<lambda>c w. (Inl (OtherException ''No such file''), w))
      (replicate 2 (\<lambda>_. Inr [sample_result 0 False], False)) (start_watching [sample_targets ! 0] sample_config (0 :: nat))
      = (Some (Inl (OtherException ''No such file'')), st)"
  using missing_docker_ends_watcher [of sample_config "\<lambda>c w. (Inl (OtherException ''No such file''), w)"
      "OtherException ''No such file''" "sample_targets ! 0" "[]" "[]" "0 :: nat"]
  by (auto simp: sample_config_def sample_result_def)

end
