(* ===== verification/Argparse.thy ===== *)
theory Argparse
  imports PyText
begin

text \<open>
  What the command-line scripts use of Python's \<open>argparse\<close>: long options that are flags
  (\<open>store_true\<close>) or take one value, the built-in help, unambiguous abbreviations, \<open>--name=value\<close>,
  and \<open>--\<close>. A parse ends in the process's exit status (0 after the help, 2 after an error) or in
  the options given, the last one first.

  An option is a name and its kind; \<open>TakesValue ok\<close> accepts the values for which \<open>ok\<close> holds (the
  \<open>type\<close> conversion succeeds).
\<close>

datatype opt_kind = Flag | TakesValue "string \<Rightarrow> bool"

type_synonym opt_spec = "(string \<times> opt_kind) list"

datatype token = Positional string | Option string "string option" | Ambiguous | Unknown | Dashes

definition all_names :: "opt_spec \<Rightarrow> string list" where
  "all_names spec = ''-h'' # ''--help'' # map fst spec"

text \<open>\<open>^-\d+$|^-\d*\.\d+$\<close>, the arguments that look like negative numbers.\<close>

definition negative_number :: "string \<Rightarrow> bool" where
  "negative_number a =
     (case a of
        [] \<Rightarrow> False
      | c # r \<Rightarrow>
          (let frac = dropWhile is_digit r
           in c = CHR ''-'' \<and>
              (if frac = [] then r \<noteq> []
               else hd frac = CHR ''.'' \<and> tl frac \<noteq> [] \<and> list_all is_digit (tl frac))))"

definition token_of :: "opt_spec \<Rightarrow> string \<Rightarrow> token" where
  "token_of spec a =
     (if \<not> starts_with ''-'' a then Positional a
      else if a \<in> set (all_names spec) then Option a None
      else if length a = 1 then Positional a
      else
        (let (name, v) = py_partition CHR ''='' a;
             explicit = (if CHR ''='' \<in> set a then Some v else None);
             candidates =
               (if starts_with ''--'' a then filter (starts_with name) (all_names spec)
                else if starts_with ''-h'' a then [''-h''] else [])
         in if explicit \<noteq> None \<and> name \<in> set (all_names spec) then Option name explicit
            else case candidates of
                   [n] \<Rightarrow> Option n (if starts_with ''--'' a then explicit else Some (drop 2 a))
                 | _ # _ # _ \<Rightarrow> Ambiguous
                 | [] \<Rightarrow> if negative_number a \<or> CHR '' '' \<in> set a then Positional a else Unknown))"

fun tokens :: "opt_spec \<Rightarrow> string list \<Rightarrow> token list" where
  "tokens spec [] = []"
| "tokens spec (a # rest) =
     (if a = ''--'' then Dashes # map Positional rest else token_of spec a # tokens spec rest)"

definition help_exit :: "string \<Rightarrow> string option \<Rightarrow> nat" where
  "help_exit n v =
     (case v of None \<Rightarrow> 0 | Some s \<Rightarrow> if n = ''-h'' \<and> list_all (\<lambda>c. c = CHR ''h'') s then 0 else 2)"

fun consume :: "opt_spec \<Rightarrow> bool \<Rightarrow> (string \<times> string) list \<Rightarrow> token list \<Rightarrow> nat + (string \<times> string) list" where
  "consume spec extras vals [] = (if extras then Inl 2 else Inr vals)"
| "consume spec extras vals (Option n explicit # ts) =
     (if n \<in> {''-h'', ''--help''} then Inl (help_exit n explicit)
      else case map_of spec n of
             None \<Rightarrow> consume spec True vals ts
           | Some Flag \<Rightarrow> if explicit = None then consume spec extras ((n, []) # vals) ts else Inl 2
           | Some (TakesValue ok) \<Rightarrow>
               (case (explicit, ts) of
                  (Some v, _) \<Rightarrow> if ok v then consume spec extras ((n, v) # vals) ts else Inl 2
                | (None, Positional v # ts') \<Rightarrow> if ok v then consume spec extras ((n, v) # vals) ts' else Inl 2
                | (None, Dashes # Positional v # ts') \<Rightarrow> if ok v then consume spec extras ((n, v) # vals) ts' else Inl 2
                | _ \<Rightarrow> Inl 2))"
| "consume spec extras vals (_ # ts) = consume spec True vals ts"

definition parse_argv :: "opt_spec \<Rightarrow> string list \<Rightarrow> nat + (string \<times> string) list" where
  "parse_argv spec argv =
     (if Ambiguous \<in> set (tokens spec argv) then Inl 2 else consume spec False [] (tokens spec argv))"

definition given :: "(string \<times> string) list \<Rightarrow> string \<Rightarrow> bool" where
  "given vals n = (map_of vals n \<noteq> None)"

definition value_or :: "(string \<times> string) list \<Rightarrow> string \<Rightarrow> string \<Rightarrow> string" where
  "value_or vals n d = (case map_of vals n of None \<Rightarrow> d | Some v \<Rightarrow> v)"

subsection \<open>Exact flags and values\<close>

lemma token_of_exact: "a \<in> set (all_names spec) \<Longrightarrow> starts_with ''-'' a \<Longrightarrow> token_of spec a = Option a None"
  by (simp add: token_of_def)

text \<open>Flags written out are collected in reverse order.\<close>

definition flag_names :: "opt_spec \<Rightarrow> string set" where
  "flag_names spec = {n. map_of spec n = Some Flag \<and> starts_with ''--'' n \<and> n \<noteq> ''--'' \<and> n \<noteq> ''--help''}"

lemma flag_name_known: "n \<in> flag_names spec \<Longrightarrow> n \<in> set (all_names spec) \<and> starts_with ''-'' n \<and> n \<noteq> ''-h''"
proof -
  assume n: "n \<in> flag_names spec"
  then have "map_of spec n = Some Flag" by (simp add: flag_names_def)
  then have "n \<in> fst ` set spec" by (force dest: map_of_SomeD)
  with n show ?thesis by (auto simp: flag_names_def all_names_def starts_with_iff)
qed

lemma tokens_flags:
  "set argv \<subseteq> flag_names spec \<Longrightarrow> tokens spec argv = map (\<lambda>n. Option n None) argv"
  by (induction argv) (auto simp: token_of_exact flag_name_known, auto simp: flag_names_def)

lemma consume_flags:
  "set argv \<subseteq> flag_names spec \<Longrightarrow>
   consume spec False vals (map (\<lambda>n. Option n None) argv) = Inr (map (\<lambda>n. (n, [])) (rev argv) @ vals)"
  using flag_name_known by (induction argv arbitrary: vals) (auto simp: flag_names_def)

lemma parse_flags:
  "set argv \<subseteq> flag_names spec \<Longrightarrow> parse_argv spec argv = Inr (map (\<lambda>n. (n, [])) (rev argv))"
  by (auto simp: parse_argv_def tokens_flags consume_flags)

lemma given_flags: "given (map (\<lambda>n. (n, [])) ns) n \<longleftrightarrow> n \<in> set ns"
  by (auto simp: given_def map_of_eq_None_iff image_image)

end
