(* ===== verification/Orchestrator.thy ===== *)
theory Orchestrator
  imports Recovery Argparse
begin

text \<open>
  \<^verbatim>\<open>orchestration/orchestrator.py\<close>: bring the stack up, wait until it is healthy, run the
  recovery watcher, tear the stack down.

  \<open>docker compose\<close> is an argument: a command over the world \<open>'w\<close> with the lines it prints and
  its exit code (or the exception of starting it); the watcher's \<open>docker\<close> works over the same
  world. \<open>rounds k\<close> is the probe round of the \<open>k\<close>-th attempt to find the stack healthy. The
  event list holds every compose command, log entry and pause in order.
\<close>

subsection \<open>Options\<close>

record orchestrator_options =
  bring_up :: bool
  tear_down :: bool

definition orch_spec :: opt_spec where
  "orch_spec = [(''--no-up'', Flag), (''--no-down'', Flag)]"

definition orch_parse_args :: "string list \<Rightarrow> nat + orchestrator_options" where
  "orch_parse_args argv =
     (case parse_argv orch_spec argv of
        Inl code \<Rightarrow> Inl code
      | Inr vals \<Rightarrow> Inr \<lparr>bring_up = \<not> given vals ''--no-up'', tear_down = \<not> given vals ''--no-down''\<rparr>)"

subsection \<open>Docker compose\<close>

type_synonym 'w compose = "string list \<Rightarrow> 'w \<Rightarrow> (string list \<times> int) outcome \<times> 'w"

datatype o_event =
    Compose "string list"
  | ComposeLine string string
  | ComposeUp
  | ComposeUpFailed int
  | ComposeDown
  | StackHealthy int
  | StackWaiting int "string list"
  | HealthPause pyfloat
  | StackFailed int
  | Watched watcher_event

fun join_words :: "string list \<Rightarrow> string" where
  "join_words [] = []"
| "join_words [w] = w"
| "join_words (w # ws) = w @ '' '' @ join_words ws"

text \<open>The command is run; its non-empty lines are logged; its exit code is the result.\<close>

definition docker_compose :: "'w compose \<Rightarrow> string list \<Rightarrow> 'w \<Rightarrow> o_event list \<times> int outcome \<times> 'w" where
  "docker_compose compose args w =
     (case compose args w of
        (Inl e, w') \<Rightarrow> ([Compose args], Inl e, w')
      | (Inr (ls, rc), w') \<Rightarrow>
          (Compose args # map (ComposeLine (join_words args)) (filter (\<lambda>l. l \<noteq> []) (map py_rstrip ls)), Inr rc, w'))"

subsection \<open>Waiting for the stack\<close>

function wait_loop ::
  "(int \<Rightarrow> service_target list \<Rightarrow> health_result list outcome) \<Rightarrow> service_target list \<Rightarrow> pyfloat \<Rightarrow> int \<Rightarrow> int
    \<Rightarrow> o_event list \<times> bool outcome" where
  "wait_loop rounds targets delay limit attempt =
     (if attempt \<le> limit
      then (case rounds attempt targets of
              Inl e \<Rightarrow> ([], Inl e)
            | Inr rs \<Rightarrow>
                (let failed = filter (\<lambda>r. \<not> hr_ok r) rs
                 in if failed = [] then ([StackHealthy attempt], Inr True)
                    else (let (evs, r) = wait_loop rounds targets delay limit (attempt + 1)
                          in (StackWaiting attempt (map (\<lambda>r. st_name (hr_target r)) failed) # HealthPause delay # evs, r))))
      else ([StackFailed limit], Inr False))"
  by pat_completeness auto
termination by (relation "measure (\<lambda>(rounds, targets, delay, limit, attempt). nat (limit + 1 - attempt))") auto

declare wait_loop.simps [simp del]

definition wait_until_healthy ::
  "environ \<Rightarrow> (int \<Rightarrow> service_target list \<Rightarrow> health_result list outcome) \<Rightarrow> o_event list \<times> bool outcome" where
  "wait_until_healthy env rounds = wait_loop rounds (default_targets env) (Fin 2) 30 1"

subsection \<open>The lifecycle\<close>

text \<open>The \<open>finally\<close> clause: an exception of the tear-down replaces the watcher's.\<close>

definition finish ::
  "'w compose \<Rightarrow> orchestrator_options \<Rightarrow> unit outcome \<Rightarrow> 'w \<Rightarrow> o_event list \<times> int outcome \<times> 'w" where
  "finish compose opts r w =
     (if tear_down opts
      then (case docker_compose compose [''down''] w of
              (evs, Inl e, w') \<Rightarrow> (ComposeDown # evs, Inl e, w')
            | (evs, Inr _, w') \<Rightarrow> (ComposeDown # evs, map_outcome (\<lambda>_. 0) r, w'))
      else ([], map_outcome (\<lambda>_. 0) r, w))"

text \<open>After the stack is up: wait, watch, finish. \<open>None\<close> means that the watcher is still running.\<close>

definition watch_stack ::
  "environ \<Rightarrow> string option \<Rightarrow> 'w compose \<Rightarrow> 'w docker
    \<Rightarrow> (int \<Rightarrow> service_target list \<Rightarrow> health_result list outcome)
    \<Rightarrow> ((service_target list \<Rightarrow> health_result list outcome) \<times> bool) list
    \<Rightarrow> orchestrator_options \<Rightarrow> 'w \<Rightarrow> o_event list \<times> int outcome option \<times> 'w" where
  "watch_stack env which_docker compose docker rounds cycles opts w =
     (let (evs1, healthy) = wait_until_healthy env rounds
      in case healthy of
           Inl e \<Rightarrow> (evs1, Some (Inl e), w)
         | Inr h \<Rightarrow>
             if \<not> h \<and> tear_down opts
             then (let (evs2, r, w') = docker_compose compose [''down''] w
                   in (evs1 @ evs2, Some (map_outcome (\<lambda>_. 1) r), w'))
             else (let (r, st) = watcher_run docker cycles
                                   (start_watching (default_targets env) (config_from_env env which_docker) w);
                       evs2 = evs1 @ map Watched (trace st)
                   in case r of
                        None \<Rightarrow> (evs2, None, world st)
                      | Some r \<Rightarrow>
                          (let (evs3, code, w') = finish compose opts r (world st)
                           in (evs2 @ evs3, Some code, w'))))"

definition orch_main ::
  "environ \<Rightarrow> string option \<Rightarrow> 'w compose \<Rightarrow> 'w docker
    \<Rightarrow> (int \<Rightarrow> service_target list \<Rightarrow> health_result list outcome)
    \<Rightarrow> ((service_target list \<Rightarrow> health_result list outcome) \<times> bool) list
    \<Rightarrow> orchestrator_options \<Rightarrow> 'w \<Rightarrow> o_event list \<times> int outcome option \<times> 'w" where
  "orch_main env which_docker compose docker rounds cycles opts w =
     (case configure_logging env ''orchestrator'' of
        Inl e \<Rightarrow> ([], Some (Inl e), w)
      | Inr _ \<Rightarrow>
          if bring_up opts
          then (let (evs, r, w1) = docker_compose compose [''up'', ''-d'', ''--build''] w
                in case r of
                     Inl e \<Rightarrow> (ComposeUp # evs, Some (Inl e), w1)
                   | Inr rc \<Rightarrow>
                       if rc \<noteq> 0 then (ComposeUp # evs @ [ComposeUpFailed rc], Some (Inr rc), w1)
                       else (let (evs', res) = watch_stack env which_docker compose docker rounds cycles opts w1
                             in (ComposeUp # evs @ evs', res)))
          else watch_stack env which_docker compose docker rounds cycles opts w)"

subsection \<open>Facts\<close>

text \<open>Whether the stack is up (or was not to be brought up), and whether no probe of the wait raised.\<close>

definition comes_up :: "orchestrator_options \<Rightarrow> 'w compose \<Rightarrow> 'w \<Rightarrow> bool" where
  "comes_up opts compose w =
     (\<not> bring_up opts
      \<or> (case fst (compose [''up'', ''-d'', ''--build''] w) of Inl _ \<Rightarrow> False | Inr (_, rc) \<Rightarrow> rc = 0))"

definition verdict_reached ::
  "environ \<Rightarrow> (int \<Rightarrow> service_target list \<Rightarrow> health_result list outcome) \<Rightarrow> bool" where
  "verdict_reached env rounds = (case snd (wait_until_healthy env rounds) of Inl _ \<Rightarrow> False | Inr _ \<Rightarrow> True)"

definition compose_calls :: "o_event list \<Rightarrow> string list list" where
  "compose_calls evs = concat (map (\<lambda>e. case e of Compose args \<Rightarrow> [args] | _ \<Rightarrow> []) evs)"

definition pauses :: "o_event list \<Rightarrow> nat" where
  "pauses evs = length (filter (\<lambda>e. case e of HealthPause _ \<Rightarrow> True | _ \<Rightarrow> False) evs)"

lemma compose_calls_simps [simp]:
  "compose_calls [] = []" "compose_calls (a @ b) = compose_calls a @ compose_calls b"
  "compose_calls (Compose args # evs) = args # compose_calls evs"
  "compose_calls (ComposeUp # evs) = compose_calls evs" "compose_calls (ComposeDown # evs) = compose_calls evs"
  "compose_calls (ComposeUpFailed rc # evs) = compose_calls evs"
  "compose_calls (StackHealthy k # evs) = compose_calls evs" "compose_calls (StackFailed k # evs) = compose_calls evs"
  "compose_calls (StackWaiting k ns # evs) = compose_calls evs" "compose_calls (HealthPause d # evs) = compose_calls evs"
  "compose_calls (map Watched ws) = []" "compose_calls (map (ComposeLine op) ls) = []"
  by (simp_all add: compose_calls_def comp_def)

lemma compose_calls_docker_compose [simp]: "compose_calls (fst (docker_compose compose args w)) = [args]"
  by (auto simp: docker_compose_def split: prod.splits sum.splits)

lemma compose_calls_wait: "compose_calls (fst (wait_loop rounds ts d n a)) = []"
proof (induction rounds ts d n a rule: wait_loop.induct)
  case (1 rounds ts d n a)
  show ?case
    by (subst wait_loop.simps) (use 1 in \<open>auto simp: Let_def split: sum.splits prod.splits\<close>)
qed

lemma compose_calls_finish:
  "compose_calls (fst (finish compose opts r w)) = (if tear_down opts then [[''down'']] else [])"
  using compose_calls_docker_compose [of compose "[''down'']" w]
  by (auto simp: finish_def simp del: compose_calls_docker_compose split: prod.splits sum.splits)

text \<open>The polling loop, over the verdicts of its rounds.\<close>

lemma wait_loop_verdict:
  assumes "\<And>k. \<exists>rs. rounds k ts = Inr rs \<and> map hr_ok rs = map (ok k) ts"
  shows "snd (wait_loop rounds ts d n a) = Inr (list_ex (\<lambda>k. list_all (ok k) ts) [a..n])
       \<and> pauses (fst (wait_loop rounds ts d n a)) \<le> nat (n + 1 - a)"
proof (induction "nat (n + 1 - a)" arbitrary: a)
  case 0
  then have "n < a" by linarith
  then show ?case by (subst (1 2) wait_loop.simps) (simp add: pauses_def)
next
  case (Suc m)
  then have a: "a \<le> n" and m: "m = nat (n + 1 - (a + 1))" by linarith+
  obtain rs where rs: "rounds a ts = Inr rs" "map hr_ok rs = map (ok a) ts" using assms by blast
  have all: "filter (\<lambda>r. \<not> hr_ok r) rs = [] \<longleftrightarrow> list_all (ok a) ts"
  proof -
    have "filter (\<lambda>r. \<not> hr_ok r) rs = [] \<longleftrightarrow> list_all id (map hr_ok rs)"
      by (auto simp: filter_empty_conv list_all_iff)
    also have "\<dots> \<longleftrightarrow> list_all (ok a) ts" unfolding rs(2) by (simp add: list_all_iff)
    finally show ?thesis .
  qed
  note IH = Suc.hyps(1) [OF m]
  obtain evs r where w: "wait_loop rounds ts d n (a + 1) = (evs, r)" by fastforce
  show ?case
  proof (cases "list_all (ok a) ts")
    case True
    with a rs(1) all show ?thesis
      by (subst (1 2) wait_loop.simps) (simp add: Let_def pauses_def upto_rec1 [of a n])
  next
    case False
    have "wait_loop rounds ts d n a
        = (StackWaiting a (map (\<lambda>r. st_name (hr_target r)) (filter (\<lambda>r. \<not> hr_ok r) rs)) # HealthPause d # evs, r)"
      using a rs(1) all False w by (subst wait_loop.simps) (simp add: Let_def)
    moreover have "nat (n + 1 - a) = Suc (nat (n - a))" using a by linarith
    ultimately show ?thesis using IH w False a
      by (simp add: pauses_def upto_rec1 [of a n])
  qed
qed

subsection \<open>Properties\<close>

text \<open>
  C32: waiting for the stack. With clients that only fail with HTTP errors,
  \<open>_wait_until_healthy\<close> answers, and answers yes exactly if in one of the 30 rounds every service
  answered with a success status; it pauses at most 30 times.
\<close>

theorem wait_until_healthy_correct:
  assumes "raises_on_error rfs" and "\<And>k. http_client (gets k)"
  shows "snd (wait_until_healthy env (\<lambda>k. probe_all rfs (gets k) (ords k)))
           = Inr (list_ex (\<lambda>k. list_all (answers_ok (gets k)) (default_targets env)) [1..30])
       \<and> pauses (fst (wait_until_healthy env (\<lambda>k. probe_all rfs (gets k) (ords k)))) \<le> 30"
proof -
  have "\<exists>rs. probe_all rfs (gets k) (ords k) (default_targets env) = Inr rs
      \<and> map hr_ok rs = map (answers_ok (gets k)) (default_targets env)" for k
    using probe_all_verdicts [OF assms(1,2)] by blast
  from wait_loop_verdict [where rounds = "\<lambda>k. probe_all rfs (gets k) (ords k)" and ts = "default_targets env" and a = 1 and n = 30 and d = "Fin 2" and ok = "\<lambda>k. answers_ok (gets k)", OF this]
  show ?thesis by (simp add: wait_until_healthy_def)
qed

lemma watch_stack_calls:
  assumes "watch_stack env which_docker compose docker rounds cycles opts w = (evs, Some r, w')"
  shows "compose_calls evs = (if tear_down opts \<and> verdict_reached env rounds then [[''down'']] else [])"
proof -
  obtain evs1 healthy where w1: "wait_until_healthy env rounds = (evs1, healthy)" by fastforce
  have "compose_calls (fst (wait_until_healthy env rounds)) = []"
    by (simp add: wait_until_healthy_def compose_calls_wait)
  then have e1: "compose_calls evs1 = []" by (simp add: w1)
  show ?thesis
  proof (cases healthy)
    case (Inl e)
    with assms w1 e1 show ?thesis by (simp add: watch_stack_def verdict_reached_def)
  next
    case (Inr h)
    show ?thesis
    proof (cases "\<not> h \<and> tear_down opts")
      case True
      with assms w1 e1 Inr compose_calls_docker_compose [of compose "[''down'']" w] show ?thesis
        by (auto simp: watch_stack_def verdict_reached_def simp del: compose_calls_docker_compose split: prod.splits)
    next
      case False
      with assms w1 e1 Inr compose_calls_finish [of compose opts] show ?thesis
        by (auto simp: watch_stack_def verdict_reached_def Let_def split: prod.splits option.splits) (metis fst_conv)+
    qed
  qed
qed

text \<open>
  C18: the compose commands. However an orchestrator ends, it has run \<open>compose up\<close> exactly
  once, and first, if it was to bring the stack up, and after it \<open>compose down\<close> exactly once if
  it was to tear the stack down, unless \<open>compose up\<close> failed or a probe of the wait raised: then the
  stack is left as it is. With \<open>--no-up\<close> and \<open>--no-down\<close> the command in question is never run.
\<close>

theorem compose_lifecycle:
  assumes "configure_logging env ''orchestrator'' = Inr c"
    and "orch_main env which_docker compose docker rounds cycles opts w = (evs, Some r, w')"
  shows "compose_calls evs = (if bring_up opts then [[''up'', ''-d'', ''--build'']] else [])
                           @ (if tear_down opts \<and> comes_up opts compose w \<and> verdict_reached env rounds
                              then [[''down'']] else [])"
proof (cases "bring_up opts")
  case False
  with assms have "watch_stack env which_docker compose docker rounds cycles opts w = (evs, Some r, w')"
    by (simp add: orch_main_def)
  from watch_stack_calls [OF this] False show ?thesis by (simp add: comes_up_def)
next
  case True
  obtain res w1 where up: "compose [''up'', ''-d'', ''--build''] w = (res, w1)" by fastforce
  show ?thesis
  proof (cases "comes_up opts compose w")
    case False
    with assms True up show ?thesis
      by (auto simp: orch_main_def comes_up_def docker_compose_def split: sum.splits if_splits)
  next
    case ok: True
    with True up obtain ls where res: "res = Inr (ls, 0)" by (auto simp: comes_up_def split: sum.splits)
    obtain evs' where watch: "watch_stack env which_docker compose docker rounds cycles opts w1 = (evs', Some r, w')"
      and "compose_calls evs = [''up'', ''-d'', ''--build''] # compose_calls evs'"
      using assms True up res by (auto simp: orch_main_def docker_compose_def split: prod.splits)
    with watch_stack_calls [OF watch] True ok show ?thesis by simp
  qed
qed

text \<open>
  The command line. Any number of \<open>--no-up\<close> and \<open>--no-down\<close>, in any order, is accepted and
  switches off exactly the named parts.
\<close>

theorem orchestrator_flags:
  assumes "list_all (\<lambda>a. a = ''--no-up'' \<or> a = ''--no-down'') argv"
  shows "orch_parse_args argv
       = Inr \<lparr>bring_up = (''--no-up'' \<notin> set argv), tear_down = (''--no-down'' \<notin> set argv)\<rparr>"
proof -
  have "set argv \<subseteq> flag_names orch_spec"
    using assms by (auto simp: list_all_iff flag_names_def orch_spec_def)
  then show ?thesis by (simp add: orch_parse_args_def parse_flags given_flags)
qed

lemma orchestrator_flags_witness:
  "orch_parse_args [''--no-down''] = Inr \<lparr>bring_up = True, tear_down = False\<rparr>"
  using orchestrator_flags [of "[''--no-down'']"] by simp

lemma orchestrator_flags_ambiguous: "orch_parse_args [''--no''] = Inl 2"
  by code_simp

text \<open>
  A failed \<open>compose up\<close>. Its exit code is the orchestrator's, nothing else is run, and in
  particular nothing is torn down.
\<close>

theorem compose_up_failure:
  assumes "configure_logging env ''orchestrator'' = Inr c" and "bring_up opts"
    and "compose [''up'', ''-d'', ''--build''] w = (Inr (ls, rc), w1)" and "rc \<noteq> 0"
  shows "snd (orch_main env which_docker compose docker rounds cycles opts w) = (Some (Inr rc), w1)
       \<and> compose_calls (fst (orch_main env which_docker compose docker rounds cycles opts w)) = [[''up'', ''-d'', ''--build'']]"
  using assms by (simp add: orch_main_def docker_compose_def)

subsection \<open>Witnesses\<close>

definition late_get :: "int \<Rightarrow> string \<Rightarrow> http_response outcome" where
  "late_get k u = (if k < 2 then Inl (RequestError ''refused'') else Inr \<lparr>status_code = 200, body = Inr JNull\<rparr>)"

lemma late_get_client: "http_client (late_get k)"
  by (simp add: http_client_def late_get_def)

lemma wait_until_healthy_correct_witness:
  "snd (wait_until_healthy (\<lambda>_. None) (\<lambda>k. probe_all plain_rfs (late_get k) [])) = Inr True"
proof -
  have "list_ex (\<lambda>k. list_all (answers_ok (late_get k)) (default_targets (\<lambda>_. None))) [1..30]"
    by (rule list_ex_iff [THEN iffD2], rule bexI [of _ 2])
       (simp_all add: list_all_iff answers_ok_def late_get_def is_success_def)
  with wait_until_healthy_correct [OF plain_rfs_raises late_get_client, where env = "\<lambda>_. None" and ords = "\<lambda>_. []"]
  show ?thesis by simp
qed

definition sample_compose :: "nat compose" where
  "sample_compose args w = (Inr ([''ok''], if args = [''up'', ''-d'', ''--build''] then int w else 0), w)"

definition healthy_round :: "service_target list \<Rightarrow> health_result list outcome" where
  "healthy_round ts = Inr (map (\<lambda>t. \<lparr>hr_target = t, hr_ok = True, hr_detail = ''ok''\<rparr>) ts)"

definition all_parts :: orchestrator_options where
  "all_parts = \<lparr>bring_up = True, tear_down = True\<rparr>"

lemma logging_configured: "\<exists>c. configure_logging (\<lambda>_. None) ''orchestrator'' = Inr c"
proof -
  have "configure_logging (\<lambda>_. None) ''orchestrator'' = Inr \<lparr>lg_service = ''orchestrator'', lg_level = 20\<rparr>"
    by code_simp
  then show ?thesis by blast
qed

lemma compose_up_failure_witness:
  "fst (snd (orch_main (\<lambda>_. None) None sample_compose sample_docker (\<lambda>_. healthy_round) [] all_parts 3)) = Some (Inr 3)"
proof -
  obtain c where "configure_logging (\<lambda>_. None) ''orchestrator'' = Inr c" using logging_configured by blast
  from compose_up_failure [OF this, of all_parts sample_compose 3 "[''ok'']" 3 3] show ?thesis
    by (simp add: all_parts_def sample_compose_def)
qed

definition both_runs :: "nat \<Rightarrow> o_event list \<times> int outcome option \<times> nat" where
  "both_runs = orch_main (\<lambda>_. None) None sample_compose sample_docker (\<lambda>_. healthy_round) [(healthy_round, True)] all_parts"

text \<open>In the world 0 the stack comes up; in the world 3 \<open>compose up\<close> ends with 3.\<close>

lemma compose_lifecycle_witness:
  "fst (snd (both_runs 0)) = Some (Inr 0) \<and> compose_calls (fst (both_runs 0)) = [[''up'', ''-d'', ''--build''], [''down'']]
   \<and> fst (snd (both_runs 3)) = Some (Inr 3) \<and> compose_calls (fst (both_runs 3)) = [[''up'', ''-d'', ''--build'']]"
proof -
  obtain c where c: "configure_logging (\<lambda>_. None) ''orchestrator'' = Inr c" using logging_configured by blast
  have ends: "snd (both_runs 0) = (Some (Inr 0), 0)" "snd (both_runs 3) = (Some (Inr 3), 3)" by code_simp+
  have ok: "verdict_reached (\<lambda>_. None) (\<lambda>_. healthy_round)" by code_simp
  have runs: "both_runs 0 = (fst (both_runs 0), Some (Inr 0), 0)" "both_runs 3 = (fst (both_runs 3), Some (Inr 3), 3)"
    by (simp_all add: ends prod_eq_iff)
  from compose_lifecycle [OF c runs(1) [unfolded both_runs_def]] compose_lifecycle [OF c runs(2) [unfolded both_runs_def]]
  show ?thesis using ok ends by (simp add: both_runs_def all_parts_def comes_up_def sample_compose_def)
qed

end
