(* ===== verification/Injector.thy ===== *)
theory Injector
  imports Interfaces "HOL-Library.List_Lexorder"
begin

text \<open>
  \<^verbatim>\<open>services/fault-injector/app/injector.py\<close>: the state of the chaos plane and the
  controller of the containers.

  \<open>fault_state\<close> is \<open>FaultState\<close> with its lock; an operation is \<open>None\<close> while it waits for the
  lock, and validates its argument before it takes it. The docker SDK is a record of functions over
  a world \<open>'w\<close>: finding a container, stopping, starting and inspecting it; each may raise. The
  controller returns dictionaries of a fixed shape, which are records here.

  The interpretation \<open>fault\<close> of \<open>simulation\<close> shows that the state implements two plain
  variables; \<open>fault_inv\<close> is its invariant.
\<close>

subsection \<open>Latency and error rate\<close>

record fault_state =
  latency_ms :: int
  error_rate :: pyfloat
  fault_lock :: bool

definition FaultState :: fault_state where
  "FaultState = \<lparr>latency_ms = 0, error_rate = Fin 0, fault_lock = False\<rparr>"

definition set_fault_lock :: "bool \<Rightarrow> fault_state \<Rightarrow> fault_state" where
  "set_fault_lock b s = s\<lparr>fault_lock := b\<rparr>"

definition fault_locked :: "(fault_state \<Rightarrow> 'a \<times> fault_state) \<Rightarrow> fault_state \<Rightarrow> ('a \<times> fault_state) option" where
  "fault_locked sect s = lock_section fault_lock set_fault_lock sect s"

definition set_latency :: "int \<Rightarrow> fault_state \<Rightarrow> (unit outcome \<times> fault_state) option" where
  "set_latency duration_ms s =
     (if duration_ms < 0 then Some (Inl (ValueError ''duration_ms must be >= 0''), s)
      else fault_locked (\<lambda>s. (Inr (), s\<lparr>latency_ms := duration_ms\<rparr>)) s)"

definition set_error_rate :: "pyfloat \<Rightarrow> fault_state \<Rightarrow> (unit outcome \<times> fault_state) option" where
  "set_error_rate rate s =
     (if \<not> (Fin 0 \<le> rate \<and> rate \<le> Fin 1) then Some (Inl (ValueError ''rate must be in [0.0, 1.0]''), s)
      else fault_locked (\<lambda>s. (Inr (), s\<lparr>error_rate := rate\<rparr>)) s)"

definition fault_snapshot :: "fault_state \<Rightarrow> ((int \<times> pyfloat) \<times> fault_state) option" where
  "fault_snapshot s = fault_locked (\<lambda>s. ((latency_ms s, error_rate s), s)) s"

text \<open>\<open>rand\<close> is what \<open>random.random()\<close> returns.\<close>

definition maybe_fail :: "pyfloat \<Rightarrow> fault_state \<Rightarrow> (bool \<times> fault_state) option" where
  "maybe_fail rand s = fault_locked (\<lambda>s. (rand < error_rate s, s)) s"

interpretation faults: mutex fault_lock set_fault_lock
  by unfold_locales (simp add: set_fault_lock_def)

definition fault_inv :: "fault_state \<Rightarrow> bool" where
  "fault_inv s =
     (\<not> fault_lock s \<and> 0 \<le> latency_ms s \<and> Fin 0 \<le> error_rate s \<and> error_rate s \<le> Fin 1)"

lemma fault_locked_free:
  assumes "\<not> fault_lock s"
  shows "fault_locked sect s =
     Some (fst (sect (s\<lparr>fault_lock := True\<rparr>)), (snd (sect (s\<lparr>fault_lock := True\<rparr>)))\<lparr>fault_lock := False\<rparr>)"
  unfolding fault_locked_def
  using faults.section_result [of s sect "fst (sect (set_fault_lock True s))" "snd (sect (set_fault_lock True s))"] assms
  by (simp add: set_fault_lock_def)

lemma fault_lock_idle [simp]: "\<not> fault_lock s \<Longrightarrow> s\<lparr>fault_lock := False\<rparr> = s"
  by (cases s) simp

lemmas fault_ops = set_latency_def set_error_rate_def fault_snapshot_def maybe_fail_def

text \<open>The operations, and two plain variables that behave like them.\<close>

datatype fault_op = SetLatency int | SetErrorRate pyfloat | Snapshot | MaybeFail pyfloat

datatype fault_reply = Done "unit outcome" | State int pyfloat | Verdict bool | Blocked

fun fault_step :: "fault_op \<Rightarrow> fault_state \<Rightarrow> fault_reply \<times> fault_state" where
  "fault_step (SetLatency d) s = (case set_latency d s of None \<Rightarrow> (Blocked, s) | Some (r, s') \<Rightarrow> (Done r, s'))"
| "fault_step (SetErrorRate p) s = (case set_error_rate p s of None \<Rightarrow> (Blocked, s) | Some (r, s') \<Rightarrow> (Done r, s'))"
| "fault_step Snapshot s = (case fault_snapshot s of None \<Rightarrow> (Blocked, s) | Some ((l, p), s') \<Rightarrow> (State l p, s'))"
| "fault_step (MaybeFail x) s = (case maybe_fail x s of None \<Rightarrow> (Blocked, s) | Some (b, s') \<Rightarrow> (Verdict b, s'))"

fun fault_spec :: "fault_op \<Rightarrow> int \<times> pyfloat \<Rightarrow> fault_reply \<times> (int \<times> pyfloat)" where
  "fault_spec (SetLatency d) (l, p) =
     (if 0 \<le> d then (Done (Inr ()), (d, p)) else (Done (Inl (ValueError ''duration_ms must be >= 0'')), (l, p)))"
| "fault_spec (SetErrorRate q) (l, p) =
     (if Fin 0 \<le> q \<and> q \<le> Fin 1 then (Done (Inr ()), (l, q))
      else (Done (Inl (ValueError ''rate must be in [0.0, 1.0]'')), (l, p)))"
| "fault_spec Snapshot (l, p) = (State l p, (l, p))"
| "fault_spec (MaybeFail x) (l, p) = (Verdict (x < p), (l, p))"

definition fault_abs :: "fault_state \<Rightarrow> int \<times> pyfloat" where
  "fault_abs s = (latency_ms s, error_rate s)"

lemma fault_step_inv: "fault_inv s \<Longrightarrow> fault_inv (snd (fault_step x s))"
  by (cases x) (auto simp: fault_ops fault_inv_def fault_locked_free)

lemma fault_step_abs:
  "fault_inv s \<Longrightarrow> fault_spec x (fault_abs s) = (fst (fault_step x s), fault_abs (snd (fault_step x s)))"
  by (cases x) (auto simp: fault_ops fault_inv_def fault_abs_def fault_locked_free)

interpretation fault: simulation fault_step fault_spec fault_abs fault_inv "\<lambda>_. True"
  by unfold_locales (simp_all add: fault_step_inv fault_step_abs)

lemma fault_inv_init: "fault_inv FaultState"
  by (simp add: fault_inv_def FaultState_def)

subsection \<open>Containers\<close>

record 'w docker_sdk =
  sdk_get :: "string \<Rightarrow> 'w \<Rightarrow> unit outcome \<times> 'w"
  sdk_stop :: "string \<Rightarrow> int \<Rightarrow> 'w \<Rightarrow> unit outcome \<times> 'w"
  sdk_start :: "string \<Rightarrow> 'w \<Rightarrow> unit outcome \<times> 'w"
  sdk_status :: "string \<Rightarrow> 'w \<Rightarrow> string outcome \<times> 'w"

text \<open>\<open>sorted(set)\<close> and the \<open>repr\<close> of a list of strings, for the error message.\<close>

definition py_repr_list :: "string list \<Rightarrow> string" where
  "py_repr_list xs =
     ''['' @ (case xs of [] \<Rightarrow> [] | y # ys \<Rightarrow> py_repr y @ concat (map (\<lambda>z. '', '' @ py_repr z) ys)) @ '']''"

definition check_target :: "string set option \<Rightarrow> string \<Rightarrow> unit outcome" where
  "check_target allow_targets t =
     (case allow_targets of
        None \<Rightarrow> Inr ()
      | Some allowed \<Rightarrow>
          if t \<notin> allowed
          then Inl (PermissionError (''target '' @ py_repr t @ '' not in allow-list ''
                                      @ py_repr_list (sorted_list_of_set allowed)))
          else Inr ())"

record container_result =
  cr_target :: string
  cr_action :: string
  cr_ok :: bool
  cr_detail :: string

definition container_failure :: "string \<Rightarrow> string \<Rightarrow> exn \<Rightarrow> container_result outcome" where
  "container_failure t act e =
     (case e of
        DockerNotFound _ \<Rightarrow> Inr \<lparr>cr_target = t, cr_action = act, cr_ok = False, cr_detail = ''container not found''\<rparr>
      | DockerAPIError m \<Rightarrow> Inr \<lparr>cr_target = t, cr_action = act, cr_ok = False, cr_detail = m\<rparr>
      | _ \<Rightarrow> Inl e)"

definition stop_sync :: "'w docker_sdk \<Rightarrow> string \<Rightarrow> int \<Rightarrow> 'w \<Rightarrow> container_result outcome \<times> 'w" where
  "stop_sync sdk t timeout w =
     (case sdk_get sdk t w of
        (Inl e, w1) \<Rightarrow> (container_failure t ''stop'' e, w1)
      | (Inr _, w1) \<Rightarrow>
          (case sdk_stop sdk t timeout w1 of
             (Inl e, w2) \<Rightarrow> (container_failure t ''stop'' e, w2)
           | (Inr _, w2) \<Rightarrow>
               (Inr \<lparr>cr_target = t, cr_action = ''stop'', cr_ok = True, cr_detail = ''stopped''\<rparr>, w2)))"

definition start_sync :: "'w docker_sdk \<Rightarrow> string \<Rightarrow> 'w \<Rightarrow> container_result outcome \<times> 'w" where
  "start_sync sdk t w =
     (case sdk_get sdk t w of
        (Inl e, w1) \<Rightarrow> (container_failure t ''start'' e, w1)
      | (Inr _, w1) \<Rightarrow>
          (case sdk_start sdk t w1 of
             (Inl e, w2) \<Rightarrow> (container_failure t ''start'' e, w2)
           | (Inr _, w2) \<Rightarrow>
               (Inr \<lparr>cr_target = t, cr_action = ''start'', cr_ok = True, cr_detail = ''started''\<rparr>, w2)))"

definition stop :: "'w docker_sdk \<Rightarrow> string set option \<Rightarrow> string \<Rightarrow> int \<Rightarrow> 'w \<Rightarrow> container_result outcome \<times> 'w" where
  "stop sdk allow_targets t timeout w =
     (case check_target allow_targets t of Inl e \<Rightarrow> (Inl e, w) | Inr _ \<Rightarrow> stop_sync sdk t timeout w)"

definition start :: "'w docker_sdk \<Rightarrow> string set option \<Rightarrow> string \<Rightarrow> 'w \<Rightarrow> container_result outcome \<times> 'w" where
  "start sdk allow_targets t w =
     (case check_target allow_targets t of Inl e \<Rightarrow> (Inl e, w) | Inr _ \<Rightarrow> start_sync sdk t w)"

record status_report =
  st_target :: string
  st_status :: string
  st_detail :: "string option"

definition status :: "'w docker_sdk \<Rightarrow> string \<Rightarrow> 'w \<Rightarrow> status_report outcome \<times> 'w" where
  "status sdk t w =
     (let report = (\<lambda>s d. Inr \<lparr>st_target = t, st_status = s, st_detail = d\<rparr>);
          failed = (\<lambda>e. case e of DockerNotFound _ \<Rightarrow> report ''missing'' None
                                | DockerAPIError m \<Rightarrow> report ''error'' (Some m)
                                | _ \<Rightarrow> Inl e)
      in case sdk_get sdk t w of
           (Inl e, w1) \<Rightarrow> (failed e, w1)
         | (Inr _, w1) \<Rightarrow>
             (case sdk_status sdk t w1 of
                (Inl e, w2) \<Rightarrow> (failed e, w2)
              | (Inr s, w2) \<Rightarrow> (report s None, w2)))"

subsection \<open>What the controller guarantees\<close>

text \<open>
  A guarded controller: \<open>act\<close> performs an action on a container over a world. What the handlers
  rely on is that a target outside the allow-list is refused without touching the world, and that
  docker's own errors come back as results.
\<close>

locale guarded_action =
  fixes act :: "string set option \<Rightarrow> string \<Rightarrow> 'w \<Rightarrow> container_result outcome \<times> 'w"
    and raw :: "string \<Rightarrow> 'w \<Rightarrow> container_result outcome \<times> 'w"
  assumes act_refused: "t \<notin> allowed \<Longrightarrow> \<exists>m. act (Some allowed) t w = (Inl (PermissionError m), w)"
    and act_allowed: "t \<in> allowed \<Longrightarrow> act (Some allowed) t w = raw t w"
    and raw_docker: "raw t w \<noteq> (Inl (DockerNotFound m), w') \<and> raw t w \<noteq> (Inl (DockerAPIError m), w')"
    and raw_target: "raw t w = (Inr r, w') \<Longrightarrow> cr_target r = t"
begin

lemma changes_allowed_only: "snd (act (Some allowed) t w) \<noteq> w \<Longrightarrow> t \<in> allowed"
  using act_refused [of t allowed w] by fastforce

lemma act_target: "act (Some allowed) t w = (Inr r, w') \<Longrightarrow> t \<in> allowed \<and> cr_target r = t"
  using act_refused [of t allowed w] act_allowed [of t allowed w] raw_target by fastforce

end

lemma container_failure_docker:
  "container_failure t a e \<noteq> Inl (DockerNotFound m) \<and> container_failure t a e \<noteq> Inl (DockerAPIError m)"
  by (cases e) (auto simp: container_failure_def)

lemma container_failure_target: "container_failure t a e = Inr r \<Longrightarrow> cr_target r = t"
  by (cases e) (auto simp: container_failure_def)

interpretation stopping: guarded_action "\<lambda>allow t. stop sdk allow t timeout" "\<lambda>t. stop_sync sdk t timeout"
  for sdk timeout
  by unfold_locales
     (auto simp: stop_def check_target_def stop_sync_def container_failure_docker
       dest: container_failure_target split: prod.splits sum.splits)

interpretation starting: guarded_action "start sdk" "start_sync sdk" for sdk
  by unfold_locales
     (auto simp: start_def check_target_def start_sync_def container_failure_docker
       dest: container_failure_target split: prod.splits sum.splits)

end
