(* ===== verification/FaultInjector.thy ===== *)
theory FaultInjector
  imports Injector FastapiApp PyRepr
begin

text \<open>
  \<^verbatim>\<open>services/fault-injector/app/main.py\<close>: the handlers of the chaos control plane, over
  the fault state and the docker world of \<open>Injector\<close>. The clock (\<open>now\<close>) and the random draw
  are arguments. A handler returns \<open>None\<close> while it waits for the lock of the fault state.
\<close>

definition allowed_targets :: "string set" where
  "allowed_targets = {''cm-api-gateway'', ''cm-service-a'', ''cm-service-b'', ''cm-cpp-worker''}"

definition normalise_target :: "string \<Rightarrow> string" where
  "normalise_target t = (if starts_with ''cm-'' t then t else ''cm-'' @ t)"

subsection \<open>Docker handlers\<close>

text \<open>What both docker handlers do with the outcome of the controller.\<close>

definition docker_response ::
  "string \<Rightarrow> datetime \<Rightarrow> container_result outcome \<times> 'w \<Rightarrow> fault_response outcome \<times> 'w" where
  "docker_response t now r =
     (case fst r of
        Inl (PermissionError m) \<Rightarrow> Inl (HTTPException 403 m)
      | Inl e \<Rightarrow> Inl e
      | Inr res \<Rightarrow> Inr \<lparr>fp_kind = KILL, fp_target = t, fp_accepted = cr_ok res, fp_detail = cr_detail res,
                       fp_timestamp = now\<rparr>, snd r)"

definition inject_kill ::
  "'w docker_sdk \<Rightarrow> datetime \<Rightarrow> fault_request \<Rightarrow> 'w \<Rightarrow> fault_response outcome \<times> 'w" where
  "inject_kill sdk now req w =
     (let t = normalise_target (fr_target req)
      in docker_response t now (stop sdk (Some allowed_targets) t 5 w))"

definition inject_restart ::
  "'w docker_sdk \<Rightarrow> datetime \<Rightarrow> fault_request \<Rightarrow> 'w \<Rightarrow> fault_response outcome \<times> 'w" where
  "inject_restart sdk now req w =
     (let t = normalise_target (fr_target req)
      in docker_response t now (start sdk (Some allowed_targets) t w))"

definition target_status :: "'w docker_sdk \<Rightarrow> string \<Rightarrow> 'w \<Rightarrow> status_report outcome \<times> 'w" where
  "target_status sdk name w = status sdk (normalise_target name) w"

subsection \<open>Fault handlers\<close>

definition inject_latency ::
  "datetime \<Rightarrow> fault_request \<Rightarrow> fault_state \<Rightarrow> (fault_response outcome \<times> fault_state) option" where
  "inject_latency now req s =
     map_option (\<lambda>(r, s').
        (map_outcome (\<lambda>_. \<lparr>fp_kind = LATENCY, fp_target = fr_target req, fp_accepted = True,
                           fp_detail = ''latency_ms='' @ show_int (fr_duration_ms req), fp_timestamp = now\<rparr>) r, s'))
       (set_latency (fr_duration_ms req) s)"

definition inject_error ::
  "datetime \<Rightarrow> fault_request \<Rightarrow> fault_state \<Rightarrow> (fault_response outcome \<times> fault_state) option" where
  "inject_error now req s =
     map_option (\<lambda>(r, s').
        (map_outcome (\<lambda>_. \<lparr>fp_kind = ERROR, fp_target = fr_target req, fp_accepted = True,
                           fp_detail = ''error_rate='' @ float_repr (fr_error_rate req), fp_timestamp = now\<rparr>) r, s'))
       (set_error_rate (fr_error_rate req) s)"

definition list_faults :: "fault_state \<Rightarrow> (json \<times> fault_state) option" where
  "list_faults s =
     map_option (\<lambda>((l, p), s'). (JObj [(''latency_ms'', JInt l), (''error_rate'', JFloat p)], s')) (fault_snapshot s)"

text \<open>\<open>GET /slow\<close>: the seconds slept, if any, and the answer.\<close>

definition slow :: "fault_state \<Rightarrow> ((pyfloat list \<times> json outcome) \<times> fault_state) option" where
  "slow s =
     map_option (\<lambda>((duration_ms, _), s').
        (if 0 < duration_ms
         then (case and_then (float_of_int duration_ms) (\<lambda>d. py_div d (Fin 1000)) of
                 Inl e \<Rightarrow> ([], Inl e)
               | Inr secs \<Rightarrow> ([secs], Inr (JObj [(''slept_ms'', JInt duration_ms)])))
         else ([], Inr (JObj [(''slept_ms'', JInt duration_ms)])), s'))
       (fault_snapshot s)"

text \<open>\<open>GET /broken\<close>: the status and the body.\<close>

definition broken :: "pyfloat \<Rightarrow> fault_state \<Rightarrow> ((nat \<times> json) \<times> fault_state) option" where
  "broken rand s =
     map_option (\<lambda>(failing, s').
        (if failing then (500, JObj [(''detail'', JStr ''deliberate failure'')])
         else (200, JObj [(''status'', JStr ''ok'')]), s'))
       (maybe_fail rand s)"

subsection \<open>The service\<close>

datatype i_request =
    Kill fault_request | Restart fault_request | Latency fault_request | ErrorRate fault_request
  | ListFaults | Slow | Broken pyfloat | TargetStatus string

record 'w i_state =
  faults_of :: fault_state
  docker_of :: 'w

text \<open>One request; the answers of the different handlers are kept apart.\<close>

datatype i_reply =
    Fault "fault_response outcome"
  | Json "json outcome"
  | Status "status_report outcome"
  | Page nat json
  | Waiting

definition i_dispatch ::
  "'w docker_sdk \<Rightarrow> datetime \<Rightarrow> i_request \<Rightarrow> 'w i_state \<Rightarrow> i_reply \<times> 'w i_state" where
  "i_dispatch sdk now req st =
     (let f = faults_of st; w = docker_of st
      in case req of
           Kill r \<Rightarrow> (let (x, w') = inject_kill sdk now r w in (Fault x, st\<lparr>docker_of := w'\<rparr>))
         | Restart r \<Rightarrow> (let (x, w') = inject_restart sdk now r w in (Fault x, st\<lparr>docker_of := w'\<rparr>))
         | TargetStatus n \<Rightarrow> (let (x, w') = target_status sdk n w in (Status x, st\<lparr>docker_of := w'\<rparr>))
         | Latency r \<Rightarrow> (case inject_latency now r f of None \<Rightarrow> (Waiting, st) | Some (x, f') \<Rightarrow> (Fault x, st\<lparr>faults_of := f'\<rparr>))
         | ErrorRate r \<Rightarrow> (case inject_error now r f of None \<Rightarrow> (Waiting, st) | Some (x, f') \<Rightarrow> (Fault x, st\<lparr>faults_of := f'\<rparr>))
         | ListFaults \<Rightarrow> (case list_faults f of None \<Rightarrow> (Waiting, st) | Some (j, f') \<Rightarrow> (Json (Inr j), st\<lparr>faults_of := f'\<rparr>))
         | Slow \<Rightarrow> (case slow f of None \<Rightarrow> (Waiting, st) | Some ((_, j), f') \<Rightarrow> (Json j, st\<lparr>faults_of := f'\<rparr>))
         | Broken x \<Rightarrow> (case broken x f of None \<Rightarrow> (Waiting, st) | Some ((c, j), f') \<Rightarrow> (Page c j, st\<lparr>faults_of := f'\<rparr>)))"

subsection \<open>Facts\<close>

lemma normalise_idem [simp]: "normalise_target (normalise_target t) = normalise_target t"
  by (simp add: normalise_target_def)

lemma normalise_prefixed: "\<exists>s. normalise_target t = ''cm-'' @ s"
proof (cases "starts_with ''cm-'' t")
  case True
  then obtain s where "t = ''cm-'' @ s" by (auto simp: starts_with_iff)
  then show ?thesis by (auto simp: normalise_target_def starts_with_iff)
qed (auto simp: normalise_target_def)

lemma docker_response_snd [simp]: "snd (docker_response t now r) = snd r"
  by (simp add: docker_response_def)

lemma docker_response_refused: "docker_response t now (Inl (PermissionError m), w) = (Inl (HTTPException 403 m), w)"
  by (simp add: docker_response_def)

text \<open>The fault handlers on a free state.\<close>

lemma fault_handlers:
  assumes "fault_inv s"
  shows "inject_latency now req s =
      Some (if 0 \<le> fr_duration_ms req
            then (Inr \<lparr>fp_kind = LATENCY, fp_target = fr_target req, fp_accepted = True,
                       fp_detail = ''latency_ms='' @ show_int (fr_duration_ms req), fp_timestamp = now\<rparr>,
                  s\<lparr>latency_ms := fr_duration_ms req\<rparr>)
            else (Inl (ValueError ''duration_ms must be >= 0''), s))"
    and "inject_error now req s =
      Some (if Fin 0 \<le> fr_error_rate req \<and> fr_error_rate req \<le> Fin 1
            then (Inr \<lparr>fp_kind = ERROR, fp_target = fr_target req, fp_accepted = True,
                       fp_detail = ''error_rate='' @ float_repr (fr_error_rate req), fp_timestamp = now\<rparr>,
                  s\<lparr>error_rate := fr_error_rate req\<rparr>)
            else (Inl (ValueError ''rate must be in [0.0, 1.0]''), s))"
    and "list_faults s = Some (JObj [(''latency_ms'', JInt (latency_ms s)), (''error_rate'', JFloat (error_rate s))], s)"
    and "broken rand s = Some (if rand < error_rate s then (500, JObj [(''detail'', JStr ''deliberate failure'')])
                               else (200, JObj [(''status'', JStr ''ok'')]), s)"
    and "\<exists>r. slow s = Some (r, s)"
  using assms
  by (auto simp: inject_latency_def inject_error_def list_faults_def broken_def slow_def fault_ops
      fault_inv_def fault_locked_free)

lemma i_dispatch_inv:
  assumes "fault_inv (faults_of st)"
  shows "fault_inv (faults_of (snd (i_dispatch sdk now req st))) \<and> fst (i_dispatch sdk now req st) \<noteq> Waiting"
proof (cases req)
  case Slow
  obtain sl j where "slow (faults_of st) = Some ((sl, j), faults_of st)"
    using fault_handlers(5) [OF assms] by (metis surj_pair)
  with Slow assms show ?thesis by (simp add: i_dispatch_def)
qed (use assms in \<open>auto simp: i_dispatch_def Let_def fault_handlers fault_inv_def split: prod.splits\<close>)

text \<open>The docker handlers keep whatever the SDK keeps on the allowed containers.\<close>

definition sdk_keeps :: "('w \<Rightarrow> bool) \<Rightarrow> 'w docker_sdk \<Rightarrow> bool" where
  "sdk_keeps P sdk =
     ((\<forall>t w. P w \<longrightarrow> P (snd (sdk_get sdk t w)) \<and> P (snd (sdk_status sdk t w))) \<and>
      (\<forall>t\<in>allowed_targets. \<forall>n w. P w \<longrightarrow> P (snd (sdk_stop sdk t n w)) \<and> P (snd (sdk_start sdk t w))))"

lemma stop_sync_keeps:
  assumes "sdk_keeps P sdk" and "t \<in> allowed_targets" and "P w"
  shows "P (snd (stop_sync sdk t n w))" and "P (snd (start_sync sdk t w))"
proof -
  have get: "P (snd (sdk_get sdk t w))" using assms by (simp add: sdk_keeps_def)
  then have "P (snd (sdk_stop sdk t n (snd (sdk_get sdk t w))))" "P (snd (sdk_start sdk t (snd (sdk_get sdk t w))))"
    using assms by (simp_all add: sdk_keeps_def)
  with get show "P (snd (stop_sync sdk t n w))" "P (snd (start_sync sdk t w))"
    by (auto simp: stop_sync_def start_sync_def split: prod.splits sum.splits)
qed

lemma docker_handlers_keep:
  assumes "sdk_keeps P sdk" and "P w"
  shows "P (snd (inject_kill sdk now req w))" and "P (snd (inject_restart sdk now req w))"
    and "P (snd (target_status sdk name w))"
proof -
  let ?t = "normalise_target (fr_target req)"
  show "P (snd (inject_kill sdk now req w))"
  proof (cases "?t \<in> allowed_targets")
    case True
    with stop_sync_keeps(1) [OF assms(1) True assms(2)] show ?thesis
      by (simp add: inject_kill_def Let_def stopping.act_allowed)
  next
    case False
    from stopping.act_refused [OF False, of sdk 5 w] assms(2) show ?thesis by (auto simp: inject_kill_def)
  qed
  show "P (snd (inject_restart sdk now req w))"
  proof (cases "?t \<in> allowed_targets")
    case True
    with stop_sync_keeps(2) [OF assms(1) True assms(2)] show ?thesis
      by (simp add: inject_restart_def Let_def starting.act_allowed)
  next
    case False
    from starting.act_refused [OF False, of sdk w] assms(2) show ?thesis by (auto simp: inject_restart_def)
  qed
  have get: "P (snd (sdk_get sdk t w))" "P w' \<Longrightarrow> P (snd (sdk_status sdk t w'))" for t w'
    using assms by (simp_all add: sdk_keeps_def)
  show "P (snd (target_status sdk name w))"
    using get(1) [of "normalise_target name"] get(2) [of "snd (sdk_get sdk (normalise_target name) w)" "normalise_target name"]
    by (auto simp: target_status_def status_def Let_def split: prod.splits sum.splits)
qed

lemma i_dispatch_keeps:
  "sdk_keeps P sdk \<Longrightarrow> P (docker_of st) \<Longrightarrow> P (docker_of (snd (i_dispatch sdk now req st)))"
  using docker_handlers_keep [of P sdk "docker_of st"]
  by (cases req) (auto simp: i_dispatch_def Let_def split: prod.splits option.splits, (metis snd_conv)+)

subsection \<open>Properties\<close>

text \<open>
  C19: the allow-list. \<open>POST /inject/kill\<close> and \<open>POST /inject/restart\<close> act on exactly the four
  containers of the list, under their bare or prefixed names, and answer with what docker did; for
  any other target they answer 403 and do not touch docker.
\<close>

theorem inject_allow_list:
  "(\<exists>m. inject_kill sdk now req w =
      (if normalise_target (fr_target req) \<in> allowed_targets
       then docker_response (normalise_target (fr_target req)) now
              (stop_sync sdk (normalise_target (fr_target req)) 5 w)
       else (Inl (HTTPException 403 m), w)))
   \<and> (\<exists>m. inject_restart sdk now req w =
      (if normalise_target (fr_target req) \<in> allowed_targets
       then docker_response (normalise_target (fr_target req)) now
              (start_sync sdk (normalise_target (fr_target req)) w)
       else (Inl (HTTPException 403 m), w)))"
proof (cases "normalise_target (fr_target req) \<in> allowed_targets")
  case True
  then show ?thesis by (simp add: inject_kill_def inject_restart_def Let_def stopping.act_allowed starting.act_allowed)
next
  case False
  from stopping.act_refused [OF False, of sdk 5 w] starting.act_refused [OF False, of sdk w] False show ?thesis
    by (auto simp: inject_kill_def inject_restart_def docker_response_refused)
qed

text \<open>
  C15: docker is safe from the service. Whatever holds of the docker world, is kept by looking
  containers up and is kept by stopping and starting the four allowed containers, holds after any
  sequence of requests, malicious targets included.
\<close>

theorem docker_world_safe:
  assumes "sdk_keeps P sdk" and "P (docker_of st)"
  shows "P (docker_of (snd (run_ops (i_dispatch sdk now) reqs st)))"
  using assms(2)
proof (induction reqs arbitrary: st)
  case (Cons r reqs)
  then show ?case using i_dispatch_keeps [OF assms(1)]
    by (simp add: run_ops_Cons del: run_ops.simps(2))
qed simp

text \<open>A docker that logs the containers it stopped or started.\<close>

definition logging_sdk :: "string list docker_sdk" where
  "logging_sdk = \<lparr>sdk_get = (\<lambda>t w. (Inr (), w)), sdk_stop = (\<lambda>t n w. (Inr (), w @ [t])),
                  sdk_start = (\<lambda>t w. (Inr (), w @ [t])), sdk_status = (\<lambda>t w. (Inr ''running'', w))\<rparr>"

lemma docker_world_safe_witness:
  "set (docker_of (snd (run_ops (i_dispatch logging_sdk (Datetime 0))
      [Kill (default_fault_request ''service-a''), Kill (default_fault_request ''cm-fault-injector'')]
      \<lparr>faults_of = FaultState, docker_of = []\<rparr>))) \<subseteq> allowed_targets"
proof -
  have "sdk_keeps (\<lambda>w. set w \<subseteq> allowed_targets) logging_sdk"
    by (simp add: sdk_keeps_def logging_sdk_def)
  from docker_world_safe [OF this, of "\<lparr>faults_of = FaultState, docker_of = []\<rparr>" "Datetime 0"
      "[Kill (default_fault_request ''service-a''), Kill (default_fault_request ''cm-fault-injector'')]"]
  show ?thesis by simp
qed

text \<open>
  C33: the service never blocks on its lock, and its state stays sane. After any sequence of
  requests to a fresh service, every request has been answered, the latency is not negative and
  the error rate lies between 0 and 1.
\<close>

theorem injector_state_sane:
  "Waiting \<notin> set (fst (run_ops (i_dispatch sdk now) reqs \<lparr>faults_of = FaultState, docker_of = w\<rparr>))
   \<and> 0 \<le> latency_ms (faults_of (snd (run_ops (i_dispatch sdk now) reqs \<lparr>faults_of = FaultState, docker_of = w\<rparr>)))
   \<and> Fin 0 \<le> error_rate (faults_of (snd (run_ops (i_dispatch sdk now) reqs \<lparr>faults_of = FaultState, docker_of = w\<rparr>)))
   \<and> error_rate (faults_of (snd (run_ops (i_dispatch sdk now) reqs \<lparr>faults_of = FaultState, docker_of = w\<rparr>))) \<le> Fin 1"
proof -
  have "Waiting \<notin> set (fst (run_ops (i_dispatch sdk now) reqs st))
      \<and> fault_inv (faults_of (snd (run_ops (i_dispatch sdk now) reqs st)))" if "fault_inv (faults_of st)" for st
    using that
  proof (induction reqs arbitrary: st)
    case (Cons r reqs)
    then show ?case using i_dispatch_inv [of st sdk now r]
      by (auto simp: run_ops_Cons simp del: run_ops.simps(2))
  qed simp
  from this [of "\<lparr>faults_of = FaultState, docker_of = w\<rparr>"] show ?thesis
    by (simp add: fault_inv_init) (simp add: fault_inv_def)
qed

text \<open>
  Error injection works. After an accepted \<open>POST /inject/error\<close> the configured rate is what
  \<open>GET /faults\<close> shows, and \<open>GET /broken\<close> answers 500 exactly when its random draw is below it:
  never for a rate of 0, always for a rate of 1, the draws being in \<open>[0, 1)\<close>. The detail of the
  answer, a text, reads back as exactly that rate.
\<close>

theorem error_injection_effective:
  assumes "fault_inv s" and "Fin 0 \<le> fr_error_rate req" and "fr_error_rate req \<le> Fin 1"
    and "Fin 0 \<le> rand" and "rand < Fin 1" and "wf_float (fr_error_rate req)"
  shows "\<exists>resp s'. inject_error now req s = Some (Inr resp, s') \<and> fp_accepted resp
    \<and> take 11 (fp_detail resp) = ''error_rate='' \<and> py_float (drop 11 (fp_detail resp)) = Inr (fr_error_rate req)
    \<and> list_faults s' = Some (JObj [(''latency_ms'', JInt (latency_ms s)), (''error_rate'', JFloat (fr_error_rate req))], s')
    \<and> map_option (\<lambda>((c, _), _). c) (broken rand s') = Some (if rand < fr_error_rate req then 500 else 200)
    \<and> \<not> (fr_error_rate req = Fin 0 \<and> rand < fr_error_rate req)
    \<and> (fr_error_rate req \<noteq> Fin 1 \<or> rand < fr_error_rate req)"
proof -
  let ?s = "s\<lparr>error_rate := fr_error_rate req\<rparr>"
  have inv: "fault_inv ?s" using assms by (simp add: fault_inv_def)
  have "inject_error now req s = Some (Inr \<lparr>fp_kind = ERROR, fp_target = fr_target req, fp_accepted = True,
      fp_detail = ''error_rate='' @ float_repr (fr_error_rate req), fp_timestamp = now\<rparr>, ?s)"
    using fault_handlers(2) [OF assms(1)] assms(2,3) by simp
  moreover have "list_faults ?s = Some (JObj [(''latency_ms'', JInt (latency_ms s)), (''error_rate'', JFloat (fr_error_rate req))], ?s)"
    using fault_handlers(3) [OF inv] by simp
  moreover have "map_option (\<lambda>((c, _), _). c) (broken rand ?s) = Some (if rand < fr_error_rate req then 500 else 200)"
    using fault_handlers(4) [OF inv, of rand] by simp
  moreover have "\<not> rand < Fin 0" using assms(4) by (cases rand) (auto simp: less_eq_pyfloat_def less_pyfloat_def)
  ultimately show ?thesis using assms(5) py_float_repr [OF assms(6)] by auto
qed

lemma error_injection_effective_witness:
  "\<exists>resp s'. inject_error (Datetime 0) (default_fault_request ''service-a'') FaultState = Some (Inr resp, s')
    \<and> map_option (\<lambda>((c, _), _). c) (broken (Fin (1 / 2)) s') = Some 500"
  using error_injection_effective [of FaultState "default_fault_request ''service-a''" "Fin (1 / 2)" "Datetime 0"]
    fl_of_int_exact [of 1]
  by (auto simp: fault_inv_init default_fault_request_def less_eq_pyfloat_def less_pyfloat_def)

text \<open>What the documentation of \<open>inject_kill\<close> calls a 500 is a 200 with \<open>accepted\<close> false.\<close>

lemma docker_error_is_an_answer:
  "normalise_target (fr_target req) \<in> allowed_targets \<Longrightarrow>
   sdk_get sdk (normalise_target (fr_target req)) w = (Inl (DockerAPIError m), w') \<Longrightarrow>
   inject_kill sdk now req w =
     (Inr \<lparr>fp_kind = KILL, fp_target = normalise_target (fr_target req), fp_accepted = False, fp_detail = m,
           fp_timestamp = now\<rparr>, w')"
  by (simp add: inject_kill_def stopping.act_allowed stop_sync_def container_failure_def docker_response_def)

lemma restart_reports_kill:
  "fst (inject_restart sdk now req w) = Inr r \<Longrightarrow> fp_kind r = KILL"
  by (auto simp: inject_restart_def docker_response_def Let_def split: sum.splits exn.splits)

end
