(* ===== verification/MetricsCollector.thy ===== *)
theory MetricsCollector
  imports HealthCheck Argparse PyJson
begin

text \<open>
  \<^verbatim>\<open>monitoring/metrics_collector.py\<close>: scrape \<open>/metrics\<close> of every service, replace the
  snapshot file, append to the history file.

  A path is its root and its parts, as \<open>pathlib\<close> keeps it; the files are a map from paths to
  contents (creating the parent directory has no effect on it, and the disk is assumed to work).
  The documents are printed by \<open>json_dumps\<close>; the ISO text of the clock is an argument. A cycle
  is a client, the order in which its answers arrive, the clock, and whether a stop is requested
  before the pause after it ends. \<open>metrics_files_read_back\<close> shows that what is on disk decodes to
  the scraped documents.
\<close>

subsection \<open>Paths\<close>

record py_path =
  root :: string
  parts :: "string list"

fun split_slashes :: "string \<Rightarrow> string \<Rightarrow> string list" where
  "split_slashes acc [] = [rev acc]"
| "split_slashes acc (c # cs) = (if c = CHR ''/'' then rev acc # split_slashes [] cs else split_slashes (c # acc) cs)"

definition Path :: "string \<Rightarrow> py_path" where
  "Path s =
     \<lparr>root = (if starts_with ''//'' s \<and> \<not> starts_with ''///'' s then ''//''
              else if starts_with ''/'' s then ''/'' else []),
      parts = filter (\<lambda>p. p \<noteq> [] \<and> p \<noteq> ''.'') (split_slashes [] s)\<rparr>"

definition path_name :: "py_path \<Rightarrow> string" where
  "path_name p = (if parts p = [] then [] else last (parts p))"

text \<open>\<open>suffix\<close>: from the last dot on, if something stands on both sides of it.\<close>

definition path_suffix :: "py_path \<Rightarrow> string" where
  "path_suffix p =
     (let r = rev (path_name p); ext = takeWhile (\<lambda>c. c \<noteq> CHR ''.'') r
      in if ext \<noteq> [] \<and> length ext + 1 < length r then CHR ''.'' # rev ext else [])"

definition with_suffix :: "string \<Rightarrow> py_path \<Rightarrow> py_path outcome" where
  "with_suffix suffix p =
     (if CHR ''/'' \<in> set suffix \<or> (suffix \<noteq> [] \<and> hd suffix \<noteq> CHR ''.'') \<or> suffix = ''.''
      then Inl (ValueError (''Invalid suffix '' @ py_repr suffix))
      else if path_name p = [] then Inl (ValueError ''has an empty name'')
      else Inr (p\<lparr>parts := butlast (parts p)
                  @ [take (length (path_name p) - length (path_suffix p)) (path_name p) @ suffix]\<rparr>))"

subsection \<open>Options\<close>

record collector_options =
  output_path :: py_path
  history_path :: py_path
  interval_seconds :: pyfloat
  one_shot :: bool

definition collector_spec :: opt_spec where
  "collector_spec = [(''--output'', TakesValue (\<lambda>_. True)),
                     (''--interval'', TakesValue (\<lambda>v. case py_float v of Inl _ \<Rightarrow> False | Inr _ \<Rightarrow> True)),
                     (''--once'', Flag)]"

definition history_suffix :: string where
  "history_suffix = ''.history.jsonl''"

definition collector_parse_args :: "environ \<Rightarrow> string list \<Rightarrow> nat + collector_options outcome" where
  "collector_parse_args env argv =
     (let default_out = env_str env ''METRICS_OUTPUT_PATH'' ''./metrics/metrics.json'';
          default_interval = env_float env ''METRICS_SCRAPE_INTERVAL_SECONDS'' (Fin 10)
      in case parse_argv collector_spec argv of
           Inl code \<Rightarrow> Inl code
         | Inr vals \<Rightarrow>
             (let out = Path (value_or vals ''--output'' default_out)
              in Inr (map_outcome
                        (\<lambda>h. \<lparr>output_path = out, history_path = h,
                              interval_seconds = (case map_of vals ''--interval'' of
                                  None \<Rightarrow> default_interval
                                | Some v \<Rightarrow> (case py_float v of Inl _ \<Rightarrow> default_interval | Inr x \<Rightarrow> x)),
                              one_shot = given vals ''--once''\<rparr>)
                        (with_suffix (path_suffix out @ history_suffix) out))))"

subsection \<open>Scraping\<close>

definition metrics_url :: "service_target \<Rightarrow> string" where
  "metrics_url t = py_replace ''/health'' ''/metrics'' (health_url t)"

definition scrape_one ::
  "raise_for_status \<Rightarrow> (string \<Rightarrow> http_response outcome) \<Rightarrow> service_target \<Rightarrow> (string \<times> json) outcome" where
  "scrape_one rfs get t =
     (case get_checked rfs (get (metrics_url t)) of
        Inr resp \<Rightarrow> map_outcome (\<lambda>j. (st_name t, j)) (body resp)
      | Inl e \<Rightarrow>
          if is_HTTPError e
          then Inr (st_name t, JObj [(''service'', JStr (st_name t)), (''error'', JStr (exn_str e))])
          else Inl e)"

definition dict_of :: "(string \<times> 'v) list \<Rightarrow> (string \<times> 'v) list" where
  "dict_of pairs = fold (\<lambda>(k, v). AList.update k v) pairs []"

definition scrape_all ::
  "raise_for_status \<Rightarrow> (string \<Rightarrow> http_response outcome) \<Rightarrow> nat list \<Rightarrow> service_target list
    \<Rightarrow> (string \<times> json) list outcome" where
  "scrape_all rfs get ord ts = map_outcome dict_of (gather ord (map (scrape_one rfs get) ts))"

definition now_iso :: "datetime \<Rightarrow> string" where
  "now_iso now = py_replace ''+00:00'' ''Z'' (isoformat now)"

definition snapshot_doc :: "datetime \<Rightarrow> (string \<times> json) list \<Rightarrow> json" where
  "snapshot_doc now services = JObj [(''scraped_at'', JStr (now_iso now)), (''services'', JObj services)]"

subsection \<open>Files\<close>

type_synonym files = "py_path \<Rightarrow> string option"

definition write_text :: "py_path \<Rightarrow> string \<Rightarrow> files \<Rightarrow> files" where
  "write_text p s fs = fs(p := Some s)"

definition append_text :: "py_path \<Rightarrow> string \<Rightarrow> files \<Rightarrow> files" where
  "append_text p s fs = fs(p := Some ((case fs p of None \<Rightarrow> [] | Some old \<Rightarrow> old) @ s))"

definition write_outputs ::
  "json \<Rightarrow> py_path \<Rightarrow> py_path \<Rightarrow> files \<Rightarrow> files" where
  "write_outputs snap out hist fs =
     append_text hist (json_dumps None True snap @ [CHR 0x0A]) (write_text out (json_dumps (Some 2) True snap) fs)"

subsection \<open>The loop\<close>

record cycle =
  cy_get :: "string \<Rightarrow> http_response outcome"
  cy_order :: "nat list"
  cy_now :: datetime
  cy_stop :: bool

text \<open>
  The state is the files and the log (for each snapshot, the names of its services). \<open>stopped\<close> is
  the stop event at the head of the loop; \<open>None\<close> means that the collector is still running when
  the listed cycles are over.
\<close>

fun collect_loop ::
  "raise_for_status \<Rightarrow> service_target list \<Rightarrow> collector_options
    \<Rightarrow> bool \<Rightarrow> cycle list \<Rightarrow> files \<times> string list list \<Rightarrow> int outcome option \<times> (files \<times> string list list)" where
  "collect_loop rfs ts opts stopped cycles (fs, evs) =
     (if stopped then (Some (Inr 0), (fs, evs))
      else case cycles of
             [] \<Rightarrow> (None, (fs, evs))
           | c # rest \<Rightarrow>
               (case scrape_all rfs (cy_get c) (cy_order c) ts of
                  Inl e \<Rightarrow> (Some (Inl e), (fs, evs))
                | Inr services \<Rightarrow>
                    (let st = (write_outputs (snapshot_doc (cy_now c) services) (output_path opts) (history_path opts) fs,
                               evs @ [map fst services])
                     in if one_shot opts then (Some (Inr 0), st)
                        else collect_loop rfs ts opts (cy_stop c) rest st)))"

declare collect_loop.simps [simp del]

definition collector_main ::
  "environ \<Rightarrow> raise_for_status \<Rightarrow> collector_options \<Rightarrow> cycle list \<Rightarrow> files
    \<Rightarrow> int outcome option \<times> (files \<times> string list list)" where
  "collector_main env rfs opts cycles fs =
     (case configure_logging env ''metrics-collector'' of
        Inl e \<Rightarrow> (Some (Inl e), (fs, []))
      | Inr _ \<Rightarrow> collect_loop rfs (default_targets env) opts False cycles (fs, []))"

subsection \<open>Facts\<close>

lemma path_suffix_split: "\<exists>stem. path_name p = stem @ path_suffix p"
proof -
  let ?r = "rev (path_name p)" and ?ext = "takeWhile (\<lambda>c. c \<noteq> CHR ''.'') (rev (path_name p))"
  show ?thesis
  proof (cases "?ext \<noteq> [] \<and> length ?ext + 1 < length ?r")
    case True
    let ?rest = "dropWhile (\<lambda>c. c \<noteq> CHR ''.'') ?r"
    have split: "?r = ?ext @ ?rest" by simp
    have "?rest \<noteq> []"
    proof
      assume "?rest = []"
      with split have "?r = ?ext" by simp
      with True show False by simp
    qed
    then obtain d where d: "?rest = CHR ''.'' # d"
      using hd_dropWhile [of "\<lambda>c. c \<noteq> CHR ''.''" ?r] by (cases ?rest) auto
    have "rev ?r = rev (?ext @ CHR ''.'' # d)" using split unfolding d by simp
    then have "path_name p = rev d @ CHR ''.'' # rev ?ext" by simp
    moreover have "path_suffix p = CHR ''.'' # rev ?ext" using True by (simp add: path_suffix_def)
    ultimately show ?thesis by metis
  next
    case False
    then have "path_suffix p = []" by (auto simp: path_suffix_def Let_def)
    then show ?thesis by simp
  qed
qed

lemma split_slashes_no_slash: "CHR ''/'' \<notin> set acc \<Longrightarrow> \<forall>q\<in>set (split_slashes acc s). CHR ''/'' \<notin> set q"
  by (induction acc s rule: split_slashes.induct) auto

lemma Path_parts: "q \<in> set (parts (Path s)) \<Longrightarrow> CHR ''/'' \<notin> set q \<and> q \<noteq> []"
  using split_slashes_no_slash [of "[]" s] by (auto simp: Path_def)

lemma other_parts: "ps \<noteq> parts p \<Longrightarrow> p\<lparr>parts := ps\<rparr> \<noteq> (p :: py_path)"
  by (cases p) auto

text \<open>Adding to the suffix is adding to the name.\<close>

lemma with_suffix_appends:
  assumes "CHR ''/'' \<notin> set (path_name p)" and "path_name p \<noteq> []"
    and "ext = CHR ''.'' # e" and "e \<noteq> []" and "CHR ''/'' \<notin> set ext"
  shows "with_suffix (path_suffix p @ ext) p = Inr (p\<lparr>parts := butlast (parts p) @ [path_name p @ ext]\<rparr>)"
proof -
  obtain stem where stem: "path_name p = stem @ path_suffix p" using path_suffix_split by blast
  then have "take (length (path_name p) - length (path_suffix p)) (path_name p) = stem" by simp
  moreover have "CHR ''/'' \<notin> set (path_suffix p @ ext)" using assms(1,5) stem by auto
  moreover have "path_suffix p = [] \<or> hd (path_suffix p) = CHR ''.''" by (simp add: path_suffix_def Let_def)
  ultimately show ?thesis using assms(2-4) stem by (cases "path_suffix p") (auto simp: with_suffix_def)
qed

lemma show_int_no_slash: "CHR ''/'' \<notin> set (show_int n)"
proof -
  have "\<not> is_digit CHR ''/''" by (simp add: is_digit_def less_eq_char_def)
  then have "CHR ''/'' \<notin> set (show_digits k)" for k using show_digits_digits by blast
  then show ?thesis by (simp add: show_int_def)
qed

lemma metrics_url_of:
  "py_replace ''/health'' ''/metrics'' (url port ''/health'') = url port ''/metrics''"
proof -
  have "py_replace ''/health'' ''/metrics'' (url port ''/health'')
      = ''http:'' @ py_replace ''/health'' ''/metrics'' (''//127.0.0.1:'' @ show_int port @ ''/health'')"
    using py_replace_skip [of "''/health''" "''http:''" "''/metrics''" "''//127.0.0.1:'' @ show_int port @ ''/health''"]
    by (simp add: url_def)
  also have "py_replace ''/health'' ''/metrics'' (''//127.0.0.1:'' @ show_int port @ ''/health'')
      = ''//'' @ py_replace ''/health'' ''/metrics'' (''127.0.0.1:'' @ show_int port @ ''/health'')"
    by (simp add: py_replace_step)
  also have "py_replace ''/health'' ''/metrics'' (''127.0.0.1:'' @ show_int port @ ''/health'')
      = (''127.0.0.1:'' @ show_int port) @ py_replace ''/health'' ''/metrics'' (''/health'' @ [])"
    using py_replace_skip [of "''/health''" "''127.0.0.1:'' @ show_int port" "''/metrics''" "''/health''"] show_int_no_slash
    by simp
  also have "py_replace ''/health'' ''/metrics'' (''/health'' @ []) = ''/metrics''"
    by (subst py_replace_here) simp_all
  finally show ?thesis by (simp add: url_def)
qed

lemma update_new: "k \<notin> fst ` set al \<Longrightarrow> AList.update k v al = al @ [(k, v)]"
  by (induction al) auto

lemma dict_of_distinct:
  "distinct (map fst (al @ pairs)) \<Longrightarrow> fold (\<lambda>(k, v). AList.update k v) pairs al = al @ pairs"
proof (induction pairs arbitrary: al)
  case (Cons p pairs)
  obtain k v where p: "p = (k, v)" by fastforce
  have "AList.update k v al = al @ [(k, v)]"
    using Cons.prems p by (intro update_new) auto
  then show ?case using Cons.IH [of "al @ [(k, v)]"] Cons.prems p by simp
qed simp

text \<open>The payload recorded for a service.\<close>

definition payload_of :: "raise_for_status \<Rightarrow> (string \<Rightarrow> http_response outcome) \<Rightarrow> service_target \<Rightarrow> json" where
  "payload_of rfs get t = (case scrape_one rfs get t of Inr p \<Rightarrow> snd p | Inl _ \<Rightarrow> JNull)"

lemma scrape_one_answers:
  assumes "http_client get" and "json_bodies get" and "raises_on_error rfs"
  shows "scrape_one rfs get t = Inr (st_name t, payload_of rfs get t)"
proof -
  have "\<exists>j. scrape_one rfs get t = Inr (st_name t, j)"
  proof (cases "get_checked rfs (get (metrics_url t))")
    case (Inl e)
    then have "is_HTTPError e"
      using assms(1) raises_on_error_Inl [OF assms(3)] by (auto simp: get_checked_Inl http_client_def)
    with Inl show ?thesis by (simp add: scrape_one_def)
  next
    case (Inr resp)
    then have "get (metrics_url t) = Inr resp" using get_checked_Inr [OF assms(3)] by simp
    with assms(2) obtain j where "body resp = Inr j" unfolding json_bodies_def by blast
    with Inr show ?thesis by (simp add: scrape_one_def)
  qed
  then show ?thesis by (auto simp: payload_of_def)
qed

lemma payload_of_cases:
  assumes "http_client get" and "json_bodies get" and "raises_on_error rfs"
  shows "if url_answers get (metrics_url t)
         then \<exists>resp. get (metrics_url t) = Inr resp \<and> body resp = Inr (payload_of rfs get t)
         else \<exists>msg. payload_of rfs get t = JObj [(''service'', JStr (st_name t)), (''error'', JStr msg)]"
proof (cases "get (metrics_url t)")
  case (Inl e)
  then have "is_HTTPError e" using assms(1) by (simp add: http_client_def)
  with Inl show ?thesis by (simp add: url_answers_def payload_of_def scrape_one_def get_checked_def)
next
  case (Inr resp)
  obtain j where j: "body resp = Inr j" using assms(2) Inr unfolding json_bodies_def by blast
  show ?thesis
  proof (cases "is_success (status_code resp)")
    case True
    then have "get_checked rfs (get (metrics_url t)) = Inr resp" using Inr get_checked_Inr [OF assms(3)] by simp
    with True Inr j show ?thesis by (simp add: url_answers_def payload_of_def scrape_one_def)
  next
    case False
    then obtain m where "rfs resp = Inl (HTTPStatusError (status_code resp) m)"
      using assms(3) unfolding raises_on_error_def by presburger
    with False Inr show ?thesis by (simp add: url_answers_def payload_of_def scrape_one_def get_checked_def)
  qed
qed

lemma scrape_all_answers:
  assumes "http_client get" and "json_bodies get" and "raises_on_error rfs" and "distinct (map st_name ts)"
  shows "scrape_all rfs get ord ts = Inr (map (\<lambda>t. (st_name t, payload_of rfs get t)) ts)"
proof -
  have "map (scrape_one rfs get) ts = map Inr (map (\<lambda>t. (st_name t, payload_of rfs get t)) ts)"
    by (simp add: scrape_one_answers [OF assms(1-3)])
  moreover have "distinct (map fst (map (\<lambda>t. (st_name t, payload_of rfs get t)) ts))"
    using assms(4) by (simp add: comp_def)
  ultimately show ?thesis
    using dict_of_distinct [of "[]" "map (\<lambda>t. (st_name t, payload_of rfs get t)) ts"]
    by (simp add: scrape_all_def gather.collect_values dict_of_def del: map_map)
qed

text \<open>The cycles in which the collector scrapes, and the documents it writes.\<close>

fun scraped :: "cycle list \<Rightarrow> cycle list" where
  "scraped [] = []"
| "scraped (c # cs) = c # (if cy_stop c then [] else scraped cs)"

definition cycle_doc :: "raise_for_status \<Rightarrow> service_target list \<Rightarrow> cycle \<Rightarrow> json" where
  "cycle_doc rfs ts c =
     snapshot_doc (cy_now c) (map (\<lambda>t. (st_name t, payload_of rfs (cy_get c) t)) ts)"

definition good_cycle :: "cycle \<Rightarrow> bool" where
  "good_cycle c = (http_client (cy_get c) \<and> json_bodies (cy_get c))"

lemma collect_loop_stops:
  assumes rfs: "raises_on_error rfs" and ts: "distinct (map st_name ts)" and once: "\<not> one_shot opts"
    and paths: "output_path opts \<noteq> history_path opts"
  shows "list_all good_cycle cycles \<Longrightarrow> list_ex cy_stop cycles \<Longrightarrow>
    \<exists>fs' evs'. collect_loop rfs ts opts False cycles (fs, evs) = (Some (Inr 0), (fs', evs'))
      \<and> fs' (output_path opts) = Some (json_dumps (Some 2) True (last (map (cycle_doc rfs ts) (scraped cycles))))
      \<and> fs' (history_path opts) = Some ((case fs (history_path opts) of None \<Rightarrow> [] | Some s \<Rightarrow> s)
            @ concat (map (\<lambda>d. json_dumps None True d @ [CHR 0x0A]) (map (cycle_doc rfs ts) (scraped cycles))))
      \<and> (\<forall>p. p \<noteq> output_path opts \<and> p \<noteq> history_path opts \<longrightarrow> fs' p = fs p)
      \<and> evs' = evs @ replicate (length (scraped cycles)) (map st_name ts)"
proof (induction cycles arbitrary: fs evs)
  case (Cons c cycles)
  have "scrape_all rfs (cy_get c) (cy_order c) ts = Inr (map (\<lambda>t. (st_name t, payload_of rfs (cy_get c) t)) ts)"
    using Cons.prems(1) scrape_all_answers rfs ts by (simp add: good_cycle_def)
  then have step: "collect_loop rfs ts opts False (c # cycles) (fs, evs)
      = collect_loop rfs ts opts (cy_stop c) cycles
          (write_outputs (cycle_doc rfs ts c) (output_path opts) (history_path opts) fs, evs @ [map st_name ts])"
    using once by (subst collect_loop.simps) (simp add: Let_def cycle_doc_def comp_def)
  let ?fs = "write_outputs (cycle_doc rfs ts c) (output_path opts) (history_path opts) fs"
  have fs: "?fs (output_path opts) = Some (json_dumps (Some 2) True (cycle_doc rfs ts c))"
    "?fs (history_path opts) = Some ((case fs (history_path opts) of None \<Rightarrow> [] | Some s \<Rightarrow> s) @ json_dumps None True (cycle_doc rfs ts c) @ [CHR 0x0A])"
    "p \<noteq> output_path opts \<Longrightarrow> p \<noteq> history_path opts \<Longrightarrow> ?fs p = fs p" for p
    using paths by (simp_all add: write_outputs_def write_text_def append_text_def)
  show ?case
  proof (cases "cy_stop c")
    case True
    have "collect_loop rfs ts opts False (c # cycles) (fs, evs) = (Some (Inr 0), (?fs, evs @ [map st_name ts]))"
      unfolding step using True by (subst collect_loop.simps) simp
    with True fs show ?thesis by auto
  next
    case False
    then have "list_ex cy_stop cycles" "list_all good_cycle cycles" using Cons.prems by auto
    then obtain fs' evs' where loop: "collect_loop rfs ts opts False cycles (?fs, evs @ [map st_name ts]) = (Some (Inr 0), (fs', evs'))"
      and out: "fs' (output_path opts) = Some (json_dumps (Some 2) True (last (map (cycle_doc rfs ts) (scraped cycles))))"
      and hist: "fs' (history_path opts) = Some ((case ?fs (history_path opts) of None \<Rightarrow> [] | Some s \<Rightarrow> s)
            @ concat (map (\<lambda>d. json_dumps None True d @ [CHR 0x0A]) (map (cycle_doc rfs ts) (scraped cycles))))"
      and rest: "\<forall>p. p \<noteq> output_path opts \<and> p \<noteq> history_path opts \<longrightarrow> fs' p = ?fs p"
      and evs': "evs' = (evs @ [map st_name ts]) @ replicate (length (scraped cycles)) (map st_name ts)"
      using Cons.IH [of ?fs "evs @ [map st_name ts]"] by blast
    have ne: "scraped cycles \<noteq> []" using \<open>list_ex cy_stop cycles\<close> by (cases cycles) auto
    have "fs' (history_path opts) = Some ((case fs (history_path opts) of None \<Rightarrow> [] | Some s \<Rightarrow> s)
            @ concat (map (\<lambda>d. json_dumps None True d @ [CHR 0x0A]) (map (cycle_doc rfs ts) (scraped (c # cycles)))))"
      using hist fs(2) False by simp
    moreover have "\<forall>p. p \<noteq> output_path opts \<and> p \<noteq> history_path opts \<longrightarrow> fs' p = fs p"
      using rest fs(3) by simp
    moreover have "collect_loop rfs ts opts False (c # cycles) (fs, evs) = (Some (Inr 0), (fs', evs'))"
      unfolding step using False loop by simp
    ultimately show ?thesis using out evs' False ne by (intro exI [of _ fs'] exI [of _ evs']) simp
  qed
qed simp

subsection \<open>Properties\<close>

text \<open>
  One service cannot spoil the snapshot. With a client that only fails with HTTP errors and
  services that answer JSON, a scrape of the default targets asks each service's own \<open>/metrics\<close>
  address and yields one entry per service, in their order, whatever order the answers arrive in.
\<close>

theorem scrape_covers_fleet:
  assumes "http_client get" and "json_bodies get" and "raises_on_error rfs"
  shows "map metrics_url (default_targets env)
       = map (\<lambda>(name, port). url (env_int env name port) ''/metrics'')
           [(''API_GATEWAY_PORT'', 8000), (''SERVICE_A_PORT'', 8001), (''SERVICE_B_PORT'', 8002),
            (''CPP_WORKER_PORT'', 8003), (''FAULT_INJECTOR_PORT'', 8004)]
     \<and> scrape_all rfs get ord (default_targets env)
       = Inr (map (\<lambda>t. (st_name t, payload_of rfs get t)) (default_targets env))"
  using scrape_all_answers [OF assms default_targets_distinct]
  by (simp add: metrics_url_def metrics_url_of default_targets_def make_target_def)

lemma scrape_covers_fleet_witness:
  "map_outcome (map fst) (scrape_all plain_rfs sample_get [4, 3, 2, 1, 0] (default_targets (\<lambda>_. None)))
     = Inr [''api-gateway'', ''service-a'', ''service-b'', ''cpp-worker'', ''fault-injector'']"
proof -
  have "json_bodies sample_get" by (auto simp: json_bodies_def sample_get_def)
  from scrape_covers_fleet [OF sample_get_client this plain_rfs_raises, of "\<lambda>_. None" "[4, 3, 2, 1, 0]"]
    default_target_names [of "\<lambda>_. None"]
  show ?thesis by (simp add: comp_def)
qed

text \<open>
  C17: the files. A collector whose services answer JSON or fail with HTTP errors and that is
  stopped in some cycle returns 0; the output file then holds
  the document of the last cycle and nothing else, the history file its old content followed by
  one line per cycle, in order, and no other file has changed.
\<close>

theorem collector_files:
  assumes "raises_on_error rfs" and "\<not> one_shot opts" and "output_path opts \<noteq> history_path opts"
    and "list_all good_cycle cycles" and "list_ex cy_stop cycles"
    and "configure_logging env ''metrics-collector'' = Inr c"
  shows "\<exists>fs'. fst (collector_main env rfs opts cycles fs) = Some (Inr 0)
    \<and> fst (snd (collector_main env rfs opts cycles fs)) = fs'
    \<and> fs' (output_path opts) = Some (json_dumps (Some 2) True (last (map (cycle_doc rfs (default_targets env)) (scraped cycles))))
    \<and> fs' (history_path opts) = Some ((case fs (history_path opts) of None \<Rightarrow> [] | Some s \<Rightarrow> s)
          @ concat (map (\<lambda>d. json_dumps None True d @ [CHR 0x0A]) (map (cycle_doc rfs (default_targets env)) (scraped cycles))))
    \<and> {p. fs' p \<noteq> fs p} \<subseteq> {output_path opts, history_path opts}"
proof -
  obtain fs' evs' where "collect_loop rfs (default_targets env) opts False cycles (fs, []) = (Some (Inr 0), (fs', evs'))"
    "fs' (output_path opts) = Some (json_dumps (Some 2) True (last (map (cycle_doc rfs (default_targets env)) (scraped cycles))))"
    "fs' (history_path opts) = Some ((case fs (history_path opts) of None \<Rightarrow> [] | Some s \<Rightarrow> s)
          @ concat (map (\<lambda>d. json_dumps None True d @ [CHR 0x0A]) (map (cycle_doc rfs (default_targets env)) (scraped cycles))))"
    "\<forall>p. p \<noteq> output_path opts \<and> p \<noteq> history_path opts \<longrightarrow> fs' p = fs p"
    using collect_loop_stops [OF assms(1) default_targets_distinct assms(2,3,4,5)] by blast
  with assms(6) show ?thesis by (auto simp: collector_main_def)
qed

text \<open>
  Where the history goes. For every output path that names a file, the history path is in the
  same directory, and its name is that of the output followed by \<open>.history.jsonl\<close>, whatever dots
  the name has; in particular the two files differ.
\<close>

theorem history_beside_output:
  assumes "parts (Path (env_str env ''METRICS_OUTPUT_PATH'' ''./metrics/metrics.json'')) \<noteq> []"
  shows "\<exists>opts. collector_parse_args env [] = Inr (Inr opts)
    \<and> output_path opts = Path (env_str env ''METRICS_OUTPUT_PATH'' ''./metrics/metrics.json'')
    \<and> root (history_path opts) = root (output_path opts)
    \<and> parts (history_path opts) = butlast (parts (output_path opts)) @ [last (parts (output_path opts)) @ ''.history.jsonl'']
    \<and> history_path opts \<noteq> output_path opts"
proof -
  let ?p = "Path (env_str env ''METRICS_OUTPUT_PATH'' ''./metrics/metrics.json'')"
  have "last (parts ?p) \<in> set (parts ?p)" using assms by simp
  from Path_parts [OF this] have name: "CHR ''/'' \<notin> set (path_name ?p)" "path_name ?p \<noteq> []"
    using assms by (auto simp: path_name_def)
  have suffix: "with_suffix (path_suffix ?p @ history_suffix) ?p
      = Inr (?p\<lparr>parts := butlast (parts ?p) @ [path_name ?p @ history_suffix]\<rparr>)"
    by (rule with_suffix_appends [OF name, of _ "''history.jsonl''"]) (simp_all add: history_suffix_def)
  let ?ps = "butlast (parts ?p) @ [path_name ?p @ history_suffix]"
  have "last ?ps \<noteq> last (parts ?p)" using assms by (simp add: path_name_def history_suffix_def)
  have "?ps \<noteq> parts ?p"
  proof
    assume "?ps = parts ?p"
    from arg_cong [OF this, of last] \<open>last ?ps \<noteq> last (parts ?p)\<close> show False by contradiction
  qed
  then have ne: "?p\<lparr>parts := ?ps\<rparr> \<noteq> ?p" by (rule other_parts)
  have out: "collector_parse_args env [] = Inr (Inr
      \<lparr>output_path = ?p, history_path = ?p\<lparr>parts := ?ps\<rparr>,
       interval_seconds = env_float env ''METRICS_SCRAPE_INTERVAL_SECONDS'' (Fin 10), one_shot = False\<rparr>)"
    using suffix by (simp add: collector_parse_args_def parse_argv_def value_or_def given_def Let_def)
  have "?ps = butlast (parts ?p) @ [last (parts ?p) @ ''.history.jsonl'']"
    using assms by (simp add: path_name_def history_suffix_def)
  with out ne show ?thesis by simp
qed

lemma history_beside_output_witness:
  "\<exists>opts. collector_parse_args (\<lambda>_. None) [] = Inr (Inr opts)
    \<and> parts (history_path opts) = [''metrics'', ''metrics.json.history.jsonl'']"
proof -
  have "parts (Path (env_str (\<lambda>_. None) ''METRICS_OUTPUT_PATH'' ''./metrics/metrics.json'')) = [''metrics'', ''metrics.json'']"
    by code_simp
  with history_beside_output [of "\<lambda>_. None"] show ?thesis by auto
qed

text \<open>
  A service that answers a success status with something that is not JSON ends the collector
  in that cycle, with the files as the previous cycle left them: only HTTP errors are recorded as
  the error of one service.
\<close>

theorem invalid_json_ends_collector:
  assumes "raises_on_error rfs" and "t \<in> set ts"
    and "cy_get c (metrics_url t) = Inr resp" and "is_success (status_code resp)" and "body resp = Inl (JSONDecodeError m)"
  shows "\<exists>e. collect_loop rfs ts opts False (c # rest) st = (Some (Inl e), st)"
proof -
  have "get_checked rfs (cy_get c (metrics_url t)) = Inr resp"
    using get_checked_Inr [OF assms(1)] assms(3,4) by simp
  then have "scrape_one rfs (cy_get c) t = Inl (JSONDecodeError m)"
    using assms(5) by (simp add: scrape_one_def)
  then have "Inl (JSONDecodeError m) \<in> set (map (scrape_one rfs (cy_get c)) ts)" using assms(2) by force
  then have "\<not> (\<exists>xs. gather (cy_order c) (map (scrape_one rfs (cy_get c)) ts) = Inr xs)"
    by (auto simp: gather.collect_Inr_iff) (metis Inl_Inr_False image_iff list.set_map)
  then obtain e where "gather (cy_order c) (map (scrape_one rfs (cy_get c)) ts) = Inl e"
    by (cases "gather (cy_order c) (map (scrape_one rfs (cy_get c)) ts)") auto
  moreover obtain fs evs where "st = (fs, evs)" by fastforce
  ultimately show ?thesis
    by (simp add: collect_loop.simps [of rfs ts opts False "c # rest" fs evs] scrape_all_def)
qed

lemma invalid_json_ends_collector_witness:
  "\<exists>e. collect_loop plain_rfs [make_target ''a'' ''cm-a'' ''http://a/health'']
      \<lparr>output_path = Path ''o'', history_path = Path ''h'', interval_seconds = Fin 1, one_shot = False\<rparr> False
      [\<lparr>cy_get = (\<lambda>_. Inr \<lparr>status_code = 200, body = Inl (JSONDecodeError ''Expecting value'')\<rparr>), cy_order = [0],
        cy_now = Datetime 0, cy_stop = False\<rparr>] (\<lambda>_. None, [])
    = (Some (Inl e), (\<lambda>_. None, []))"
  by (rule invalid_json_ends_collector [OF plain_rfs_raises,
        where t = "make_target ''a'' ''cm-a'' ''http://a/health''" and m = "''Expecting value''"
          and resp = "\<lparr>status_code = 200, body = Inl (JSONDecodeError ''Expecting value'')\<rparr>"])
     (simp_all add: is_success_def)

definition sample_cycle :: "bool \<Rightarrow> int \<Rightarrow> cycle" where
  "sample_cycle stopping stamp = \<lparr>cy_get = sample_get, cy_order = [1, 0], cy_now = Datetime stamp, cy_stop = stopping\<rparr>"

definition sample_collector :: collector_options where
  "sample_collector =
     \<lparr>output_path = Path ''o'', history_path = Path ''h'', interval_seconds = Fin 1, one_shot = False\<rparr>"

definition sample_cycles :: "cycle list" where
  "sample_cycles = [sample_cycle False 1, sample_cycle True 2, sample_cycle False 3]"

lemma sample_collector_facts:
  "output_path sample_collector \<noteq> history_path sample_collector" "\<not> one_shot sample_collector"
  "list_all good_cycle sample_cycles" "list_ex cy_stop sample_cycles" "length (scraped sample_cycles) = 2"
proof -
  have "json_bodies sample_get" by (auto simp: json_bodies_def sample_get_def)
  then show "list_all good_cycle sample_cycles"
    by (simp add: good_cycle_def sample_cycle_def sample_get_client sample_cycles_def)
  show "output_path sample_collector \<noteq> history_path sample_collector" by code_simp
qed (simp_all add: sample_collector_def sample_cycles_def sample_cycle_def)

lemma sample_collector_logging:
  "configure_logging (\<lambda>_. None) ''metrics-collector'' = Inr \<lparr>lg_service = ''metrics-collector'', lg_level = 20\<rparr>"
  by code_simp

lemma collector_files_witness:
  "\<exists>fs'. fst (collector_main (\<lambda>_. None) plain_rfs sample_collector sample_cycles (\<lambda>_. None)) = Some (Inr 0)
    \<and> fst (snd (collector_main (\<lambda>_. None) plain_rfs sample_collector sample_cycles (\<lambda>_. None))) = fs'
    \<and> fs' (output_path sample_collector)
        = Some (json_dumps (Some 2) True (cycle_doc plain_rfs (default_targets (\<lambda>_. None)) (sample_cycle True 2)))"
  using collector_files [OF plain_rfs_raises sample_collector_facts(2,1,3,4) sample_collector_logging, of "\<lambda>_. None"]
  by (auto simp: sample_cycles_def sample_cycle_def)

subsection \<open>Reading the files back\<close>

text \<open>The lines of a text, each ended by a newline.\<close>

fun split_lines :: "string \<Rightarrow> string \<Rightarrow> string list" where
  "split_lines acc [] = (if acc = [] then [] else [rev acc])"
| "split_lines acc (c # s) = (if c = newline then rev acc # split_lines [] s else split_lines (c # acc) s)"

lemma split_lines_line: "newline \<notin> set l \<Longrightarrow> split_lines acc (l @ newline # s) = (rev acc @ l) # split_lines [] s"
  by (induction l arbitrary: acc) auto

lemma split_lines_concat:
  "\<forall>l\<in>set ls. newline \<notin> set l \<Longrightarrow> split_lines [] (concat (map (\<lambda>l. l @ [newline]) ls)) = ls"
  by (induction ls) (simp_all add: split_lines_line)

text \<open>The bodies of the answers are documents that \<open>json.loads\<close> can have returned.\<close>

definition decoded_bodies :: "nat \<Rightarrow> cycle \<Rightarrow> bool" where
  "decoded_bodies stack c =
     (\<forall>u resp j. cy_get c u = Inr resp \<longrightarrow> body resp = Inr j \<longrightarrow> wf_json j \<and> fits stack j)"

lemma payload_of_readable:
  assumes "decoded_bodies stack c" and "0 < stack"
  shows "wf_json (payload_of rfs (cy_get c) t) \<and> fits stack (payload_of rfs (cy_get c) t)"
proof (cases "get_checked rfs (cy_get c (metrics_url t))")
  case (Inl e)
  then show ?thesis using assms(2) by (simp add: payload_of_def scrape_one_def)
next
  case (Inr resp)
  then have "cy_get c (metrics_url t) = Inr resp" by (auto simp: get_checked_def outcome_simps)
  with Inr assms(1) show ?thesis
    by (cases "body resp") (auto simp: payload_of_def scrape_one_def decoded_bodies_def)
qed

lemma cycle_doc_readable:
  assumes "decoded_bodies stack c" and "0 < stack" and "distinct (map st_name ts)"
  shows "wf_json (cycle_doc rfs ts c)" and "fits (Suc (Suc stack)) (cycle_doc rfs ts c)"
  using payload_of_readable [OF assms(1,2)] assms(3)
  by (auto simp: cycle_doc_def snapshot_doc_def comp_def)

text \<open>
  C39: the files are JSON. If the services' answers are documents, then after a stopped run of the
  collector the output file decodes to the document of the last cycle, and a history file that did not
  exist before consists of lines that decode to the documents of the cycles, one each and in order
  (all with their keys sorted).
\<close>

theorem metrics_files_read_back:
  assumes "raises_on_error rfs" and "\<not> one_shot opts" and "output_path opts \<noteq> history_path opts"
    and "list_all good_cycle cycles" and "list_ex cy_stop cycles"
    and "configure_logging env ''metrics-collector'' = Inr c"
    and "list_all (decoded_bodies stack) cycles" and "0 < stack" and "fs (history_path opts) = None"
  shows "\<exists>fs' out hist. fst (snd (collector_main env rfs opts cycles fs)) = fs'
    \<and> fs' (output_path opts) = Some out \<and> fs' (history_path opts) = Some hist
    \<and> json_loads (Suc (Suc stack)) out
        = Inr (sort_json (last (map (cycle_doc rfs (default_targets env)) (scraped cycles))))
    \<and> map (json_loads (Suc (Suc stack))) (split_lines [] hist)
        = map (\<lambda>d. Inr (sort_json (cycle_doc rfs (default_targets env) d))) (scraped cycles)"
proof -
  let ?doc = "cycle_doc rfs (default_targets env)"
  have sub: "set (scraped cycles) \<subseteq> set cycles" by (induction cycles) auto
  then have doc: "wf_json (?doc d)" "fits (Suc (Suc stack)) (?doc d)" if "d \<in> set (scraped cycles)" for d
    using cycle_doc_readable [OF _ assms(8) default_targets_distinct] assms(7) that by (auto simp: list_all_iff)
  have ne: "scraped cycles \<noteq> []" using assms(5) by (cases cycles) auto
  then have l: "last (map ?doc (scraped cycles)) = ?doc (last (scraped cycles))" "last (scraped cycles) \<in> set (scraped cycles)"
    by (simp_all add: last_map)
  obtain fs' evs' where main: "collect_loop rfs (default_targets env) opts False cycles (fs, []) = (Some (Inr 0), (fs', evs'))"
    and out: "fs' (output_path opts) = Some (json_dumps (Some 2) True (?doc (last (scraped cycles))))"
    and hist: "fs' (history_path opts) = Some (concat (map (\<lambda>l. l @ [newline]) (map (\<lambda>d. json_dumps None True (?doc d)) (scraped cycles))))"
    using collect_loop_stops [OF assms(1) default_targets_distinct [of env] assms(2,3,4,5), where fs = fs and evs = "[]"] assms(9) l
    by (auto simp: newline_def comp_def)
  have "split_lines [] (the (fs' (history_path opts))) = map (\<lambda>d. json_dumps None True (?doc d)) (scraped cycles)"
    unfolding hist option.sel using doc(1) json_dumps_line by (intro split_lines_concat) auto
  moreover have "json_loads (Suc (Suc stack)) (json_dumps ind True (?doc d)) = Inr (sort_json (?doc d))"
    if "d \<in> set (scraped cycles)" for d ind
    using loads_dumps [OF doc [OF that], of ind True] by simp
  ultimately show ?thesis
    using main out hist l assms(6) by (auto simp: collector_main_def)
qed

lemma metrics_files_read_back_witness:
  "\<exists>fs' hist. fst (snd (collector_main (\<lambda>_. None) plain_rfs sample_collector sample_cycles (\<lambda>_. None))) = fs'
    \<and> fs' (history_path sample_collector) = Some hist \<and> length (split_lines [] hist) = 2"
proof -
  have "list_all (decoded_bodies 1) sample_cycles"
    by (simp add: sample_cycles_def sample_cycle_def decoded_bodies_def sample_get_def)
  from metrics_files_read_back [OF plain_rfs_raises sample_collector_facts(2,1,3,4) sample_collector_logging this, of "\<lambda>_. None"]
  show ?thesis using sample_collector_facts(5) by (auto dest: arg_cong [of _ _ length])
qed

text \<open>
  C40: the time of a snapshot. For an instant from 1970 to 9999, the text recorded as
  \<open>scraped_at\<close> is the UTC date and time with a \<open>Z\<close> in place of the offset, and with six digits of
  microseconds unless they are zero (never the three digits of the module's example); reading date, time and fraction back by their positions gives the
  instant, so no two snapshots at different instants have the same time.
\<close>

definition read_instant :: "string \<Rightarrow> int" where
  "read_instant s = int (read_seconds s * 1000000 + (if length s = 20 then 0 else number_at 20 6 s))"

lemma now_iso_text:
  "now_iso t = iso_seconds (nat (micros t) div 1000000)
     @ (if nat (micros t) mod 1000000 = 0 then [] else ''.'' @ pad 6 (nat (micros t) mod 1000000)) @ ''Z''"
proof -
  let ?a = "iso_seconds (nat (micros t) div 1000000)
     @ (if nat (micros t) mod 1000000 = 0 then [] else ''.'' @ pad 6 (nat (micros t) mod 1000000))"
  have plus: "\<not> is_digit CHR ''+''" by (simp add: is_digit_def less_eq_char_def)
  then have "CHR ''+'' \<notin> set (pad 6 n)" for n using pad_digits [of 6 n] by (auto simp: list_all_iff)
  moreover have "CHR ''+'' \<notin> set (iso_seconds n)" for n using iso_seconds_chars plus by fastforce
  ultimately have "hd ''+00:00'' \<notin> set ?a" by auto
  then have "now_iso t = ?a @ py_replace ''+00:00'' ''Z'' (''+00:00'' @ [])"
    using py_replace_skip [of "''+00:00''" ?a "''Z''" "''+00:00''"] by (simp add: now_iso_def isoformat_def Let_def)
  then show ?thesis using py_replace_here [of "''+00:00''" "''Z''" "[]"] by simp
qed

theorem scraped_at_reads_back:
  assumes "0 \<le> micros t" and "four_digit_year (nat (micros t) div 1000000)"
  shows "read_instant (now_iso t) = micros t
       \<and> now_iso t = iso_seconds (nat (micros t) div 1000000)
           @ (if nat (micros t) mod 1000000 = 0 then [] else ''.'' @ pad 6 (nat (micros t) mod 1000000)) @ ''Z''"
proof -
  define s f where "s = nat (micros t) div 1000000" and "f = nat (micros t) mod 1000000"
  have "f < 10 ^ 6" by (simp add: f_def)
  then have "f \<noteq> 0 \<Longrightarrow> number_at 20 6 (now_iso t) = f"
    using number_at_pad [of f 6 "iso_seconds s @ ''.''" 20 "''Z''"]
    by (simp add: now_iso_text length_iso_seconds flip: s_def f_def)
  moreover have "length (now_iso t) = (if f = 0 then 20 else 27)"
    by (simp add: now_iso_text length_iso_seconds flip: f_def)
  moreover have "read_seconds (now_iso t) = s"
    unfolding now_iso_text s_def by (rule read_iso_seconds [OF assms(2)])
  ultimately have "read_instant (now_iso t) = int (s * 1000000 + f)" by (simp add: read_instant_def)
  moreover have "int (s * 1000000 + f) = micros t" using assms(1) by (simp add: s_def f_def del: of_nat_add of_nat_mult)
  ultimately show ?thesis using now_iso_text [of t] by simp
qed

lemma scraped_at_reads_back_witness:
  "read_instant (now_iso (Datetime 5184000000001)) = 5184000000001"
proof -
  have "four_digit_year (nat (micros (Datetime 5184000000001)) div 1000000)"
    by (simp add: four_digit_year_def civil_date_def year_of_day.simps days_in_year_def leap_year_def split: prod.splits)
  from conjunct1 [OF scraped_at_reads_back [OF _ this]] show ?thesis by simp
qed

end
