(* ===== verification/LogAggregator.thy ===== *)
theory LogAggregator
  imports FastapiApp Argparse PyJson
begin

text \<open>
  \<^verbatim>\<open>monitoring/log_aggregator.py\<close>: read the lines of \<open>docker compose logs\<close>, split each into
  container and payload, and log one normalised record per payload.

  Payloads are read by \<open>json_loads\<close> with the interpreter's remaining \<open>stack\<close>. The process is a
  stream of lines (or of the exception that reading one raised), each with whether a stop had been
  requested by the time it arrived, and an exit code. Records are logged on the aggregator's own
  logger, so only while its level is at most \<open>INFO\<close> (\<open>log_info\<close>). \<open>classify\<close> says what record a payload should
  become; \<open>nothing_dropped\<close> shows that the stream becomes exactly these records, and
  \<open>structured_logs_round_trip\<close> that what a service printed as JSON arrives unchanged.
\<close>

subsection \<open>Options\<close>

record aggregator_options =
  project :: string
  follow :: bool
  tail :: int

definition log_spec :: opt_spec where
  "log_spec = [(''--project'', TakesValue (\<lambda>_. True)), (''--no-follow'', Flag),
               (''--tail'', TakesValue (\<lambda>v. case py_int v of Inl _ \<Rightarrow> False | Inr _ \<Rightarrow> True))]"

definition log_parse_args :: "string list \<Rightarrow> nat + aggregator_options" where
  "log_parse_args argv =
     (case parse_argv log_spec argv of
        Inl code \<Rightarrow> Inl code
      | Inr vals \<Rightarrow>
          Inr \<lparr>project = value_or vals ''--project'' ''cloud-microservices'',
               follow = \<not> given vals ''--no-follow'',
               tail = (case map_of vals ''--tail'' of
                         None \<Rightarrow> 200
                       | Some v \<Rightarrow> (case py_int v of Inl _ \<Rightarrow> 200 | Inr n \<Rightarrow> n))\<rparr>)"

definition log_command :: "aggregator_options \<Rightarrow> string list" where
  "log_command opts =
     [''compose'', ''-p'', project opts, ''logs'', ''--tail='' @ show_int (tail opts)]
     @ (if follow opts then [''--follow''] else [])"

subsection \<open>Lines and records\<close>

definition parse_compose_line :: "string \<Rightarrow> string \<times> string" where
  "parse_compose_line raw =
     (if CHR ''|'' \<notin> set raw then ([], raw)
      else (let (hd_part, tl_part) = py_partition CHR ''|'' raw in (py_strip hd_part, py_strip tl_part)))"

datatype log_record =
    RawLog (log_container: string) string
  | ServiceLog (log_container: string) json json json json "(string \<times> json) list"

text \<open>\<open>record.get(k)\<close>: a missing key and a null are both logged as null.\<close>

definition get_or_null :: "(string \<times> json) list \<Rightarrow> string \<Rightarrow> json" where
  "get_or_null kvs k = (case map_of kvs k of None \<Rightarrow> JNull | Some v \<Rightarrow> v)"

definition reserved :: "string list" where
  "reserved = [''service'', ''level'', ''message'', ''timestamp'']"

fun is_JSONDecodeError :: "exn \<Rightarrow> bool" where
  "is_JSONDecodeError (JSONDecodeError _) = True"
| "is_JSONDecodeError _ = False"

text \<open>\<open>logger.info\<close> on the aggregator's own logger: a record, unless its level is above \<open>INFO\<close>.\<close>

definition log_info :: "logger \<Rightarrow> log_record \<Rightarrow> log_record list" where
  "log_info lg r = (if level_enabled lg INFO then [r] else [])"

definition emit_record :: "logger \<Rightarrow> nat \<Rightarrow> string \<Rightarrow> string \<Rightarrow> log_record list outcome" where
  "emit_record lg stack cont payload =
     (if payload = [] then Inr []
      else case json_loads stack payload of
             Inl e \<Rightarrow> if is_JSONDecodeError e then Inr (log_info lg (RawLog cont payload)) else Inl e
           | Inr (JObj kvs) \<Rightarrow>
               Inr (log_info lg (ServiceLog cont (get_or_null kvs ''service'') (get_or_null kvs ''level'')
                      (get_or_null kvs ''message'') (get_or_null kvs ''timestamp'')
                      (filter (\<lambda>(k, _). k \<notin> set reserved) kvs)))
           | Inr _ \<Rightarrow> Inr (log_info lg (RawLog cont payload)))"

subsection \<open>The stream\<close>

fun read_lines ::
  "logger \<Rightarrow> nat \<Rightarrow> (string outcome \<times> bool) list \<Rightarrow> log_record list \<times> unit outcome" where
  "read_lines lg stack [] = ([], Inr ())"
| "read_lines lg stack ((Inl e, _) # rest) = ([], Inl e)"
| "read_lines lg stack ((Inr raw, stopped) # rest) =
     (if stopped then ([], Inr ())
      else (let (cont, payload) = parse_compose_line (py_rstrip raw)
            in case emit_record lg stack cont payload of
                 Inl e \<Rightarrow> ([], Inl e)
               | Inr recs \<Rightarrow> (let (more, r) = read_lines lg stack rest in (recs @ more, r))))"

text \<open>
  The script: the command it runs, the records it logs, and its exit code, that of the process
  (0 while it has none). An exception leaves through the clause that ends the process.
\<close>

definition log_main ::
  "environ \<Rightarrow> string option \<Rightarrow> aggregator_options \<Rightarrow> nat \<Rightarrow> (string outcome \<times> bool) list
    \<Rightarrow> int option \<Rightarrow> string list \<times> log_record list \<times> int outcome" where
  "log_main env which_docker opts stack stream returncode =
     (let command = (case which_docker of None \<Rightarrow> ''docker'' | Some p \<Rightarrow> if p = [] then ''docker'' else p) # log_command opts
      in case configure_logging env ''log-aggregator'' of
           Inl e \<Rightarrow> ([], [], Inl e)
         | Inr lg \<Rightarrow>
             (let (recs, r) = read_lines lg stack stream
              in (command, recs, map_outcome (\<lambda>_. case returncode of None \<Rightarrow> 0 | Some rc \<Rightarrow> rc) r)))"

subsection \<open>Facts\<close>

text \<open>The record a payload should become, when reading it fails with a decode error if at all.\<close>

definition classify :: "nat \<Rightarrow> string \<times> string \<Rightarrow> log_record" where
  "classify stack cp =
     (case json_loads stack (snd cp) of
        Inr (JObj kvs) \<Rightarrow>
          ServiceLog (fst cp) (get_or_null kvs ''service'') (get_or_null kvs ''level'') (get_or_null kvs ''message'')
            (get_or_null kvs ''timestamp'') (filter (\<lambda>(k, _). k \<notin> set reserved) kvs)
      | _ \<Rightarrow> RawLog (fst cp) (snd cp))"

definition readable :: "nat \<Rightarrow> string \<Rightarrow> bool" where
  "readable stack p = (case json_loads stack p of Inl e \<Rightarrow> is_JSONDecodeError e | Inr _ \<Rightarrow> True)"

lemma emit_record_classify:
  "readable stack p \<Longrightarrow>
   emit_record lg stack c p = Inr (if p = [] \<or> \<not> level_enabled lg INFO then [] else [classify stack (c, p)])"
  by (auto simp: emit_record_def log_info_def classify_def readable_def split: sum.splits json.splits)

definition line_parts :: "string \<Rightarrow> string \<times> string" where
  "line_parts raw = parse_compose_line (py_rstrip raw)"

definition readable_line :: "nat \<Rightarrow> string \<Rightarrow> bool" where
  "readable_line stack raw = readable stack (snd (line_parts raw))"

text \<open>The records of a stream of readable lines, and what follows them.\<close>

definition classified :: "logger \<Rightarrow> nat \<Rightarrow> string list \<Rightarrow> log_record list" where
  "classified lg stack ls =
     (if level_enabled lg INFO then map (classify stack) (filter (\<lambda>(_, p). p \<noteq> []) (map line_parts ls)) else [])"

lemma read_lines_classify:
  "list_all (readable_line stack) ls \<Longrightarrow>
   read_lines lg stack (map (\<lambda>l. (Inr l, False)) ls @ rest)
     = (classified lg stack ls @ fst (read_lines lg stack rest), snd (read_lines lg stack rest))"
proof (induction ls)
  case (Cons l ls)
  then show ?case
    by (cases "parse_compose_line (py_rstrip l)")
       (simp add: emit_record_classify line_parts_def classified_def readable_line_def split: prod.splits)
qed (simp add: classified_def)

lemma dropWhile_spaces: "dropWhile is_space (replicate n CHR '' '' @ s) = dropWhile is_space s"
  by (induction n) (simp_all add: is_space_def)

lemma py_rstrip_spaces: "py_rstrip (s @ replicate n CHR '' '') = py_rstrip s"
  by (simp add: py_rstrip_def dropWhile_spaces)

lemma py_rstrip_append: "t \<noteq> [] \<Longrightarrow> \<not> is_space (last t) \<Longrightarrow> py_rstrip (s @ t) = s @ t"
  by (intro py_rstrip_id) auto

lemma py_strip_padded:
  assumes "s \<noteq> []" and "\<not> is_space (hd s)" and "\<not> is_space (last s)"
  shows "py_strip (replicate m CHR '' '' @ s @ replicate n CHR '' '') = s"
proof -
  have "py_lstrip (replicate m CHR '' '' @ s @ replicate n CHR '' '') = s @ replicate n CHR '' ''"
    using assms(1,2) by (cases s) (simp_all add: py_lstrip_def dropWhile_spaces)
  then show ?thesis by (simp add: py_strip_def py_rstrip_spaces py_rstrip_id assms)
qed

text \<open>
  Compose lines are read back: a line made of a container name, padding, a bar and a payload
  is split into exactly that name and that payload, however wide the padding is and whatever the
  payload contains (further bars included), when neither begins or ends with white space and the
  name has no bar.
\<close>

lemma split_compose_line:
  assumes "name \<noteq> []" and "\<not> is_space (hd name)" and "\<not> is_space (last name)" and "CHR ''|'' \<notin> set name"
    and "payload \<noteq> []" and "\<not> is_space (hd payload)" and "\<not> is_space (last payload)"
  shows "parse_compose_line (py_rstrip (name @ replicate m CHR '' '' @ ''|'' @ replicate n CHR '' '' @ payload))
       = (name, payload)"
proof -
  let ?raw = "(name @ replicate m CHR '' '') @ CHR ''|'' # (replicate n CHR '' '' @ payload)"
  have raw: "name @ replicate m CHR '' '' @ ''|'' @ replicate n CHR '' '' @ payload = ?raw" by simp
  have strip: "py_rstrip ?raw = ?raw" using assms(5,7) by (intro py_rstrip_id) auto
  have "CHR ''|'' \<notin> set (name @ replicate m CHR '' '')" using assms(4) by auto
  then have part: "py_partition CHR ''|'' ?raw = (name @ replicate m CHR '' '', replicate n CHR '' '' @ payload)"
    by (rule py_partition_append)
  have "py_strip (name @ replicate m CHR '' '') = name"
    using py_strip_padded [OF assms(1-3), of 0 m] by simp
  moreover have "py_strip (replicate n CHR '' '' @ payload) = payload"
    using py_strip_padded [OF assms(5-7), of n 0] by simp
  moreover have "CHR ''|'' \<in> set ?raw" by simp
  ultimately show ?thesis unfolding raw strip parse_compose_line_def part by simp
qed

subsection \<open>Properties\<close>

text \<open>
  C16: nothing is dropped, if the aggregator's own level lets it log. Suppose that no line has a
  payload on which \<open>json.loads\<close> raises anything but a decode error, and that no stop is requested.
  With a level up to \<open>INFO\<close> the aggregator logs for every line with a non-empty payload
  exactly one record, in order and with its container: the structured record of a JSON object, the raw
  payload otherwise. With a level above \<open>INFO\<close> it logs no record at all. In both cases it
  exits with the code of the process.
\<close>

theorem nothing_dropped:
  assumes "list_all (readable_line stack) ls" and "configure_logging env ''log-aggregator'' = Inr c"
  shows "snd (log_main env which_docker opts stack (map (\<lambda>l. (Inr l, False)) ls) (Some rc))
       = (if lg_level c \<le> INFO then map (classify stack) (filter (\<lambda>(_, p). p \<noteq> []) (map line_parts ls)) else [],
          Inr rc)"
  using assms(2) read_lines_classify [OF assms(1), of c "[]"]
  by (simp add: log_main_def classified_def level_enabled_def)

definition sample_options :: aggregator_options where
  "sample_options = \<lparr>project = ''cm'', follow = False, tail = 5\<rparr>"

lemma sample_logging:
  "configure_logging (\<lambda>_. None) ''log-aggregator'' = Inr \<lparr>lg_service = ''log-aggregator'', lg_level = 20\<rparr>"
  by code_simp

lemma quiet_logging:
  "configure_logging (\<lambda>v. if v = ''LOG_LEVEL'' then Some ''warning'' else None) ''log-aggregator''
     = Inr \<lparr>lg_service = ''log-aggregator'', lg_level = 30\<rparr>"
  by code_simp

lemma nothing_dropped_witness:
  "snd (log_main (\<lambda>_. None) None sample_options 100
      (map (\<lambda>l. (Inr l, False)) [''cm-a  | {}'', ''cm-a  | [1, 2]'', ''cm-b  | '', ''banner'']) (Some 0))
   = ([ServiceLog ''cm-a'' JNull JNull JNull JNull [], RawLog ''cm-a'' ''[1, 2]'', RawLog [] ''banner''], Inr 0)
   \<and> snd (log_main (\<lambda>v. if v = ''LOG_LEVEL'' then Some ''warning'' else None) None sample_options 100
      (map (\<lambda>l. (Inr l, False)) [''cm-a  | {}'']) (Some 0)) = ([], Inr 0)"
proof -
  have "list_all (readable_line 100) [''cm-a  | {}'']" by code_simp
  note quiet = nothing_dropped [OF this quiet_logging, of None sample_options 0]
  have "list_all (readable_line 100) [''cm-a  | {}'', ''cm-a  | [1, 2]'', ''cm-b  | '', ''banner'']" by code_simp
  note * = nothing_dropped [OF this sample_logging, of None sample_options 0]
  show ?thesis unfolding * quiet by code_simp
qed

text \<open>A decimal of too many digits is no decode error.\<close>

lemma scan_number_digits:
  assumes "list_all is_digit ds" and "ds \<noteq> []" and "hd ds \<noteq> CHR ''0''"
  shows "scan_value (Suc n) stack ds = map_outcome (\<lambda>j. (j, [])) (map_outcome JInt (py_int ds))"
proof -
  have ip: "int_part ds" using assms by (simp add: int_part_def)
  have "hd ds \<notin> {quote, CHR ''['', CHR ''{''}" using assms by (intro hd_digit) (cases ds; simp)
  moreover obtain c r where "ds = c # r" using assms(2) by (cases ds) auto
  moreover have "scan_scalar ds = map_outcome (\<lambda>j. (j, [])) (map_outcome JInt (py_int ds))"
    using scan_scalar_number [OF ip, of "[]" "[]"] scan_number_parts [OF ip, of "[]" "[]" "[]" "[]"]
    by (simp add: fraction_def exponent_def stops_def)
  ultimately show ?thesis by simp
qed

lemma loads_oversized:
  assumes "max_str_digits < n"
  shows "json_loads stack (replicate n (CHR ''9''))
       = Inl (ValueError ''Exceeds the limit for integer string conversion'')"
proof -
  let ?ds = "replicate n (CHR ''9'')"
  obtain m where n: "n = Suc m" using assms by (cases n) auto
  have ds: "list_all is_digit ?ds" "?ds \<noteq> []" "hd ?ds \<noteq> CHR ''0''"
    using n by (auto simp: list_all_iff is_digit_iff)
  have "py_strip ?ds = ?ds" using n by (intro py_strip_id) (auto simp: is_space_def)
  moreover have "split_sign ?ds = (False, ?ds)" using n by (simp add: split_sign_def)
  moreover have "drop_underscores False ?ds = Some ?ds" using ds(1) by (intro drop_underscores_digits) (simp add: list_all_iff)
  ultimately have "py_int ?ds = Inl (ValueError ''Exceeds the limit for integer string conversion'')"
    using assms ds by (simp add: py_int_def del: replicate.simps)
  moreover have "skip_ws ?ds = ?ds" using n by (intro skip_ws_opens) (simp add: opens_def is_ws_def)
  ultimately show ?thesis using scan_number_digits [OF ds, of "2 * length ?ds" stack]
    by (simp add: json_loads_def del: scan_value.simps replicate.simps)
qed

text \<open>
  A number of more than 4300 digits ends the aggregator. On such a payload \<open>json.loads\<close> raises a
  plain \<open>ValueError\<close>, which the handler of decode errors does not catch; the lines after it are not
  logged.
\<close>

theorem oversized_payload_ends_aggregator:
  assumes "configure_logging env ''log-aggregator'' = Inr c" and "list_all (readable_line stack) ls"
    and "line_parts bad = (cont, replicate n (CHR ''9''))" and "max_str_digits < n"
  shows "snd (log_main env which_docker opts stack (map (\<lambda>l. (Inr l, False)) (ls @ bad # later)) rc)
       = (classified c stack ls,
          Inl (ValueError ''Exceeds the limit for integer string conversion''))"
proof -
  have "read_lines c stack (map (\<lambda>l. (Inr l, False)) (bad # later))
      = ([], Inl (ValueError ''Exceeds the limit for integer string conversion''))"
    using assms(3,4) loads_oversized [OF assms(4)]
    by (simp add: line_parts_def emit_record_def del: replicate.simps split: prod.splits)
  with read_lines_classify [OF assms(2), of c "map (\<lambda>l. (Inr l, False)) (bad # later)"] assms(1)
  show ?thesis by (simp add: log_main_def)
qed

lemma oversized_payload_ends_aggregator_witness:
  "snd (log_main (\<lambda>_. None) None sample_options 100
      (map (\<lambda>l. (Inr l, False)) ([''cm-a  | {}''] @ (''a|'' @ replicate 5000 (CHR ''9'')) # [''cm-a  | {}''])) None)
   = ([ServiceLog ''cm-a'' JNull JNull JNull JNull []],
      Inl (ValueError ''Exceeds the limit for integer string conversion''))"
proof -
  have r: "list_all (readable_line 100) [''cm-a  | {}'']" by code_simp
  have "line_parts (''a'' @ replicate 0 CHR '' '' @ ''|'' @ replicate 0 CHR '' '' @ replicate 5000 (CHR ''9''))
      = (''a'', replicate 5000 (CHR ''9''))"
    unfolding line_parts_def by (rule split_compose_line) (simp_all add: is_space_def)
  then have bad: "line_parts (''a|'' @ replicate 5000 (CHR ''9'')) = (''a'', replicate 5000 (CHR ''9''))" by simp
  have "max_str_digits < 5000" by (simp add: max_str_digits_def)
  note * = oversized_payload_ends_aggregator [OF sample_logging r bad this, of None sample_options "[''cm-a  | {}'']" None]
  show ?thesis unfolding * by code_simp
qed

text \<open>A line of \<open>docker compose logs\<close>: the container, padding, a bar, and what the service printed.\<close>

record log_entry =
  le_container :: string
  le_padding :: nat
  le_fields :: "(string \<times> json) list"

definition container_name :: "string \<Rightarrow> bool" where
  "container_name s = (s \<noteq> [] \<and> \<not> is_space (hd s) \<and> \<not> is_space (last s) \<and> CHR ''|'' \<notin> set s)"

definition printed_line :: "log_entry \<Rightarrow> string" where
  "printed_line e =
     le_container e @ replicate (le_padding e) CHR '' '' @ ''| '' @ json_dumps None False (JObj (le_fields e)) @ [CHR 0x0A]"

definition printable_entry :: "nat \<Rightarrow> log_entry \<Rightarrow> bool" where
  "printable_entry stack e =
     (container_name (le_container e) \<and> wf_json (JObj (le_fields e)) \<and> fits stack (JObj (le_fields e)))"

definition service_log :: "log_entry \<Rightarrow> log_record" where
  "service_log e =
     ServiceLog (le_container e) (get_or_null (le_fields e) ''service'') (get_or_null (le_fields e) ''level'')
       (get_or_null (le_fields e) ''message'') (get_or_null (le_fields e) ''timestamp'')
       (filter (\<lambda>(k, _). k \<notin> set reserved) (le_fields e))"

lemma dump_JObj_ends: "\<exists>s. dump ind level (JObj kvs) = ''{'' @ s @ ''}''"
  by (cases "kvs = []") (simp_all add: exI [of _ "[]"])

lemma printed_line_parts:
  assumes "container_name (le_container e)"
  shows "line_parts (printed_line e) = (le_container e, json_dumps None False (JObj (le_fields e)))"
proof -
  let ?p = "json_dumps None False (JObj (le_fields e))"
  let ?raw = "le_container e @ replicate (le_padding e) CHR '' '' @ ''|'' @ replicate 1 CHR '' '' @ ?p"
  obtain s where s: "?p = ''{'' @ s @ ''}''" 
    using dump_JObj_ends [of None 0 "le_fields e"] unfolding json_dumps_def if_False by blast
  then have "py_rstrip (printed_line e) = py_rstrip ?raw"
    by (simp add: printed_line_def py_rstrip_def is_space_def)
  moreover have "parse_compose_line (py_rstrip ?raw) = (le_container e, ?p)"
    using assms s by (intro split_compose_line) (auto simp: container_name_def is_space_def)
  ultimately show ?thesis by (simp add: line_parts_def)
qed

lemma read_structured_lines:
  assumes "list_all (printable_entry stack) es"
  shows "read_lines lg stack (map (\<lambda>e. (Inr (printed_line e), False)) es)
       = (if level_enabled lg INFO then map service_log es else [], Inr ())"
proof -
  have loads: "json_loads stack (json_dumps None False (JObj (le_fields e))) = Inr (JObj (le_fields e))"
    if "printable_entry stack e" for e
    using loads_dumps [of "JObj (le_fields e)" stack None False] that by (simp add: printable_entry_def)
  have parts: "line_parts (printed_line e) = (le_container e, json_dumps None False (JObj (le_fields e)))"
    if "printable_entry stack e" for e
    using printed_line_parts that by (simp add: printable_entry_def)
  have ne: "json_dumps None False (JObj kvs) \<noteq> []" for kvs
    using dump_JObj_ends [of None 0 kvs] by (auto simp: json_dumps_def)
  have "classified lg stack (map printed_line es) = (if level_enabled lg INFO then map service_log es else [])"
    using assms by (cases "level_enabled lg INFO"; induction es) (simp_all add: classified_def parts ne loads classify_def service_log_def)
  moreover have "list_all (readable_line stack) (map printed_line es)"
    using assms by (auto simp: list_all_iff readable_line_def readable_def parts loads)
  ultimately show ?thesis
    using read_lines_classify [of stack "map printed_line es" lg "[]"] by (simp add: comp_def)
qed

text \<open>
  Structured logs arrive unchanged. If every service prints its entries as JSON objects with
  \<open>json.dumps\<close> and compose prefixes them with a container name, then the aggregator logs for each line
  the structured record with that container and exactly the printed service, level, message, timestamp
  and remaining fields, in order (none at all if its level is above \<open>INFO\<close>).
\<close>

theorem structured_logs_round_trip:
  assumes "list_all (printable_entry stack) es" and "configure_logging env ''log-aggregator'' = Inr c"
  shows "snd (log_main env which_docker opts stack (map (\<lambda>e. (Inr (printed_line e), False)) es) (Some rc))
       = (if lg_level c \<le> INFO then map service_log es else [], Inr rc)"
  using read_structured_lines [OF assms(1), of c] assms(2) by (simp add: log_main_def level_enabled_def)

definition sample_entry :: log_entry where
  "sample_entry =
     \<lparr>le_container = ''cm-service-a'', le_padding = 2,
      le_fields = [(''service'', JStr ''service-a''), (''duration_ms'', JFloat (fl (5 / 4))), (''message'', JStr ''a|b'')]\<rparr>"

lemma structured_logs_round_trip_witness:
  "snd (log_main (\<lambda>_. None) None sample_options 10 [(Inr (printed_line sample_entry), False)] (Some 0))
   = ([ServiceLog ''cm-service-a'' (JStr ''service-a'') JNull (JStr ''a|b'') JNull [(''duration_ms'', JFloat (fl (5 / 4)))]],
      Inr 0)"
proof -
  have "list_all (printable_entry 10) [sample_entry]"
    by (simp add: printable_entry_def sample_entry_def container_name_def is_space_def)
  from structured_logs_round_trip [OF this sample_logging, of None sample_options 0]
  show ?thesis by (simp add: service_log_def sample_entry_def get_or_null_def reserved_def)
qed

end
