(* ===== verification/LogFlow.thy ===== *)
theory LogFlow
  imports LogAggregator ServiceA
begin

text \<open>
  \<^verbatim>\<open>shared/logging_config.py\<close> from the logger on, and what becomes of a log call: the pipeline
  of processors that \<open>configure_logging\<close> sets up, the line it prints, and the record that
  \<^verbatim>\<open>monitoring/log_aggregator.py\<close> makes of that line.

  \<^verbatim>\<open>structlog\<close> is not part of the repository. What the pipeline uses of it is the record
  \<open>structlog\<close> of functions on event dictionaries (association lists); \<open>documented\<close> states their
  documented behaviour, each processor by the keys it sets and removes, with nothing assumed about
  the order of the others. \<open>sample_structlog\<close> satisfies it.
\<close>

subsection \<open>What the code uses of structlog\<close>

type_synonym fields = "(string \<times> json) list"

text \<open>
  \<open>sl_bind\<close> is \<open>bind\<close> on a logger's own context; \<open>sl_event\<close> the event dictionary a method of the
  logger starts from (context, event name, keyword arguments); \<open>sl_enabled\<close> whether a method of
  the filtering logger for a level does anything; \<open>sl_stamp\<close> how the time stamper prints an instant.
\<close>

record structlog =
  sl_bind :: "fields \<Rightarrow> fields \<Rightarrow> fields"
  sl_event :: "fields \<Rightarrow> string \<Rightarrow> fields \<Rightarrow> fields"
  sl_enabled :: "int \<Rightarrow> string \<Rightarrow> bool"
  sl_stamp :: "datetime \<Rightarrow> string"
  merge_contextvars :: "fields \<Rightarrow> fields \<Rightarrow> fields"
  add_log_level :: "string \<Rightarrow> fields \<Rightarrow> fields"
  time_stamper :: "datetime \<Rightarrow> fields \<Rightarrow> fields"
  stack_info_renderer :: "fields \<Rightarrow> fields"
  format_exc_info :: "string \<Rightarrow> fields \<Rightarrow> fields"
  event_renamer :: "string \<Rightarrow> fields \<Rightarrow> fields"
  json_renderer :: "fields \<Rightarrow> string"

definition dict_keys :: "fields \<Rightarrow> bool" where
  "dict_keys d = distinct (map fst d)"

definition level_number :: "string \<Rightarrow> int option" where
  "level_number = map_of [(''debug'', 10), (''info'', 20), (''warning'', 30), (''error'', 40), (''critical'', 50)]"

subsection \<open>The pipeline\<close>

text \<open>The processors of \<open>configure_logging\<close>, first to last, on an event dictionary.\<close>

definition processors ::
  "structlog \<Rightarrow> fields \<Rightarrow> string \<Rightarrow> datetime \<Rightarrow> string \<Rightarrow> fields \<Rightarrow> string" where
  "processors sl contextvars method_name now traceback d0 =
     (let d1 = merge_contextvars sl contextvars d0;
          d2 = add_log_level sl method_name d1;
          d3 = time_stamper sl now d2;
          d4 = stack_info_renderer sl d3;
          d5 = format_exc_info sl traceback d4;
          d6 = event_renamer sl ''message'' d5
      in json_renderer sl d6)"

text \<open>
  The context of the two kinds of loggers: the one \<open>configure_logging\<close> returns, bound to its
  service, and the module-level \<open>_LOGGER = structlog.get_logger()\<close>, bound to nothing.
\<close>

definition bound_logger :: "structlog \<Rightarrow> logger \<Rightarrow> fields" where
  "bound_logger sl cfg = sl_bind sl [(''service'', JStr (lg_service cfg))] []"

definition module_logger :: fields where
  "module_logger = []"

text \<open>
  A log call: the logger it is made on, the request context, the method with its event name and
  keyword arguments, the traceback that \<open>logger.exception\<close> asks for, and the instant.
\<close>

record log_call =
  lc_config :: logger
  lc_bound :: bool
  lc_context :: log_context
  lc_method :: string
  lc_event :: string
  lc_fields :: fields
  lc_traceback :: "string option"
  lc_now :: datetime

definition call_fields :: "log_call \<Rightarrow> fields" where
  "call_fields c =
     (case lc_traceback c of None \<Rightarrow> [] | Some _ \<Rightarrow> [(''exc_info'', JBool True)]) @ lc_fields c"

definition context_fields :: "log_context \<Rightarrow> fields" where
  "context_fields ctx = map (\<lambda>(k, v). (k, JStr v)) ctx"

definition logger_of :: "structlog \<Rightarrow> log_call \<Rightarrow> fields" where
  "logger_of sl c = (if lc_bound c then bound_logger sl (lc_config c) else module_logger)"

definition emit_line :: "structlog \<Rightarrow> log_call \<Rightarrow> string list" where
  "emit_line sl c =
     (if sl_enabled sl (lg_level (lc_config c)) (lc_method c)
      then [processors sl (context_fields (lc_context c)) (lc_method c) (lc_now c)
              (case lc_traceback c of None \<Rightarrow> [] | Some tb \<Rightarrow> tb)
              (sl_event sl (logger_of sl c) (lc_event c) (call_fields c))]
      else [])"

subsection \<open>The documented behaviour\<close>

definition documented :: "structlog \<Rightarrow> bool" where
  "documented sl =
     ((\<forall>kvs ctx. dict_keys kvs \<and> dict_keys ctx \<longrightarrow> dict_keys (sl_bind sl kvs ctx) \<and> map_of (sl_bind sl kvs ctx) = map_of ctx ++ map_of kvs)
    \<and> (\<forall>ctx e kvs. dict_keys ctx \<and> dict_keys kvs \<longrightarrow> dict_keys (sl_event sl ctx e kvs)
         \<and> map_of (sl_event sl ctx e kvs) = (map_of ctx ++ map_of kvs)(''event'' \<mapsto> JStr e))
    \<and> (\<forall>lvl m n. level_number m = Some n \<longrightarrow> sl_enabled sl lvl m = (lvl \<le> n))
    \<and> (\<forall>cv d. dict_keys cv \<and> dict_keys d \<longrightarrow> dict_keys (merge_contextvars sl cv d)
         \<and> map_of (merge_contextvars sl cv d) = map_of cv ++ map_of d)
    \<and> (\<forall>m d. dict_keys d \<longrightarrow> dict_keys (add_log_level sl m d)
         \<and> map_of (add_log_level sl m d) = (map_of d)(''level'' \<mapsto> JStr m))
    \<and> (\<forall>t d. dict_keys d \<longrightarrow> dict_keys (time_stamper sl t d)
         \<and> map_of (time_stamper sl t d) = (map_of d)(''timestamp'' \<mapsto> JStr (sl_stamp sl t)))
    \<and> (\<forall>d. ''stack_info'' \<notin> dom (map_of d) \<longrightarrow> stack_info_renderer sl d = d)
    \<and> (\<forall>tb d. ''exc_info'' \<notin> dom (map_of d) \<longrightarrow> format_exc_info sl tb d = d)
    \<and> (\<forall>tb d. dict_keys d \<and> map_of d ''exc_info'' = Some (JBool True) \<longrightarrow> dict_keys (format_exc_info sl tb d)
         \<and> map_of (format_exc_info sl tb d) = (map_of d)(''exc_info'' := None, ''exception'' \<mapsto> JStr tb))
    \<and> (\<forall>k d v. dict_keys d \<and> map_of d ''event'' = Some v \<and> k \<noteq> ''event'' \<longrightarrow> dict_keys (event_renamer sl k d)
         \<and> map_of (event_renamer sl k d) = (map_of d)(''event'' := None, k \<mapsto> v))
    \<and> (\<forall>d. json_renderer sl d = json_dumps None False (JObj d)))"

text \<open>The fields a call carries besides the reserved ones, and the calls the code makes.\<close>

definition carried :: "log_call \<Rightarrow> fields" where
  "carried c =
     filter (\<lambda>(k, _). k \<notin> set reserved)
       (lc_fields c @ filter (\<lambda>(k, _). k \<notin> fst ` set (lc_fields c)) (context_fields (lc_context c))
        @ (case lc_traceback c of None \<Rightarrow> [] | Some tb \<Rightarrow> [(''exception'', JStr tb)]))"

definition special_keys :: "string list" where
  "special_keys = [''service'', ''event'', ''exc_info'', ''stack_info'', ''exception'']"

definition loggable :: "nat \<Rightarrow> log_call \<Rightarrow> bool" where
  "loggable stack c =
     (level_number (lc_method c) \<noteq> None \<and> 0 < stack
      \<and> dict_keys (lc_fields c) \<and> dict_keys (context_fields (lc_context c))
      \<and> list_all (\<lambda>(k, v). k \<notin> set special_keys \<and> wf_json v \<and> fits (stack - 1) v) (lc_fields c)
      \<and> list_all (\<lambda>(k, _). k \<notin> set special_keys) (lc_context c))"

subsection \<open>What a line carries\<close>

text \<open>The entry a call leads to, as a map.\<close>

definition entry :: "structlog \<Rightarrow> log_call \<Rightarrow> string \<Rightarrow> json option" where
  "entry sl c k =
     (if k = ''message'' then Some (JStr (lc_event c))
      else if k = ''level'' then Some (JStr (lc_method c))
      else if k = ''timestamp'' then Some (JStr (sl_stamp sl (lc_now c)))
      else if k = ''service'' then (if lc_bound c then Some (JStr (lg_service (lc_config c))) else None)
      else map_of (carried c) k)"

lemma map_of_filter_keys: "map_of (filter (\<lambda>(k, _). P k) d) k = (if P k then map_of d k else None)"
  by (induction d) auto

lemma map_of_carried:
  assumes "k \<notin> set reserved"
  shows "map_of (carried c) k
       = (case map_of (lc_fields c) k of Some v \<Rightarrow> Some v
          | None \<Rightarrow> (case map_of (context_fields (lc_context c)) k of Some v \<Rightarrow> Some v
                    | None \<Rightarrow> (if k = ''exception'' then map_option JStr (lc_traceback c) else None)))"
proof -
  let ?d = "lc_fields c @ filter (\<lambda>(k, _). k \<notin> fst ` set (lc_fields c)) (context_fields (lc_context c))
      @ (case lc_traceback c of None \<Rightarrow> [] | Some tb \<Rightarrow> [(''exception'', JStr tb)])"
  have "k \<notin> fst ` set (lc_fields c) \<longleftrightarrow> map_of (lc_fields c) k = None" by (simp add: map_of_eq_None_iff)
  moreover have "map_of (carried c) k = map_of ?d k"
    unfolding carried_def map_of_filter_keys using assms by simp
  ultimately show ?thesis
    by (cases "map_of (lc_fields c) k"; cases "map_of (context_fields (lc_context c)) k"; cases "lc_traceback c")
       (simp_all add: map_of_filter_keys map_add_def)
qed

lemma logger_context:
  assumes "documented sl"
  shows "dict_keys (logger_of sl c)
       \<and> map_of (logger_of sl c) = (if lc_bound c then [''service'' \<mapsto> JStr (lg_service (lc_config c))] else Map.empty)"
  using assms by (simp add: documented_def logger_of_def bound_logger_def module_logger_def dict_keys_def)

lemma special_key_absent:
  assumes "loggable stack c" and "k \<in> set special_keys"
  shows "map_of (lc_fields c) k = None" and "map_of (context_fields (lc_context c)) k = None"
  using assms by (auto simp: loggable_def list_all_iff context_fields_def map_of_eq_None_iff)

lemma special_keys_absent:
  assumes "loggable stack c"
  shows "map_of (lc_fields c) ''service'' = None" and "map_of (context_fields (lc_context c)) ''service'' = None"
    and "map_of (lc_fields c) ''event'' = None" and "map_of (context_fields (lc_context c)) ''event'' = None"
    and "map_of (lc_fields c) ''exc_info'' = None" and "map_of (context_fields (lc_context c)) ''exc_info'' = None"
    and "map_of (lc_fields c) ''stack_info'' = None" and "map_of (context_fields (lc_context c)) ''stack_info'' = None"
    and "map_of (lc_fields c) ''exception'' = None" and "map_of (context_fields (lc_context c)) ''exception'' = None"
  by (rule special_key_absent [OF assms]; simp add: special_keys_def)+

lemma dict_call_fields: "loggable stack c \<Longrightarrow> dict_keys (call_fields c)"
  by (auto simp: call_fields_def loggable_def dict_keys_def special_keys_def list_all_iff split: option.splits)


lemma processors_entry:
  assumes doc: "documented sl" and c: "loggable stack c"
  defines "d0 \<equiv> sl_event sl (logger_of sl c) (lc_event c) (call_fields c)"
  shows "\<exists>d. processors sl (context_fields (lc_context c)) (lc_method c) (lc_now c)
               (case lc_traceback c of None \<Rightarrow> [] | Some tb \<Rightarrow> tb) d0 = json_dumps None False (JObj d)
           \<and> dict_keys d \<and> map_of d = entry sl c"
proof -
  let ?tb = "case lc_traceback c of None \<Rightarrow> [] | Some tb \<Rightarrow> tb"
  let ?cv = "context_fields (lc_context c)"
  note absent = special_keys_absent [OF c]
  have d0: "dict_keys d0" "map_of d0 = (map_of (logger_of sl c) ++ map_of (call_fields c))(''event'' \<mapsto> JStr (lc_event c))"
    using doc logger_context [OF doc, of c] dict_call_fields [OF c] by (simp_all add: documented_def d0_def)
  define d1 where "d1 = merge_contextvars sl ?cv d0"
  have d1: "dict_keys d1" "map_of d1 = map_of ?cv ++ map_of d0"
    using doc d0 c by (simp_all add: documented_def d1_def loggable_def)
  define d2 where "d2 = add_log_level sl (lc_method c) d1"
  have d2: "dict_keys d2" "map_of d2 = (map_of d1)(''level'' \<mapsto> JStr (lc_method c))"
    using doc d1 by (simp_all add: documented_def d2_def)
  define d3 where "d3 = time_stamper sl (lc_now c) d2"
  have d3: "dict_keys d3" "map_of d3 = (map_of d2)(''timestamp'' \<mapsto> JStr (sl_stamp sl (lc_now c)))"
    using doc d2 by (simp_all add: documented_def d3_def)
  have d4: "stack_info_renderer sl d3 = d3"
    using doc by (simp add: documented_def d3 d2 d1 d0 map_add_def absent logger_context [OF doc] call_fields_def domIff
        split: option.splits)
  define d5 where "d5 = format_exc_info sl ?tb d3"
  have exc: "map_of d3 ''exc_info'' = map_option (\<lambda>_. JBool True) (lc_traceback c)"
    by (simp add: d3 d2 d1 d0 map_add_def absent logger_context [OF doc] call_fields_def split: option.splits)
  have d5: "dict_keys d5 \<and> map_of d5 =
      (if lc_traceback c = None then map_of d3 else (map_of d3)(''exc_info'' := None, ''exception'' \<mapsto> JStr ?tb))"
    using doc d3(1) exc by (cases "lc_traceback c") (simp_all add: documented_def d5_def domIff)
  have ev: "map_of d5 ''event'' = Some (JStr (lc_event c))" by (simp add: d5 d3 d2 d1 d0)
  define d6 where "d6 = event_renamer sl ''message'' d5"
  have d6: "dict_keys d6" "map_of d6 = (map_of d5)(''event'' := None, ''message'' \<mapsto> JStr (lc_event c))"
    using doc d5 ev by (simp_all add: documented_def d6_def)
  have call: "map_of (call_fields c) k = (if k = ''exc_info'' then map_option (\<lambda>_. JBool True) (lc_traceback c)
      else map_of (lc_fields c) k)" for k
    using absent by (cases "lc_traceback c") (simp_all add: call_fields_def)
  note steps = entry_def d6 d5 d3 d2 d1 d0 map_add_def absent call logger_context [OF doc, THEN conjunct2]
  have "map_of d6 k = entry sl c k" for k
  proof -
    consider "k = ''message''" | "k = ''level''" | "k = ''timestamp''" | "k = ''service''" | "k = ''event''"
      | "k = ''exc_info''" | "k = ''exception''"
      | "k \<noteq> ''message'' \<and> k \<noteq> ''level'' \<and> k \<noteq> ''timestamp'' \<and> k \<noteq> ''service'' \<and> k \<noteq> ''event''
          \<and> k \<noteq> ''exc_info'' \<and> k \<noteq> ''exception''" by satx
    then show ?thesis
    proof cases
      case 1 then show ?thesis by (simp add: entry_def d6)
    next
      case 2 then show ?thesis by (simp add: entry_def d6 d5 d3 d2)
    next
      case 3 then show ?thesis by (simp add: entry_def d6 d5 d3)
    next
      case 4 then show ?thesis by (simp add: entry_def d6 d5 d3 d2 d1 d0 map_add_def absent call logger_context [OF doc])
    next
      case 5 then show ?thesis by (simp add: entry_def d6 map_of_carried reserved_def absent split: option.split)
    next
      case 6 then show ?thesis by (cases "lc_traceback c") (simp_all add: entry_def d6 d5 exc map_of_carried reserved_def absent)
    next
      case 7 then show ?thesis
        by (cases "lc_traceback c") (simp_all add: steps map_of_carried reserved_def)
    next
      case 8 
      then have "map_of d6 k = map_of d1 k" "entry sl c k = map_of (carried c) k" 
        by (simp_all add: entry_def d6 d5 d3 d2)
      with 8 show ?thesis by (simp add: map_of_carried reserved_def d1 d0 map_add_def call logger_context [OF doc] split: option.split)
    qed
  qed
  then have "map_of d6 = entry sl c" by blast
  with d6(1) doc show ?thesis
    by (intro exI [of _ d6]) (simp add: documented_def processors_def Let_def d1_def [symmetric] d2_def [symmetric]
        d3_def [symmetric] d4 d5_def [symmetric] d6_def [symmetric])
qed

lemma entry_fits:
  assumes "loggable stack c" and "entry sl c k = Some v"
  shows "wf_json v \<and> fits (stack - 1) v"
proof (cases "k \<in> set reserved \<or> v \<in> range JStr")
  case True
  with assms(2) show ?thesis by (auto simp: entry_def reserved_def split: if_splits)
next
  case False
  then have "map_of (carried c) k = Some v" using assms(2) by (auto simp: entry_def reserved_def split: if_splits)
  then have "(k, v) \<in> set (carried c)" by (rule map_of_SomeD)
  with False have "(k, v) \<in> set (lc_fields c)"
    by (auto simp: carried_def context_fields_def split: option.splits)
  with assms(1) show ?thesis by (auto simp: loggable_def list_all_iff)
qed

text \<open>Whether the level of the process lets a call through.\<close>

definition enabled_call :: "log_call \<Rightarrow> bool" where
  "enabled_call c = (case level_number (lc_method c) of None \<Rightarrow> False | Some n \<Rightarrow> lg_level (lc_config c) \<le> n)"

lemma emit_line_entry:
  assumes "documented sl" and "loggable stack c"
  shows "\<exists>d. emit_line sl c = (if enabled_call c then [json_dumps None False (JObj d)] else [])
           \<and> dict_keys d \<and> map_of d = entry sl c"
proof -
  from processors_entry [OF assms] obtain d where d:
    "processors sl (context_fields (lc_context c)) (lc_method c) (lc_now c)
        (case lc_traceback c of None \<Rightarrow> [] | Some tb \<Rightarrow> tb)
        (sl_event sl (logger_of sl c) (lc_event c) (call_fields c)) = json_dumps None False (JObj d)"
    "dict_keys d" "map_of d = entry sl c" by blast
  moreover have "sl_enabled sl (lg_level (lc_config c)) (lc_method c) = enabled_call c"
    using assms by (auto simp: enabled_call_def documented_def loggable_def split: option.splits)
  ultimately show ?thesis by (intro exI [of _ d]) (simp add: emit_line_def)
qed

text \<open>A container, the padding of its column in the output of compose, and a call in it.\<close>

type_synonym container_call = "string \<times> nat \<times> log_call"

definition compose_lines :: "structlog \<Rightarrow> container_call \<Rightarrow> string list" where
  "compose_lines sl = (\<lambda>(cont, width, c).
     map (\<lambda>l. cont @ replicate width CHR '' '' @ ''| '' @ l @ [CHR 0x0A]) (emit_line sl c))"

text \<open>What the aggregator should report of a call.\<close>

fun reports :: "structlog \<Rightarrow> container_call \<Rightarrow> log_record \<Rightarrow> bool" where
  "reports sl (cont, width, c) (ServiceLog cont' srv lvl msg ts rest) =
     (cont' = cont
      \<and> srv = (if lc_bound c then JStr (lg_service (lc_config c)) else JNull)
      \<and> lvl = JStr (lc_method c) \<and> msg = JStr (lc_event c)
      \<and> ts = JStr (sl_stamp sl (lc_now c))
      \<and> dict_keys rest \<and> set rest = set (carried c))"
| "reports sl _ (RawLog _ _) = False"

lemma dict_keys_append: "dict_keys (a @ b) \<longleftrightarrow> dict_keys a \<and> dict_keys b \<and> fst ` set a \<inter> fst ` set b = {}"
  by (simp add: dict_keys_def)

lemma dict_keys_filter: "dict_keys d \<Longrightarrow> dict_keys (filter P d)"
  by (simp add: dict_keys_def distinct_map_filter)

lemma dict_keys_extend:
  assumes "dict_keys a" and "dict_keys b"
  shows "dict_keys (a @ filter (\<lambda>(k, _). k \<notin> fst ` set a) b)"
proof -
  have "fst ` set a \<inter> fst ` set (filter (\<lambda>(k, _). k \<notin> fst ` set a) b) = {}" by force
  with assms show ?thesis by (simp add: dict_keys_append dict_keys_filter)
qed

lemma distinct_carried:
  assumes "loggable stack c"
  shows "dict_keys (carried c)"
proof -
  have "''exception'' \<notin> fst ` set (lc_fields c)" and "''exception'' \<notin> fst ` set (context_fields (lc_context c))"
    using special_keys_absent [OF assms] by (simp_all add: map_of_eq_None_iff)
  moreover have "dict_keys (lc_fields c @ filter (\<lambda>(k, _). k \<notin> fst ` set (lc_fields c)) (context_fields (lc_context c)))"
    using assms by (intro dict_keys_extend) (simp_all add: loggable_def)
  ultimately have "dict_keys ((lc_fields c @ filter (\<lambda>(k, _). k \<notin> fst ` set (lc_fields c)) (context_fields (lc_context c)))
      @ (case lc_traceback c of None \<Rightarrow> [] | Some tb \<Rightarrow> [(''exception'', JStr tb)]))"
    by (subst dict_keys_append) (auto simp: dict_keys_def split: option.split)
  then show ?thesis unfolding carried_def append_assoc by (rule dict_keys_filter)
qed

lemma carried_unreserved: "k \<in> set reserved \<Longrightarrow> map_of (carried c) k = None"
  unfolding carried_def map_of_filter_keys by simp

text \<open>The line of an enabled call is one that the aggregator reads, and its record reports the call.\<close>

lemma call_line:
  assumes "documented sl" and "loggable stack c" and "container_name cont"
  shows "\<exists>es. compose_lines sl (cont, width, c) = map printed_line es \<and> list_all (printable_entry stack) es
           \<and> list_all2 (reports sl) (if enabled_call c then [(cont, width, c)] else []) (map service_log es)"
proof -
  obtain d where d: "emit_line sl c = (if enabled_call c then [json_dumps None False (JObj d)] else [])"
      "dict_keys d" "map_of d = entry sl c"
    using emit_line_entry [OF assms(1,2)] by blast
  let ?e = "\<lparr>le_container = cont, le_padding = width, le_fields = d\<rparr>"
  have fit: "wf_json v \<and> fits (stack - 1) v" if "(k, v) \<in> set d" for k v
    using that d(2,3) entry_fits [OF assms(2), of sl k v] by (simp add: dict_keys_def flip: map_of_eq_Some_iff)
  have "printable_entry stack ?e"
    using fit assms(2,3) d(2) by (fastforce simp: printable_entry_def dict_keys_def loggable_def)
  moreover have "reports sl (cont, width, c) (service_log ?e)"
  proof -
    let ?rest = "filter (\<lambda>(k, _). k \<notin> set reserved) d"
    have rest: "dict_keys ?rest" using d(2) by (rule dict_keys_filter)
    have "map_of ?rest = map_of (carried c)"
      using d(3) carried_unreserved [of _ c]
      by (intro ext) (auto simp: map_of_filter_keys entry_def reserved_def)
    then have "set ?rest = set (carried c)"
      using rest distinct_carried [OF assms(2)] by (metis dict_keys_def map_of_inject_set)
    with rest show ?thesis by (simp add: service_log_def d(3) entry_def get_or_null_def)
  qed
  ultimately show ?thesis using d(1)
    by (intro exI [of _ "if enabled_call c then [?e] else []"]) (simp add: compose_lines_def printed_line_def)
qed

lemma reports_rest:
  assumes "dict_keys rest" and "set rest = set (carried c)" and "loggable stack c"
  shows "map_of rest = map_of (carried c)"
  using assms distinct_carried [OF assms(3)] by (metis dict_keys_def map_of_inject_set)

lemma calls_lines:
  assumes "documented sl" and "list_all (\<lambda>(cont, _, c). container_name cont \<and> loggable stack c) calls"
  shows "\<exists>es. concat (map (compose_lines sl) calls) = map printed_line es \<and> list_all (printable_entry stack) es
           \<and> list_all2 (reports sl) (filter (\<lambda>(_, _, c). enabled_call c) calls) (map service_log es)"
  using assms(2)
proof (induction calls)
  case (Cons x calls)
  obtain cont width c where x: "x = (cont, width, c)" by (cases x)
  from Cons.prems have c: "loggable stack c" "container_name cont" by (simp_all add: x)
  from call_line [OF assms(1) c, of width] obtain es where es:
    "compose_lines sl x = map printed_line es" "list_all (printable_entry stack) es"
    "list_all2 (reports sl) (if enabled_call c then [x] else []) (map service_log es)" unfolding x by blast
  from Cons obtain es' where es':
    "concat (map (compose_lines sl) calls) = map printed_line es'" "list_all (printable_entry stack) es'"
    "list_all2 (reports sl) (filter (\<lambda>(_, _, c). enabled_call c) calls) (map service_log es')" by auto
  have "filter (\<lambda>(_, _, c). enabled_call c) (x # calls)
      = (if enabled_call c then [x] else []) @ filter (\<lambda>(_, _, c). enabled_call c) calls" by (simp add: x)
  with es es' show ?case
    by (intro exI [of _ "es @ es'"]) (simp add: list_all2_appendI del: filter.simps)
qed simp

subsection \<open>What the middleware logs\<close>

text \<open>
  The calls behind the entries of the observability middleware, made on the logger of the service:
  \<open>logger.exception\<close> is \<open>error\<close> with the traceback of the exception being handled.
\<close>

fun app_log_call :: "logger \<Rightarrow> datetime \<Rightarrow> string \<Rightarrow> log_context \<times> app_event \<Rightarrow> log_call" where
  "app_log_call cfg now tb (ctx, RequestUnhandledException err) =
     \<lparr>lc_config = cfg, lc_bound = True, lc_context = ctx, lc_method = ''error'',
      lc_event = ''request_unhandled_exception'', lc_fields = [(''error'', JStr err)],
      lc_traceback = Some tb, lc_now = now\<rparr>"
| "app_log_call cfg now tb (ctx, RequestCompleted code duration is_err) =
     \<lparr>lc_config = cfg, lc_bound = True, lc_context = ctx, lc_method = ''info'',
      lc_event = ''request_completed'',
      lc_fields = [(''status_code'', JInt (int code)), (''duration_ms'', JFloat duration), (''is_error'', JBool is_err)],
      lc_traceback = None, lc_now = now\<rparr>"

definition request_context :: "http_request \<Rightarrow> log_context" where
  "request_context req = [(''path'', rq_path req), (''method'', rq_method req)]"

lemma bind_request: "bind_request_context [(''path'', rq_path req), (''method'', rq_method req)] [] = request_context req"
  by (simp add: bind_request_context_def request_context_def)

text \<open>The last entry of an answered request, and what may come before it.\<close>

lemma middleware_entries:
  assumes "observability_middleware req call_next start stop app s = (Inr response, evs, app', s')"
    and "app_context app = []"
  shows "\<exists>errs is_err. evs = errs @ [(request_context req, RequestCompleted (status_code response)
            (py_round 2 (elapsed_ms start stop)) is_err)]
          \<and> (errs = [] \<or> (\<exists>e. errs = [(request_context req, RequestUnhandledException e)]))
          \<and> (500 \<le> status_code response \<longleftrightarrow> is_err)"
  using assms
  by (auto simp: middleware_defs bind_request internal_error_response_def split: prod.splits sum.splits if_splits)

lemma loggable_request:
  assumes "0 < stack"
  shows "loggable stack (app_log_call cfg now tb (request_context req, RequestUnhandledException e))"
    and "code < 1000 \<Longrightarrow> wf_float d \<Longrightarrow>
      loggable stack (app_log_call cfg now tb (request_context req, RequestCompleted code d is_err))"
proof -
  have big: "\<bar>int n\<bar> < 10 ^ max_str_digits" if "n < 1000" for n
  proof -
    have "(1000 :: int) = 10 ^ 3" by simp
    also have "(10 :: int) ^ 3 \<le> 10 ^ max_str_digits" by (intro power_increasing) (simp_all add: max_str_digits_def)
    finally have "(1000 :: int) \<le> 10 ^ max_str_digits" .
    moreover have "int n < 1000" using that by simp
    ultimately show ?thesis unfolding abs_of_nat by (rule order_less_le_trans [rotated])
  qed
  note defs = loggable_def level_number_def dict_keys_def request_context_def context_fields_def special_keys_def
  show "loggable stack (app_log_call cfg now tb (request_context req, RequestUnhandledException e))"
    using assms by (simp add: defs)
  show "loggable stack (app_log_call cfg now tb (request_context req, RequestCompleted code d is_err))"
    if "code < 1000" and "wf_float d"
    using assms that(2) big [OF that(1)] by (simp add: defs)
qed

subsection \<open>What service-a logs\<close>

text \<open>
  The calls behind the events of \<open>process\<close>, \<open>retry_async\<close> and
  \<open>call_cpp_worker_square_sum\<close>: all are made on a module-level logger.
\<close>

definition module_call :: "logger \<Rightarrow> log_context \<Rightarrow> datetime \<Rightarrow> string \<Rightarrow> string \<Rightarrow> fields \<Rightarrow> log_call" where
  "module_call cfg ctx now method_name event kvs =
     \<lparr>lc_config = cfg, lc_bound = False, lc_context = ctx, lc_method = method_name, lc_event = event,
      lc_fields = kvs, lc_traceback = None, lc_now = now\<rparr>"

fun a_log_calls :: "logger \<Rightarrow> log_context \<Rightarrow> datetime \<Rightarrow> a_event \<Rightarrow> log_call list" where
  "a_log_calls cfg ctx now (Retried (RetryExhausted op n err)) =
     [module_call cfg ctx now ''error'' ''retry_exhausted''
        [(''op'', JStr op), (''attempt'', JInt n), (''error'', JStr err)]]"
| "a_log_calls cfg ctx now (Retried (RetryBackoff op n delay err)) =
     [module_call cfg ctx now ''warning'' ''retry_backoff''
        [(''op'', JStr op), (''attempt'', JInt n), (''delay_seconds'', JFloat delay), (''error'', JStr err)]]"
| "a_log_calls cfg ctx now (Retried (Slept _)) = []"
| "a_log_calls cfg ctx now (FanoutFailed err) =
     [module_call cfg ctx now ''error'' ''fanout_failed'' [(''error'', JStr err)]]"
| "a_log_calls cfg ctx now (CppWorkerCall n v duration) =
     [module_call cfg ctx now ''info'' ''cpp_worker_call''
        [(''items'', JInt (int n)), (''result'', case v of None \<Rightarrow> JNull | Some j \<Rightarrow> j), (''duration_ms'', JFloat duration)]]"
| "a_log_calls cfg ctx now (CppWorkerUnreachable err) =
     [module_call cfg ctx now ''warning'' ''cpp_worker_unreachable'' [(''error'', JStr err)]]"

text \<open>
  The lines of service-a's pipeline name no service: the logger that \<open>configure_logging\<close> binds to
  the service is not the one these modules log with.
\<close>

lemma module_line_no_service:
  assumes "documented sl" and "loggable stack c" and "\<not> lc_bound c" and "line \<in> set (emit_line sl c)"
  shows "\<exists>d. line = json_dumps None False (JObj d) \<and> map_of d ''service'' = None"
  using emit_line_entry [OF assms(1,2)] assms(3,4) by (fastforce simp: entry_def split: if_splits)

lemma a_log_calls_unbound: "c \<in> set (a_log_calls cfg ctx now e) \<Longrightarrow> \<not> lc_bound c"
  by (cases "(cfg, ctx, now, e)" rule: a_log_calls.cases) (auto simp: module_call_def)

lemma service_a_lines_lack_service:
  assumes "documented sl" and "c \<in> set (concat (map (a_log_calls cfg ctx now) (fst (process st rfs net cpp_post rand clk req))))"
    and "loggable stack c" and "line \<in> set (emit_line sl c)"
  shows "\<exists>d. line = json_dumps None False (JObj d) \<and> map_of d ''service'' = None"
  using module_line_no_service [OF assms(1,3) _ assms(4)] a_log_calls_unbound assms(2) by auto

subsection \<open>What the aggregator prints\<close>

text \<open>The aggregator's own calls, each an \<open>info\<close> call on the logger bound to its name.\<close>

fun aggregator_call :: "logger \<Rightarrow> datetime \<Rightarrow> log_record \<Rightarrow> log_call" where
  "aggregator_call cfg now (RawLog cont raw) =
     \<lparr>lc_config = cfg, lc_bound = True, lc_context = [], lc_method = ''info'', lc_event = ''raw_log'',
      lc_fields = [(''container'', JStr cont), (''raw'', JStr raw)], lc_traceback = None, lc_now = now\<rparr>"
| "aggregator_call cfg now (ServiceLog cont srv lvl msg ts rest) =
     \<lparr>lc_config = cfg, lc_bound = True, lc_context = [], lc_method = ''info'', lc_event = ''service_log'',
      lc_fields = [(''container'', JStr cont), (''upstream_service'', srv), (''upstream_level'', lvl),
                   (''upstream_message'', msg), (''upstream_timestamp'', ts), (''extra'', JObj rest)],
      lc_traceback = None, lc_now = now\<rparr>"

lemma log_info_prints:
  "documented sl \<Longrightarrow> length (emit_line sl (aggregator_call lg now r)) = length (log_info lg r)"
  by (cases r) (simp_all add: emit_line_def documented_def level_number_def log_info_def level_enabled_def)

text \<open>Above \<open>INFO\<close> the aggregator prints nothing of what it reads, whatever the services logged.\<close>

lemma quiet_aggregator_drops_all:
  assumes "documented sl" and "20 < lg_level cfg"
  shows "emit_line sl (aggregator_call cfg now r) = []"
  using assms by (cases r) (simp_all add: emit_line_def documented_def level_number_def)

subsection \<open>Properties\<close>

text \<open>
  C38: what a service logs is what the aggregator reports. Let every service make its log calls
  through the configured pipeline and compose prefix each printed line with its container. Then an
  aggregator whose own level is at most \<open>INFO\<close> logs exactly one record for every call that the
  level of its service enables, in order, and one with a higher level none. The record has: the container,
  the method as level, the event as message, the instant as timestamp, the service of the logger the
  call was made on, and the other keyword arguments, request context and traceback as the remaining
  fields. A call on a module-level logger is reported with no service.
\<close>

theorem log_lines_reach_aggregator:
  assumes "documented sl"
    and "list_all (\<lambda>(cont, _, c). container_name cont \<and> loggable stack c) calls"
    and "configure_logging env ''log-aggregator'' = Inr cfg"
  shows "\<exists>recs. snd (log_main env which_docker opts stack
                (map (\<lambda>l. (Inr l, False)) (concat (map (compose_lines sl) calls))) (Some rc)) = (recs, Inr rc)
           \<and> list_all2 (reports sl)
               (if lg_level cfg \<le> INFO then filter (\<lambda>(_, _, c). enabled_call c) calls else []) recs"
proof -
  from calls_lines [OF assms(1,2)] obtain es where es:
    "concat (map (compose_lines sl) calls) = map printed_line es" "list_all (printable_entry stack) es"
    "list_all2 (reports sl) (filter (\<lambda>(_, _, c). enabled_call c) calls) (map service_log es)" by blast
  with read_structured_lines [OF es(2), of cfg] assms(3) show ?thesis
    by (simp add: log_main_def comp_def level_enabled_def)
qed

text \<open>A structlog whose event dictionaries keep their insertion order.\<close>

definition sample_structlog :: structlog where
  "sample_structlog =
     \<lparr>sl_bind = (\<lambda>kvs ctx. foldr (\<lambda>(k, v). AList.update k v) kvs ctx),
      sl_event = (\<lambda>ctx e kvs. AList.update ''event'' (JStr e) (foldr (\<lambda>(k, v). AList.update k v) kvs ctx)),
      sl_enabled = (\<lambda>lvl m. case level_number m of None \<Rightarrow> False | Some n \<Rightarrow> lvl \<le> n),
      sl_stamp = isoformat,
      merge_contextvars = (\<lambda>cv d. foldr (\<lambda>(k, v). AList.update k v) d cv),
      add_log_level = (\<lambda>m. AList.update ''level'' (JStr m)),
      time_stamper = (\<lambda>t. AList.update ''timestamp'' (JStr (isoformat t))),
      stack_info_renderer = (\<lambda>d. d),
      format_exc_info = (\<lambda>tb d. if map_of d ''exc_info'' = Some (JBool True)
                            then AList.update ''exception'' (JStr tb) (AList.delete ''exc_info'' d) else d),
      event_renamer = (\<lambda>k d. case map_of d ''event'' of None \<Rightarrow> d | Some v \<Rightarrow> AList.update k v (AList.delete ''event'' d)),
      json_renderer = (\<lambda>d. json_dumps None False (JObj d))\<rparr>"

lemma update_all:
  "map_of (foldr (\<lambda>(k, v). AList.update k v) kvs ctx) = map_of ctx ++ map_of kvs"
  "dict_keys ctx \<Longrightarrow> dict_keys (foldr (\<lambda>(k, v). AList.update k v) kvs ctx)"
  by (induction kvs) (auto simp: update_conv' dict_keys_def distinct_update)

lemma dict_keys_update: "dict_keys d \<Longrightarrow> dict_keys (AList.update k v d)"
  by (simp add: dict_keys_def distinct_update)

lemma dict_keys_delete: "dict_keys d \<Longrightarrow> dict_keys (AList.delete k d)"
  by (simp add: dict_keys_def distinct_delete)

lemma documented_sample: "documented sample_structlog"
  by (auto simp: documented_def sample_structlog_def update_all update_conv' delete_conv' dict_keys_update dict_keys_delete)


definition sample_call :: log_call where
  "sample_call =
     \<lparr>lc_config = \<lparr>lg_service = ''service-a'', lg_level = 20\<rparr>, lc_bound = True,
      lc_context = [(''path'', ''/process'')], lc_method = ''info'', lc_event = ''request_completed'',
      lc_fields = [(''is_error'', JBool False)], lc_traceback = None, lc_now = Datetime 0\<rparr>"

definition sample_calls :: "container_call list" where
  "sample_calls =
     [(''cm-a'', 2, sample_call), (''cm-a'', 2, sample_call\<lparr>lc_method := ''debug''\<rparr>),
      (''cm-b'', 1, sample_call\<lparr>lc_bound := False, lc_method := ''error'', lc_traceback := Some ''Traceback''\<rparr>)]"

lemma loggable_samples: "list_all (\<lambda>(cont, _, c). container_name cont \<and> loggable 5 c) sample_calls"
  by (simp add: sample_calls_def sample_call_def container_name_def loggable_def is_space_def dict_keys_def
      context_fields_def special_keys_def level_number_def)

lemma enabled_samples:
  "filter (\<lambda>(_, _, c). enabled_call c) sample_calls = [sample_calls ! 0, sample_calls ! 2]"
  by (simp add: sample_calls_def sample_call_def enabled_call_def level_number_def)

lemma log_lines_reach_aggregator_witness:
  "\<exists>recs. snd (log_main (\<lambda>_. None) None sample_options 5
        (map (\<lambda>l. (Inr l, False)) (concat (map (compose_lines sample_structlog) sample_calls))) (Some 0)) = (recs, Inr 0)
     \<and> list_all2 (reports sample_structlog) [sample_calls ! 0, sample_calls ! 2] recs"
  using log_lines_reach_aggregator [OF documented_sample loggable_samples sample_logging, of None sample_options 0]
  by (simp add: enabled_samples)

text \<open>
  C34: every answered request leaves its trace in the aggregated log. When the levels of the service
  and of the aggregator are both at most \<open>INFO\<close> and the service answers a request (with a status
  below 1000) through its middleware, starting from an empty logging context, the
  records the aggregator logs of the printed lines are at most one for an unhandled exception and a last one for
  the completion: level info, the service, the instant, the path and method of the request, the status of the response
  the client got, the duration, and whether it counted as an error.
\<close>

theorem request_log_reaches_aggregator:
  assumes "documented sl" and "container_name cont" and "0 < stack"
    and "configure_logging aenv ''log-aggregator'' = Inr acfg" and "lg_level acfg \<le> INFO"
    and "configure_logging env name = Inr cfg" and "lg_level cfg \<le> INFO"
    and "observability_middleware req call_next start stop app s = (Inr response, evs, app', s')"
    and "app_context app = []" and "status_code response < 1000"
  shows "\<exists>errs rest. snd (log_main aenv which_docker opts stack
              (map (\<lambda>l. (Inr l, False))
                (concat (map (\<lambda>e. compose_lines sl (cont, width, app_log_call cfg now tb e)) evs))) (Some rc))
            = (errs @ [ServiceLog cont (JStr name) (JStr ''info'') (JStr ''request_completed'') (JStr (sl_stamp sl now)) rest],
               Inr rc)
          \<and> length errs \<le> 1
          \<and> map_of rest = [''status_code'' \<mapsto> JInt (int (status_code response)),
                ''duration_ms'' \<mapsto> JFloat (py_round 2 (elapsed_ms start stop)),
                ''is_error'' \<mapsto> JBool (500 \<le> status_code response),
                ''path'' \<mapsto> JStr (rq_path req), ''method'' \<mapsto> JStr (rq_method req)]"
proof -
  let ?call = "\<lambda>e. (cont, width, app_log_call cfg now tb e)"
  from middleware_entries [OF assms(8,9)] obtain errs is_err where
    evs: "evs = errs @ [(request_context req, RequestCompleted (status_code response) (py_round 2 (elapsed_ms start stop)) is_err)]"
    and errs: "errs = [] \<or> (\<exists>e. errs = [(request_context req, RequestUnhandledException e)])"
    and is_err: "500 \<le> status_code response \<longleftrightarrow> is_err" by blast
  have wf: "wf_float (py_round 2 (elapsed_ms start stop))"
    by (intro wf_py_round) (simp add: elapsed_ms_def)
  have "list_all (\<lambda>(cont, _, c). container_name cont \<and> loggable stack c) (map ?call evs)"
    using errs assms(2) loggable_request [OF assms(3)] assms(10) wf by (auto simp: evs)
  from calls_lines [OF assms(1) this] obtain es where es:
    "concat (map (compose_lines sl) (map ?call evs)) = map printed_line es" "list_all (printable_entry stack) es"
    "list_all2 (reports sl) (filter (\<lambda>(_, _, c). enabled_call c) (map ?call evs)) (map service_log es)" by blast
  have "filter (\<lambda>(_, _, c). enabled_call c) (map ?call evs) = map ?call evs"
    using errs assms(7) by (auto simp: evs enabled_call_def level_number_def)
  then have reported: "list_all2 (reports sl) (map ?call evs) (map service_log es)" using es(3) by simp
  obtain recs r where recs: "map service_log es = recs @ [r]" "list_all2 (reports sl) (map ?call errs) recs"
    "reports sl (?call (last evs)) r" using reported by (auto simp: evs list_all2_append1 list_all2_Cons1)
  have name: "lg_service cfg = name" using assms(6) by (auto simp: configure_logging_def split: if_splits log_level.splits)
  obtain rest where rest: "r = ServiceLog cont (JStr name) (JStr ''info'') (JStr ''request_completed'') (JStr (sl_stamp sl now)) rest"
      "dict_keys rest" "set rest = set (carried (app_log_call cfg now tb (last evs)))"
    using recs(3) name by (cases r) (auto simp: evs)
  have "map_of rest = map_of (carried (app_log_call cfg now tb (last evs)))"
    using loggable_request(2) [OF assms(3,10) wf, of cfg now tb req is_err]
    by (intro reports_rest [OF rest(2,3), of stack]) (simp add: evs)
  then have "map_of rest = [''status_code'' \<mapsto> JInt (int (status_code response)),
                ''duration_ms'' \<mapsto> JFloat (py_round 2 (elapsed_ms start stop)),
                ''is_error'' \<mapsto> JBool (500 \<le> status_code response),
                ''path'' \<mapsto> JStr (rq_path req), ''method'' \<mapsto> JStr (rq_method req)]"
    by (simp add: carried_def reserved_def context_fields_def request_context_def evs is_err fun_upd_twist)
  moreover have "length recs \<le> 1" using recs(2) errs by (auto dest: list_all2_lengthD)
  moreover have "snd (log_main aenv which_docker opts stack
              (map (\<lambda>l. (Inr l, False)) (concat (map (\<lambda>e. compose_lines sl (?call e)) evs))) (Some rc)) = (recs @ [r], Inr rc)"
    using es(1) read_structured_lines [OF es(2), of acfg] assms(4,5) recs(1)
    by (simp add: log_main_def comp_def level_enabled_def)
  ultimately show ?thesis unfolding rest(1) by blast
qed

lemma request_log_reaches_aggregator_witness:
  "\<exists>errs rest. snd (log_main (\<lambda>_. None) None sample_options 5
        (map (\<lambda>l. (Inr l, False))
          (concat (map (\<lambda>e. compose_lines sample_structlog
                              (''cm-x'', 1, app_log_call \<lparr>lg_service = ''svc'', lg_level = 20\<rparr> (Datetime 0) ''Traceback'' e))
             (fst (snd (observability_middleware example_request (\<lambda>m s. (Inl (ValueError ''boom''), s))
                          (Fin 1) (Fin 2) example_app ())))))) (Some 0))
      = (errs @ [ServiceLog ''cm-x'' (JStr ''svc'') (JStr ''info'') (JStr ''request_completed'')
                   (JStr (isoformat (Datetime 0))) rest], Inr 0)
     \<and> map_of rest ''status_code'' = Some (JInt 500) \<and> map_of rest ''path'' = Some (JStr ''/x'')"
proof -
  let ?m = "observability_middleware example_request (\<lambda>m s. (Inl (ValueError ''boom''), s)) (Fin 1) (Fin 2) example_app ()"
  let ?cfg = "\<lparr>lg_service = ''svc'', lg_level = 20\<rparr>"
  have m: "?m = (Inr internal_error_response, fst (snd ?m), fst (snd (snd ?m)), ())"
    by (simp add: middleware_defs is_Exception_def)
  have "container_name ''cm-x''" by (simp add: container_name_def is_space_def)
  moreover have "configure_logging (\<lambda>_. None) ''svc'' = Inr ?cfg" by code_simp
  moreover have "app_context example_app = []" by (simp add: example_app_def)
  moreover have "status_code internal_error_response < 1000" by (simp add: internal_error_response_def)
  ultimately show ?thesis
    using request_log_reaches_aggregator [OF documented_sample _ _ sample_logging _ _ _ m, where stack = 5
        and cont = "''cm-x''" and env = "\<lambda>_. None" and name = "''svc''" and cfg = ?cfg and which_docker = None
        and opts = sample_options and rc = 0 and now = "Datetime 0" and tb = "''Traceback''" and width = 1]
    by (force simp: sample_structlog_def example_request_def internal_error_response_def)
qed

end
