(* ===== verification/Spec2Isabelle.thy ===== *)
theory Spec2Isabelle
  imports Relay ResponseTypes CppMetrics Orchestrator FaultInjector MetricsCollector LogFlow
begin

text \<open>
  A model of the cloud-microservices repository: five HTTP services that square numbers, keep
  records and inject faults, and the scripts that start, watch, restart and observe them.

  \<^bold>\<open>The program.\<close> A client posts a list of numbers to the api-gateway
  (\<^verbatim>\<open>services/api-gateway\<close>), which forwards it to service-a (\<^verbatim>\<open>services/service-a\<close>).
  Service-a squares every item by calling service-b (\<^verbatim>\<open>services/service-b\<close>), or in a queue of
  consumers, or in a thread pool, and aggregates the squares; for the operation
  \<open>square_sum\<close> it also asks the C++ worker (\<^verbatim>\<open>services/cpp-worker\<close>), which adds squares in parallel. Service-b keeps a key-value store besides. All
  services are built by \<^verbatim>\<open>shared/fastapi_app.py\<close>, whose middleware counts every request.
  The fault injector (\<^verbatim>\<open>services/fault-injector\<close>) stops and starts containers and makes its own
  endpoints slow or failing. The orchestrator (\<^verbatim>\<open>orchestration/orchestrator.py\<close>) brings the stack
  up, waits for its health and runs the recovery watcher (\<^verbatim>\<open>orchestration/recovery.py\<close>), which
  polls every service and restarts the container of one that fails too often. The metrics collector
  and the log aggregator (\<^verbatim>\<open>monitoring/\<close>) write what the services report to files.

  \<^bold>\<open>The theories\<close>, in the order of their imports. Names of definitions are those of the source,
  with a suffix or prefix where one clashes.

  \<^item> \<open>Prelude\<close>: exceptions (\<open>exn\<close>, with \<open>is_Exception\<close> for what \<open>except Exception\<close>
    catches and \<open>is_HTTPError\<close> for httpx), the result type \<open>'a outcome = exn + 'a\<close>, \<open>results\<close>
    (all values or the first error), maps and lists.
  \<^item> \<open>PyFloat\<close>, \<open>PyArith\<close>: Python floats as IEEE doubles (rounded reals, infinities, nan);
    rounding is the identity on whole numbers up to \<open>2 ^ 53\<close>, and sums, products and comparisons
    behave as written there. \<open>PyText\<close>: \<open>str\<close> methods, \<open>int()\<close>, \<open>float()\<close> and integer
    printing. \<open>PyRepr\<close>: \<open>repr\<close> of a float, the shortest decimal that reads back as it;
    seventeen digits always do.
  \<^item> \<open>Utils\<close>, \<open>Models\<close>: \<^verbatim>\<open>shared/utils.py\<close> (environment, \<open>retry_async\<close>, \<open>timed\<close>,
    \<open>MetricsState\<close>) and \<^verbatim>\<open>shared/models.py\<close> (the pydantic models as records, their
    constraints as predicates).
  \<^item> \<open>PyJson\<close>: \<open>json.dumps\<close> and \<open>json.loads\<close> of the standard library, with the recursion limit
    as the parameter \<open>stack\<close> of the latter. What is printed reads back as it was.
  \<^item> \<open>Calendar\<close>: dates and ISO 8601 time stamps, with the inverse that reads them.
  \<^item> \<open>Http\<close>: requests, replies and the outcome of a call. \<open>Interfaces\<close>: the locales
    \<open>mutex\<close>, \<open>simulation\<close> and \<open>gathering\<close>, and \<open>asyncio.gather\<close>.
  \<^item> \<open>Storage\<close>, \<open>ServiceB\<close>: \<^verbatim>\<open>services/service-b/app\<close>. The store is an association
    list in insertion order with a lock.
  \<^item> \<open>FastapiApp\<close>: \<^verbatim>\<open>shared/fastapi_app.py\<close> and \<^verbatim>\<open>shared/logging_config.py\<close>.
  \<^item> \<open>HealthCheck\<close>: \<^verbatim>\<open>orchestration/__init__.py\<close> and \<^verbatim>\<open>orchestration/health_check.py\<close>.
  \<^item> \<open>Recovery\<close>: \<^verbatim>\<open>orchestration/recovery.py\<close>. The state is the record \<open>watcher\<close>; a
    poll round is a list of probe results. \<open>recovery_spec\<close> is the abstract automaton it refines:
    a failure streak per service.
  \<^item> \<open>Scheduler\<close>: concurrent code as machines. \<open>reachable\<close> is any interleaving, \<open>drive\<close> runs
    the one chosen by \<open>pick\<close>; the locale \<open>scheduled\<close> has an invariant and a decreasing measure,
    the locale \<open>pipeline\<close> is the contract of a concurrent map.
  \<^item> \<open>FanOut\<close>, \<open>QueuePipeline\<close>, \<open>Worker\<close>: \<open>fan_out_to_service_b\<close>, \<open>queue_pipeline\<close>,
    \<open>threadpool_pipeline\<close> and \<open>call_cpp_worker_square_sum\<close> of
    \<^verbatim>\<open>services/service-a/app/worker.py\<close>. Each is a machine that interprets \<open>scheduled\<close>
    and \<open>pipeline\<close>.
  \<^item> \<open>ThreadPool\<close>: \<^verbatim>\<open>services/cpp-worker/src/thread_pool.hpp\<close> and the machine of the calls that share
    a pool (mutex sections, condition variable, futures, accumulators), another \<open>scheduled\<close> one.
    \<open>SquareSum\<close>: \<open>ComputeSquareSumThreaded\<close> with its \<open>size_t\<close> arithmetic on 64-bit words.
    \<open>CppWorker\<close>: configuration, handlers and \<open>main\<close> of \<^verbatim>\<open>main.cpp\<close>. \<open>CppMetrics\<close>: its
    counters under concurrent requests.
  \<^item> \<open>ServiceA\<close>, \<open>ApiGateway\<close>: settings and handlers of the two services. \<open>ResponseTypes\<close>: the
    types of service-a's responses.
  \<^item> \<open>Injector\<close>, \<open>FaultInjector\<close>: \<^verbatim>\<open>services/fault-injector/app\<close>: fault state, container
    controller, handlers.
  \<^item> \<open>Argparse\<close>: what the scripts use of \<open>argparse\<close>. \<open>Orchestrator\<close>, \<open>LogAggregator\<close>,
    \<open>MetricsCollector\<close>: the three scripts. \<open>LogFlow\<close>: the processors of
    \<^verbatim>\<open>shared/logging_config.py\<close>, and the way of a log call from there to the aggregator.
  \<^item> \<open>EndToEnd\<close>: the services composed, service-b's handler and the C++ worker answering service-a's
    requests and service-a's handlers those of the gateway. \<open>Relay\<close>: the gateway as a relay of
    service-a's handlers.

  \<^bold>\<open>What is shown.\<close> Refinement: the store answers as a finite map does, the watcher as its
  streak automaton, \<open>retry_async\<close> as the first conclusive call, the aggregator as one record per
  payload (at its own level). Concurrency: for every interleaving, the three pipelines compute the map of their function
  or raise the failure of an item, stay within their concurrency, keep each item in one place, and
  end; the thread pool of the C++ worker loses no task and no wake-up, never hangs, and its calls return
  sums of all their chunks; its counters lose no update. Services: the answers of the handlers on every branch, the HTTP status of errors, the allow-list
  of the injector, the counters of \<open>/metrics\<close>. Scripts: which commands are run, in which order and
  on which events, what is written, and when they end; the files of the collector and the lines the
  aggregator reads hold the JSON documents that were printed, and an aggregator whose own level is at most
  \<open>INFO\<close> reports every enabled log call with its fields. Composition: the sum of squares through gateway,
  service-a and service-b is exact for small whole numbers, and so is the second one of the C++
  worker; the gateway passes on every result of service-a and turns every failure into a 502.

  \<^bold>\<open>Fuel and bounds.\<close> A fan-out takes two steps for each item, and so does the queue; a thread-pool
  run takes three and one more for its end: \<open>fan_run\<close>, \<open>queue_run\<close> and \<open>threadpool_run\<close> drive the machine with
  that fuel, and \<open>scheduled.drive_ends\<close> shows that no action is left then; \<open>sum_fuel\<close> does the same
  for the C++ worker. The wait of the orchestrator
  has its 30 rounds. The endless loops (watcher, collector, log stream) take the list of their cycles,
  each with what the world answers in it; they return \<open>None\<close> when the list ends first, which is a
  loop still running. A stop signal is a flag of the cycle.
  The JSON scanner has fuel of twice the length of the text and one, which \<open>scan_enough\<close> shows
  to suffice for every text.

  \<^bold>\<open>Parameters.\<close> Code that is not in the repository is an argument: the HTTP client with
  \<open>raise_for_status\<close> (the hypothesis \<open>raises_on_error\<close> is its documentation: it
  returns for a success status and raises \<open>HTTPStatusError\<close> for any other), the docker SDK and command line, the validation of
  pydantic, httplib and nlohmann/json (the hypotheses \<open>parses_floats\<close> and \<open>keeps_numbers\<close> are that
  JSON text keeps finite doubles), structlog (\<open>documented\<close> states what each processor does to the
  event dictionary), how many threads a system starts, clocks and random draws. The witnesses give concrete
  functions for them.

  \<^bold>\<open>Not modelled.\<close> Tests, Docker files and
  the Makefile; the inside of structlog and its output before it is configured; disk errors; code points beyond 255 (the JSON reader marks
  their escapes with \<open>beyond_text\<close>); instants before 1970; the weak memory order of the relaxed
  atomics, whose steps interleave here; the registration of signal handlers; the start of uvicorn and the opening and closing of HTTP clients.
\<close>

end
